theory Spec2Isabelle
  imports Complex_Main "HOL-Library.Word" "HOL-Library.Multiset" "HOL-Library.Sublist"
begin

unbundle bit_operations_syntax

section \<open>Request scheduling core of the torrent client\<close>

text \<open>
  A shallow embedding of \<^verbatim>\<open>request-strategy/order.go\<close>, of the piece request order
  (\<^verbatim>\<open>PieceRequestOrder\<close>) and of \<^verbatim>\<open>requesting.go\<close>.  Go's \<^verbatim>\<open>uint32\<close> and \<^verbatim>\<open>int64\<close> are
  words, Go's \<^verbatim>\<open>int\<close> (counters and indices that stay far from the machine bounds) is
  \<open>int\<close>, a roaring bitmap is a set of 32-bit words (iterated in ascending order), and
  every \<^verbatim>\<open>panic\<close> is a value of type \<open>panic\<close> on the left of a sum.
\<close>

subsection \<open>Panics\<close>

datatype panic =
    NotDifferentiated           \<comment> \<open>\<^verbatim>\<open>MustLess\<close> on a computation that is not ok\<close>
  | ShouldOnlyAddOnce           \<comment> \<open>\<^verbatim>\<open>addNextRequest\<close>: \<^verbatim>\<open>CheckedAdd\<close> returned false\<close>
  | PendingChunksRemaining int  \<comment> \<open>the last check of \<^verbatim>\<open>allocatePendingChunks\<close>\<close>
  | IndexOutOfRange             \<comment> \<open>a slice read or written past its length\<close>
  | DivideByZero                \<comment> \<open>integer division by zero\<close>
  | NegativePending int         \<comment> \<open>\<^verbatim>\<open>pending\<close> in \<^verbatim>\<open>peerRequests.Less\<close>\<close>
  | LastPending int             \<comment> \<open>\<^verbatim>\<open>panic(lastPending)\<close> in \<^verbatim>\<open>applyRequestState\<close>\<close>
  | KeyPresent                  \<comment> \<open>\<^verbatim>\<open>PieceRequestOrder.Add\<close>: the key is in \<^verbatim>\<open>keys\<close>\<close>
  | ShouldntAlreadyHaveThis     \<comment> \<open>\<^verbatim>\<open>PieceRequestOrder.Add\<close>: the tree held the item\<close>
  | KeyAbsent                   \<comment> \<open>\<^verbatim>\<open>Update\<close>, \<^verbatim>\<open>Delete\<close>: the tree did not hold the item\<close>
  | KeyReplaced                 \<comment> \<open>\<^verbatim>\<open>Update\<close>: the tree already held the new item\<close>

subsection \<open>The multiless computation\<close>

text \<open>
  \<^verbatim>\<open>github.com/anacrolix/multiless\<close> is a library the repository imports.  A computation
  is a pair of flags; each step keeps a computation that is already ok and otherwise
  decides it when its two arguments differ.
\<close>

record Computation =
  c_ok :: bool
  c_less :: bool

definition ml_New :: Computation where
  "ml_New = \<lparr>c_ok = False, c_less = False\<rparr>"

definition EagerSameLess :: "Computation \<Rightarrow> bool \<Rightarrow> bool \<Rightarrow> Computation" where
  "EagerSameLess me same lt = (if c_ok me \<or> same then me else \<lparr>c_ok = True, c_less = lt\<rparr>)"

definition ml_Bool :: "Computation \<Rightarrow> bool \<Rightarrow> bool \<Rightarrow> Computation" where
  "ml_Bool me l r = EagerSameLess me (l = r) r"

definition ml_Int :: "Computation \<Rightarrow> int \<Rightarrow> int \<Rightarrow> Computation" where
  "ml_Int me l r = EagerSameLess me (l = r) (l < r)"

definition ml_Int64 :: "Computation \<Rightarrow> 64 word \<Rightarrow> 64 word \<Rightarrow> Computation" where
  "ml_Int64 me l r = EagerSameLess me (l = r) (l <s r)"

definition ml_Uint32 :: "Computation \<Rightarrow> 32 word \<Rightarrow> 32 word \<Rightarrow> Computation" where
  "ml_Uint32 me l r = EagerSameLess me (l = r) (l < r)"

definition ml_Uintptr :: "Computation \<Rightarrow> nat \<Rightarrow> nat \<Rightarrow> Computation" where
  "ml_Uintptr me l r = EagerSameLess me (l = r) (l < r)"

definition ml_Float64 :: "Computation \<Rightarrow> real \<Rightarrow> real \<Rightarrow> Computation" where
  "ml_Float64 me l r = EagerSameLess me (l = r) (l < r)"

definition ml_Cmp :: "Computation \<Rightarrow> int \<Rightarrow> Computation" where
  "ml_Cmp me i = EagerSameLess me (i = 0) (i < 0)"

definition ml_Lazy :: "Computation \<Rightarrow> (unit \<Rightarrow> Computation) \<Rightarrow> Computation" where
  "ml_Lazy me f = (if c_ok me then me else f ())"

definition ml_AndThen :: "Computation \<Rightarrow> Computation \<Rightarrow> Computation" where
  "ml_AndThen me thn = (if c_ok me then me else thn)"

definition ml_Less :: "Computation \<Rightarrow> bool" where
  "ml_Less me = c_less me"

definition ml_Ok :: "Computation \<Rightarrow> bool" where
  "ml_Ok me = c_ok me"

definition MustLess :: "Computation \<Rightarrow> panic + bool" where
  "MustLess me = (if \<not> c_ok me then Inl NotDifferentiated else Inr (c_less me))"

text \<open>\<^verbatim>\<open>bytes.Compare\<close>: lexicographic on unsigned bytes, a proper prefix first.\<close>

fun bytes_Compare :: "8 word list \<Rightarrow> 8 word list \<Rightarrow> int" where
  "bytes_Compare [] [] = 0"
| "bytes_Compare [] (b # bs) = - 1"
| "bytes_Compare (a # as) [] = 1"
| "bytes_Compare (a # as) (b # bs) =
     (if a < b then - 1 else if b < a then 1 else bytes_Compare as bs)"

text \<open>
  \<^verbatim>\<open>sort.Slice\<close> and \<^verbatim>\<open>sort.Sort\<close> belong to Go's library.  They are modelled by an
  insertion sort that asks the comparator only about two different positions and stops
  at the comparator's first panic.
\<close>

fun insert_by :: "('a \<Rightarrow> 'a \<Rightarrow> panic + bool) \<Rightarrow> 'a \<Rightarrow> 'a list \<Rightarrow> panic + 'a list" where
  "insert_by lt x [] = Inr [x]"
| "insert_by lt x (y # ys) =
     (case lt x y of
        Inl e \<Rightarrow> Inl e
      | Inr True \<Rightarrow> Inr (x # y # ys)
      | Inr False \<Rightarrow>
          (case insert_by lt x ys of Inl e \<Rightarrow> Inl e | Inr zs \<Rightarrow> Inr (y # zs)))"

fun sort_by :: "('a \<Rightarrow> 'a \<Rightarrow> panic + bool) \<Rightarrow> 'a list \<Rightarrow> panic + 'a list" where
  "sort_by lt [] = Inr []"
| "sort_by lt (x # xs) =
     (case sort_by lt xs of Inl e \<Rightarrow> Inl e | Inr ys \<Rightarrow> insert_by lt x ys)"

subsection \<open>Torrents, pieces and the selector's input\<close>

type_synonym RequestIndex = "32 word"

type_synonym ChunkIndex = "32 word"

type_synonym pieceIndex = int

type_synonym Hash = "8 word list"

text \<open>
  Modelled from the spec: \<^verbatim>\<open>types.PiecePriority\<close> is declared outside the files at hand;
  the spec calls it an ordered enum (None, Normal, High, ...) and the code reads it
  through \<^verbatim>\<open>int(...)\<close>, so it is a natural number here.
\<close>

type_synonym piecePriority = nat

text \<open>
  The key and the state of the piece request order.  Their field names are also field
  names of \<open>Torrent\<close> and \<open>Piece\<close> below, so they are written with the record's name:
  \<open>PieceRequestOrderState.Priority\<close>.
\<close>

record PieceRequestOrderKey =
  InfoHash :: Hash
  Index :: int

record PieceRequestOrderState =
  Priority :: piecePriority
  Partial :: bool
  Availability :: "64 word"

record pieceRequestOrderItem =
  item_key :: PieceRequestOrderKey
  item_state :: PieceRequestOrderState

text \<open>
  The fields are those \<^verbatim>\<open>makeRequestStrategyPiece\<close> fills.  \<^verbatim>\<open>IterPendingChunks\<close> is
  the sequence of chunk indices the iterator yields.
\<close>

record Piece =
  Request :: bool
  Priority :: piecePriority
  Partial :: bool
  Availability :: "64 word"
  Length :: "64 word"
  NumPendingChunks :: int
  IterPendingChunks :: "ChunkIndex list"

record Torrent =
  Pieces :: "Piece list"
  InfoHash :: Hash
  ChunksPerPiece :: "32 word"
  MaxUnverifiedBytes :: "64 word"

record Input =
  Torrents :: "Torrent list"
  Capacity :: "64 word option"
  MaxUnverifiedBytes :: "64 word"

record filterPiece =
  fp_t :: Torrent
  fp_index :: pieceIndex
  fp_Piece :: Piece

subsection \<open>The one-shot piece sort\<close>

text \<open>The closure passed to \<^verbatim>\<open>sort.Slice\<close> in \<^verbatim>\<open>sortFilterPieces\<close>.\<close>

definition filterPieceLess :: "filterPiece \<Rightarrow> filterPiece \<Rightarrow> panic + bool" where
  "filterPieceLess i j =
     MustLess
       (ml_Lazy
          (ml_Int
             (ml_Int64
                (ml_Bool
                   (ml_Int ml_New
                      (int (Priority (fp_Piece j))) (int (Priority (fp_Piece i))))
                   (Partial (fp_Piece j)) (Partial (fp_Piece i)))
                (Availability (fp_Piece i)) (Availability (fp_Piece j)))
             (fp_index i) (fp_index j))
          (\<lambda>_. ml_Cmp ml_New (bytes_Compare (InfoHash (fp_t i)) (InfoHash (fp_t j)))))"

definition sortFilterPieces :: "filterPiece list \<Rightarrow> nat list \<Rightarrow> panic + nat list" where
  "sortFilterPieces pieces indices =
     sort_by (\<lambda>i j. filterPieceLess (pieces ! i) (pieces ! j)) indices"

definition equalFilterPiece :: "filterPiece \<Rightarrow> filterPiece \<Rightarrow> bool" where
  "equalFilterPiece lp rp \<longleftrightarrow>
     \<not> (Priority (fp_Piece lp) \<noteq> Priority (fp_Piece rp) \<or>
        Partial (fp_Piece lp) \<noteq> Partial (fp_Piece rp) \<or>
        Availability (fp_Piece lp) \<noteq> Availability (fp_Piece rp) \<or>
        fp_index lp \<noteq> fp_index rp \<or>
        InfoHash (fp_t lp) \<noteq> InfoHash (fp_t rp))"

definition equalFilterPieces :: "filterPiece list \<Rightarrow> filterPiece list \<Rightarrow> bool" where
  "equalFilterPieces l r \<longleftrightarrow>
     length l = length r \<and> list_all2 equalFilterPiece l r"

definition reorderedFilterPieces :: "filterPiece list \<Rightarrow> nat list \<Rightarrow> filterPiece list" where
  "reorderedFilterPieces pieces indices = map (\<lambda>j. pieces ! j) indices"

text \<open>
  The package variable \<^verbatim>\<open>sorts\<close> (slice to permutation) is an association list passed
  in and returned.  A key equal to the input in the five compared fields gives its
  stored permutation; otherwise the input is sorted and the permutation stored.  The
  finalizer that drops an entry is left to the caller of the model.
\<close>

type_synonym sortsCache = "(filterPiece list \<times> nat list) list"

definition getSortedFilterPieces ::
  "sortsCache \<Rightarrow> filterPiece list \<Rightarrow> panic + (filterPiece list \<times> sortsCache)" where
  "getSortedFilterPieces sorts unsorted =
     (case find (\<lambda>(key, order). equalFilterPieces key unsorted) sorts of
        Some (key, order) \<Rightarrow> Inr (reorderedFilterPieces unsorted order, sorts)
      | None \<Rightarrow>
          (case sortFilterPieces unsorted [0 ..< length unsorted] of
             Inl e \<Rightarrow> Inl e
           | Inr indices \<Rightarrow>
               Inr (reorderedFilterPieces unsorted indices, (unsorted, indices) # sorts)))"

subsection \<open>The requestable piece selector\<close>

text \<open>
  The locals of \<^verbatim>\<open>GetRequestablePieces\<close> and the calls of the callback \<^verbatim>\<open>f\<close> so far.
  A Go map returns zero for a missing key: \<^verbatim>\<open>torrentUnverifiedBytes\<close> is a total
  function that starts at zero.
\<close>

record selector =
  storageLeft :: "64 word option"
  torrentUnverifiedBytes :: "Hash \<Rightarrow> 64 word"
  allTorrentsUnverifiedBytes :: "64 word"
  yielded :: "(Torrent \<times> Piece \<times> pieceIndex) list"

text \<open>One turn of the loop over the sorted pieces (lines 184 to 205).\<close>

definition pieceStep :: "Input \<Rightarrow> selector \<Rightarrow> filterPiece \<Rightarrow> selector" where
  "pieceStep input s piece =
     (let p = fp_Piece piece; tor = fp_t piece in
      if (case storageLeft s of None \<Rightarrow> False | Some left \<Rightarrow> left <s Length p) then s
      else
        let s1 = (case storageLeft s of
                    None \<Rightarrow> s
                  | Some left \<Rightarrow> s\<lparr>storageLeft := Some (left - Length p)\<rparr>) in
        if \<not> Request p \<or> NumPendingChunks p = 0 then s1
        else if Torrent.MaxUnverifiedBytes tor \<noteq> 0 \<and>
                Torrent.MaxUnverifiedBytes tor <s
                  torrentUnverifiedBytes s1 (InfoHash tor) + Length p then s1
        else if Input.MaxUnverifiedBytes input \<noteq> 0 \<and>
                Input.MaxUnverifiedBytes input <s
                  allTorrentsUnverifiedBytes s1 + Length p then s1
        else s1\<lparr>torrentUnverifiedBytes :=
                   (torrentUnverifiedBytes s1)
                     (InfoHash tor := torrentUnverifiedBytes s1 (InfoHash tor) + Length p),
                 allTorrentsUnverifiedBytes := allTorrentsUnverifiedBytes s1 + Length p,
                 yielded := yielded s1 @ [(tor, p, fp_index piece)]\<rparr>)"

definition allFilterPieces :: "Input \<Rightarrow> filterPiece list" where
  "allFilterPieces input =
     concat (map (\<lambda>tor. map (\<lambda>i. \<lparr>fp_t = tor, fp_index = int i, fp_Piece = Pieces tor ! i\<rparr>)
                           [0 ..< length (Pieces tor)])
                 (Torrents input))"

definition initSelector :: "Input \<Rightarrow> selector" where
  "initSelector input =
     \<lparr>storageLeft = Capacity input,
      torrentUnverifiedBytes = (\<lambda>_. 0),
      allTorrentsUnverifiedBytes = 0,
      yielded = []\<rparr>"

definition GetRequestablePieces ::
  "sortsCache \<Rightarrow> Input \<Rightarrow> panic + ((Torrent \<times> Piece \<times> pieceIndex) list \<times> sortsCache)" where
  "GetRequestablePieces sorts input =
     (case getSortedFilterPieces sorts (allFilterPieces input) of
        Inl e \<Rightarrow> Inl e
      | Inr (pieces, sorts') \<Rightarrow>
          Inr (yielded (foldl (pieceStep input) (initSelector input) pieces), sorts'))"

subsection \<open>The piece request order\<close>

text \<open>
  Modelled from the spec: \<^verbatim>\<open>pieceOrderLess\<close> and \<^verbatim>\<open>pieceOrderInput\<close>, which
  \<^verbatim>\<open>pieceRequestOrderItem.Less\<close> calls, are not in the files at hand.  The spec gives
  the comparator as five rules, leftmost first (priority descending, partial first,
  availability ascending, piece index ascending, info hash ascending bytewise) and calls
  it the single source of truth of the index and the one-shot sort; it is written as
  the same chain of steps as the closure of \<^verbatim>\<open>sortFilterPieces\<close>, without the final
  \<^verbatim>\<open>MustLess\<close>, which the caller replaces by \<^verbatim>\<open>Less\<close>.
\<close>

definition pieceOrderLess :: "pieceRequestOrderItem \<Rightarrow> pieceRequestOrderItem \<Rightarrow> Computation" where
  "pieceOrderLess i j =
     ml_Lazy
       (ml_Int
          (ml_Int64
             (ml_Bool
                (ml_Int ml_New
                   (int (PieceRequestOrderState.Priority (item_state j)))
                   (int (PieceRequestOrderState.Priority (item_state i))))
                (PieceRequestOrderState.Partial (item_state j))
                (PieceRequestOrderState.Partial (item_state i)))
             (PieceRequestOrderState.Availability (item_state i))
             (PieceRequestOrderState.Availability (item_state j)))
          (Index (item_key i)) (Index (item_key j)))
       (\<lambda>_. ml_Cmp ml_New
               (bytes_Compare (PieceRequestOrderKey.InfoHash (item_key i))
                              (PieceRequestOrderKey.InfoHash (item_key j))))"

text \<open>\<^verbatim>\<open>pieceRequestOrderItem.Less\<close>.\<close>

definition item_Less :: "pieceRequestOrderItem \<Rightarrow> pieceRequestOrderItem \<Rightarrow> bool" where
  "item_Less me other = ml_Less (pieceOrderLess me other)"

text \<open>
  \<^verbatim>\<open>github.com/google/btree\<close> is a library the repository imports: an ordered set of
  items under their \<^verbatim>\<open>Less\<close>, two items being the same when neither is less.  The tree
  is the ascending list of its items.  \<^verbatim>\<open>ReplaceOrInsert\<close> returns the item it replaced,
  \<^verbatim>\<open>Delete\<close> the item it removed, and \<open>None\<close> stands for \<^verbatim>\<open>nil\<close>.
\<close>

fun btree_ReplaceOrInsert ::
  "pieceRequestOrderItem \<Rightarrow> pieceRequestOrderItem list \<Rightarrow>
   pieceRequestOrderItem option \<times> pieceRequestOrderItem list" where
  "btree_ReplaceOrInsert x [] = (None, [x])"
| "btree_ReplaceOrInsert x (y # ys) =
     (if item_Less x y then (None, x # y # ys)
      else if item_Less y x then
        (case btree_ReplaceOrInsert x ys of (r, zs) \<Rightarrow> (r, y # zs))
      else (Some y, x # ys))"

fun btree_Delete ::
  "pieceRequestOrderItem \<Rightarrow> pieceRequestOrderItem list \<Rightarrow>
   pieceRequestOrderItem option \<times> pieceRequestOrderItem list" where
  "btree_Delete x [] = (None, [])"
| "btree_Delete x (y # ys) =
     (if item_Less x y then (None, y # ys)
      else if item_Less y x then
        (case btree_Delete x ys of (r, zs) \<Rightarrow> (r, y # zs))
      else (Some y, ys))"

record PieceRequestOrder =
  tree :: "pieceRequestOrderItem list"
  keys :: "PieceRequestOrderKey \<rightharpoonup> PieceRequestOrderState"

definition NewPieceOrder :: PieceRequestOrder where
  "NewPieceOrder = \<lparr>tree = [], keys = Map.empty\<rparr>"

text \<open>Reading a Go map at a missing key gives the zero value of the state.\<close>

definition existingItemForKey :: "PieceRequestOrder \<Rightarrow> PieceRequestOrderKey \<Rightarrow> pieceRequestOrderItem" where
  "existingItemForKey me key =
     \<lparr>item_key = key,
      item_state = (case keys me key of
                      Some st \<Rightarrow> st
                    | None \<Rightarrow> \<lparr>PieceRequestOrderState.Priority = 0,
                               PieceRequestOrderState.Partial = False,
                               PieceRequestOrderState.Availability = 0\<rparr>)\<rparr>"

definition Add ::
  "PieceRequestOrder \<Rightarrow> PieceRequestOrderKey \<Rightarrow> PieceRequestOrderState \<Rightarrow>
   panic + PieceRequestOrder" where
  "Add me key st =
     (if keys me key \<noteq> None then Inl KeyPresent
      else
        (case btree_ReplaceOrInsert \<lparr>item_key = key, item_state = st\<rparr> (tree me) of
           (Some old, tr) \<Rightarrow> Inl ShouldntAlreadyHaveThis
         | (None, tr) \<Rightarrow> Inr (me\<lparr>tree := tr, keys := (keys me)(key \<mapsto> st)\<rparr>)))"

definition Update ::
  "PieceRequestOrder \<Rightarrow> PieceRequestOrderKey \<Rightarrow> PieceRequestOrderState \<Rightarrow>
   panic + PieceRequestOrder" where
  "Update me key st =
     (case btree_Delete (existingItemForKey me key) (tree me) of
        (None, tr) \<Rightarrow> Inl KeyAbsent
      | (Some old, tr) \<Rightarrow>
          (case btree_ReplaceOrInsert \<lparr>item_key = key, item_state = st\<rparr> tr of
             (Some old', tr') \<Rightarrow> Inl KeyReplaced
           | (None, tr') \<Rightarrow> Inr (me\<lparr>tree := tr', keys := (keys me)(key \<mapsto> st)\<rparr>)))"

definition Delete ::
  "PieceRequestOrder \<Rightarrow> PieceRequestOrderKey \<Rightarrow> panic + PieceRequestOrder" where
  "Delete me key =
     (case btree_Delete (existingItemForKey me key) (tree me) of
        (None, tr) \<Rightarrow> Inl KeyAbsent
      | (Some old, tr) \<Rightarrow> Inr (me\<lparr>tree := tr, keys := (keys me)(key := None)\<rparr>))"

text \<open>
  The states the three operations keep: the tree is ascending and its items are the
  entries of \<^verbatim>\<open>keys\<close>.  \<open>NewPieceOrder\<close> is such a state.
\<close>

definition consistent :: "PieceRequestOrder \<Rightarrow> bool" where
  "consistent me \<longleftrightarrow>
     sorted_wrt item_Less (tree me) \<and>
     set (tree me) = {it. keys me (item_key it) = Some (item_state it)}"

subsection \<open>The peer of \<^verbatim>\<open>requesting.go\<close> and the request heap\<close>

text \<open>
  What \<^verbatim>\<open>requesting.go\<close> reads and writes of a \<^verbatim>\<open>Peer\<close> (the type itself is declared
  outside the files at hand): the choking flag, the allowed-fast pieces, the requests of
  \<^verbatim>\<open>actualRequestState\<close>, the cancelled requests, the torrent's \<^verbatim>\<open>pendingRequests\<close>
  counts, the value of \<^verbatim>\<open>nominalMaxRequests()\<close>, the update reason and the update timer
  (\<open>Some n\<close>: armed for \<open>n\<close> seconds).  \<open>emitted\<close> lists what the peer has been sent.
\<close>

datatype emission =
    EmitInterested bool
  | EmitCancel RequestIndex
  | EmitRequest RequestIndex

record Peer =
  peerChoking :: bool
  peerAllowedFast :: "32 word set"
  actualRequests :: "RequestIndex set"
  cancelledRequests :: "RequestIndex set"
  pendingRequests :: "RequestIndex \<Rightarrow> int"
  nominalMaxRequests :: int
  needRequestUpdate :: string
  updateRequestsTimer :: "nat option"
  emitted :: "emission list"

record peerRequests =
  requestIndexes :: "RequestIndex list"
  pr_peer :: Peer
  torrentStrategyInput :: Torrent

text \<open>The closure \<^verbatim>\<open>pending\<close> of \<^verbatim>\<open>peerRequests.Less\<close>.\<close>

definition pending :: "Peer \<Rightarrow> RequestIndex \<Rightarrow> bool \<Rightarrow> panic + int" where
  "pending pe index current =
     (let ret = pendingRequests pe index;
          ret = (if current then ret - 1 else ret)
      in if ret < 0 then Inl (NegativePending ret) else Inr ret)"

text \<open>
  \<^verbatim>\<open>peerRequests.Less\<close>.  The reads that can panic come in the order of the source: the
  two slice reads, the division by \<^verbatim>\<open>ChunksPerPiece\<close>, the two calls of \<^verbatim>\<open>pending\<close> (the
  arguments of \<^verbatim>\<open>ml.Int\<close> are evaluated whatever the computation holds), the reads of
  \<^verbatim>\<open>Pieces\<close>, and \<^verbatim>\<open>MustLess\<close>.  \<^verbatim>\<open>int(int64)\<close> is the signed value.
\<close>

definition peerRequests_Less :: "peerRequests \<Rightarrow> nat \<Rightarrow> nat \<Rightarrow> panic + bool" where
  "peerRequests_Less p i j =
     (if \<not> i < length (requestIndexes p) \<or> \<not> j < length (requestIndexes p)
      then Inl IndexOutOfRange
      else
        let leftRequest = requestIndexes p ! i;
            rightRequest = requestIndexes p ! j;
            pe = pr_peer p;
            tsi = torrentStrategyInput p
        in
        if ChunksPerPiece tsi = 0 then Inl DivideByZero
        else
          let leftPieceIndex = leftRequest div ChunksPerPiece tsi;
              rightPieceIndex = rightRequest div ChunksPerPiece tsi;
              leftCurrent = (leftRequest \<in> actualRequests pe);
              rightCurrent = (rightRequest \<in> actualRequests pe);
              ml = ml_New;
              ml = (if peerChoking pe
                    then ml_Bool ml (leftPieceIndex \<notin> peerAllowedFast pe)
                                    (rightPieceIndex \<notin> peerAllowedFast pe)
                    else ml)
          in
          (case pending pe leftRequest leftCurrent of
             Inl e \<Rightarrow> Inl e
           | Inr leftPending \<Rightarrow>
          (case pending pe rightRequest rightCurrent of
             Inl e \<Rightarrow> Inl e
           | Inr rightPending \<Rightarrow>
               let ml = ml_Int ml leftPending rightPending;
                   ml = ml_Bool ml (\<not> leftCurrent) (\<not> rightCurrent)
               in
               if \<not> unat leftPieceIndex < length (Pieces tsi) \<or>
                  \<not> unat rightPieceIndex < length (Pieces tsi)
               then Inl IndexOutOfRange
               else
                 let leftPiece = Pieces tsi ! unat leftPieceIndex;
                     rightPiece = Pieces tsi ! unat rightPieceIndex;
                     ml = ml_Int ml (- int (Piece.Priority leftPiece))
                                    (- int (Piece.Priority rightPiece));
                     ml = ml_Int ml (sint (Piece.Availability leftPiece))
                                    (sint (Piece.Availability rightPiece));
                     ml = ml_Uint32 ml leftPieceIndex rightPieceIndex;
                     ml = ml_Uint32 ml leftRequest rightRequest
                 in MustLess ml)))"

subsection \<open>Applying the request state\<close>

record desiredRequestState =
  Requests :: "RequestIndex list"
  Interested :: bool

text \<open>
  \<^verbatim>\<open>rand.Shuffle\<close> belongs to Go's library: from the last position down to position 1,
  position \<open>i\<close> is swapped with a position drawn from \<open>0..i\<close>.  The process-wide
  generator is the parameter \<open>rng\<close>: \<open>rng i mod (i + 1)\<close> is the position drawn for \<open>i\<close>.
\<close>

definition swap :: "nat \<Rightarrow> nat \<Rightarrow> 'a list \<Rightarrow> 'a list" where
  "swap i j xs = xs[i := xs ! j, j := xs ! i]"

fun fisherYates :: "(nat \<Rightarrow> nat) \<Rightarrow> nat \<Rightarrow> 'a list \<Rightarrow> 'a list" where
  "fisherYates rng 0 xs = xs"
| "fisherYates rng (Suc i) xs =
     fisherYates rng i (swap (Suc i) (rng (Suc i) mod (Suc i + 1)) xs)"

definition rand_Shuffle :: "(nat \<Rightarrow> nat) \<Rightarrow> 'a list \<Rightarrow> 'a list" where
  "rand_Shuffle rng xs = fisherYates rng (length xs - 1) xs"

text \<open>
  Modelled from the spec: \<^verbatim>\<open>setInterested\<close>, \<^verbatim>\<open>cancel\<close> and \<^verbatim>\<open>mustRequest\<close> are called by
  \<^verbatim>\<open>applyRequestState\<close> and are not in the files at hand.  The spec lists them as the
  outputs \<^verbatim>\<open>setInterested(bool) -> ok\<close>, \<^verbatim>\<open>cancel(RequestIndex) -> ok\<close> and
  \<^verbatim>\<open>request(RequestIndex) -> ok\<close>; the pass aborts when one returns false, and nothing
  is committed to the peer's actual set by an output that failed.  The pending count of
  a request index is the number of peers that hold it in their actual requests, updated
  on every request and cancel.  A request index that is already in the actual set is not
  emitted again (Scenario F).  Whether an output succeeds is the parameter \<open>io\<close>, asked
  with the outputs so far and the new one; \<open>emitted\<close> records every output.
\<close>

type_synonym writes = "emission list \<Rightarrow> emission \<Rightarrow> bool"

definition setInterested :: "writes \<Rightarrow> bool \<Rightarrow> Peer \<Rightarrow> bool \<times> Peer" where
  "setInterested io interested p =
     (io (emitted p) (EmitInterested interested),
      p\<lparr>emitted := emitted p @ [EmitInterested interested]\<rparr>)"

definition cancel :: "writes \<Rightarrow> RequestIndex \<Rightarrow> Peer \<Rightarrow> bool \<times> Peer" where
  "cancel io r p =
     (if io (emitted p) (EmitCancel r)
      then (True, p\<lparr>actualRequests := actualRequests p - {r},
                     pendingRequests := (pendingRequests p)(r := pendingRequests p r - 1),
                     emitted := emitted p @ [EmitCancel r]\<rparr>)
      else (False, p\<lparr>emitted := emitted p @ [EmitCancel r]\<rparr>))"

definition mustRequest :: "writes \<Rightarrow> RequestIndex \<Rightarrow> Peer \<Rightarrow> bool \<times> Peer" where
  "mustRequest io r p =
     (if r \<in> actualRequests p then (True, p)
      else if io (emitted p) (EmitRequest r)
      then (True, p\<lparr>actualRequests := insert r (actualRequests p),
                     pendingRequests := (pendingRequests p)(r := pendingRequests p r + 1),
                     emitted := emitted p @ [EmitRequest r]\<rparr>)
      else (False, p\<lparr>emitted := emitted p @ [EmitRequest r]\<rparr>))"

text \<open>
  \<^verbatim>\<open>cancel.Iterate\<close>: the bitmap \<^verbatim>\<open>cancel\<close> is walked in ascending order and the walk
  stops at the first \<^verbatim>\<open>p.cancel\<close> that returns false; the result is \<^verbatim>\<open>more\<close>.
\<close>

fun cancelIterate :: "writes \<Rightarrow> RequestIndex list \<Rightarrow> Peer \<Rightarrow> bool \<times> Peer" where
  "cancelIterate io [] p = (True, p)"
| "cancelIterate io (req # reqs) p =
     (case cancel io req p of
        (more', p') \<Rightarrow> if more' then cancelIterate io reqs p' else (False, p'))"

lemma length_swap: "length (swap i j xs) = length xs"
  by (simp add: swap_def)

lemma length_fisherYates: "length (fisherYates rng n xs) = length xs"
  by (induction n arbitrary: xs) (simp_all add: length_swap)

lemma length_rand_Shuffle: "length (rand_Shuffle rng xs) = length xs"
  by (simp add: rand_Shuffle_def length_fisherYates)

text \<open>
  The local \<^verbatim>\<open>otherPending\<close> (lines 307 to 310): the pending count of \<^verbatim>\<open>next.Requests[0]\<close>,
  less one when the peer itself holds that request.  The loop reads it only where the
  slice is not empty.
\<close>

definition otherPending :: "RequestIndex list \<Rightarrow> Peer \<Rightarrow> int" where
  "otherPending reqs p =
     (let n = pendingRequests p (reqs ! 0)
      in if reqs ! 0 \<in> actualRequests p then n - 1 else n)"

text \<open>
  The loop over \<^verbatim>\<open>next.Requests\<close> (lines 286 to 335), from index \<open>i\<close> on.  \<open>lastPending\<close>
  is the local of that name, which the source never assigns after its declaration.  The
  result is \<^verbatim>\<open>more\<close>, the slice as the loop leaves it, and the peer.  Each turn either
  advances \<open>i\<close> or sets \<open>shuffled\<close> and repeats the index once.
\<close>

function requestLoop ::
  "writes \<Rightarrow> (nat \<Rightarrow> nat) \<Rightarrow> int \<Rightarrow> nat \<Rightarrow> bool \<Rightarrow> RequestIndex list \<Rightarrow> Peer \<Rightarrow>
   panic + (bool \<times> RequestIndex list \<times> Peer)" where
  "requestLoop io rng lastPending i shuffled reqs p =
     (if \<not> i < length reqs then Inr (True, reqs, p)
      else
        let req = reqs ! i in
        if req \<in> cancelledRequests p
        then requestLoop io rng lastPending (i + 1) shuffled reqs p
        else if int (card (actualRequests p)) \<ge> nominalMaxRequests p
        then Inr (True, reqs, p)
        else
          if otherPending reqs p < lastPending then Inl (LastPending lastPending)
          else if \<not> shuffled \<and> otherPending reqs p > 0
          then requestLoop io rng lastPending i True
                 (take i reqs @ rand_Shuffle rng (drop i reqs)) p
          else
            (case mustRequest io req p of
               (more', p') \<Rightarrow>
                 if \<not> more' then Inr (False, reqs, p')
                 else requestLoop io rng lastPending (i + 1) shuffled reqs p'))"
  by pat_completeness auto

termination
  by (relation "measure (\<lambda>(io, rng, lastPending, i, shuffled, reqs, p).
                   2 * (length reqs - i) + (if shuffled then 0 else 1))")
     (auto simp: length_rand_Shuffle)

declare requestLoop.simps [simp del]

text \<open>\<^verbatim>\<open>applyRequestState\<close>: the result is \<^verbatim>\<open>more\<close> and the peer.\<close>

definition applyRequestState ::
  "writes \<Rightarrow> (nat \<Rightarrow> nat) \<Rightarrow> desiredRequestState \<Rightarrow> Peer \<Rightarrow> panic + (bool \<times> Peer)" where
  "applyRequestState io rng nxt p =
     (case setInterested io (Interested nxt) p of
        (ok, p1) \<Rightarrow>
          if \<not> ok then Inr (False, p1)
          else
            (case cancelIterate io
                    (sorted_list_of_set (actualRequests p1 - set (Requests nxt))) p1 of
               (more', p2) \<Rightarrow>
                 if \<not> more' then Inr (False, p2)
                 else
                   (case requestLoop io rng 0 0 False (Requests nxt) p2 of
                      Inl e \<Rightarrow> Inl e
                    | Inr (more', reqs, p3) \<Rightarrow>
                        let p4 = p3\<lparr>updateRequestsTimer := None\<rparr> in
                        if more'
                        then
                          let p5 = p4\<lparr>needRequestUpdate := []\<rparr> in
                          if actualRequests p5 \<noteq> {}
                          then Inr (more', p5\<lparr>updateRequestsTimer := Some 3\<rparr>)
                          else Inr (more', p5)
                        else Inr (more', p4))))"

subsection \<open>The per-piece peer allocator\<close>

text \<open>
  \<^verbatim>\<open>Peer\<close> of the package \<^verbatim>\<open>request_strategy\<close> is declared outside the files at hand; these
  are the fields and the method that \<^verbatim>\<open>order.go\<close> uses.  \<^verbatim>\<open>canRequestPiece\<close> is the method,
  taken as a predicate on piece indices; \<^verbatim>\<open>DownloadRate\<close> is a \<^verbatim>\<open>float64\<close>, here a real
  number (the order of the finite values); \<^verbatim>\<open>Id.Uintptr()\<close> is a natural number.
\<close>

record strategyPeer =
  canRequestPiece :: "pieceIndex \<Rightarrow> bool"
  MaxRequests :: int
  ExistingRequests :: "RequestIndex set"
  Choking :: bool
  PieceAllowedFast :: "32 word set"
  DownloadRate :: real
  Age :: "64 word"
  peer_Id :: nat

text \<open>
  \<^verbatim>\<open>requestsPeer\<close> embeds \<^verbatim>\<open>Peer\<close>; \<^verbatim>\<open>nextState\<close> has the fields \<^verbatim>\<open>Requests\<close> and
  \<^verbatim>\<open>Interested\<close>.
\<close>

record requestsPeer = strategyPeer +
  nextState_Requests :: "RequestIndex set"
  nextState_Interested :: bool
  requestablePiecesRemaining :: int

definition canFitRequest :: "requestsPeer \<Rightarrow> bool" where
  "canFitRequest rp \<longleftrightarrow> int (card (nextState_Requests rp)) < MaxRequests rp"

definition addNextRequest :: "requestsPeer \<Rightarrow> RequestIndex \<Rightarrow> panic + requestsPeer" where
  "addNextRequest rp r =
     (if r \<in> nextState_Requests rp then Inl ShouldOnlyAddOnce
      else Inr (rp\<lparr>nextState_Requests := insert r (nextState_Requests rp)\<rparr>))"

text \<open>
  The allocator works on pointers.  A \<^verbatim>\<open>*requestsPeer\<close> is an address into \<open>peerStore\<close>;
  a \<^verbatim>\<open>*peersForPieceRequests\<close> is a position in \<open>wrappers\<close>, the list of the wrappers in
  the order of their creation.  \<open>peersForPiece\<close> and the rows of \<open>preallocated\<close> are
  lists of such positions.
\<close>

type_synonym addr = nat

record peersForPieceRequests =
  requestsInPiece :: int
  pfp_peer :: addr

record requestablePiece =
  rp_index :: pieceIndex
  rp_t :: Torrent
  alwaysReallocate :: bool
  NumPendingChunks :: int
  IterPendingChunks :: "ChunkIndex list"

definition chunkIndexToRequestIndex :: "requestablePiece \<Rightarrow> ChunkIndex \<Rightarrow> RequestIndex" where
  "chunkIndexToRequestIndex p c = ChunksPerPiece (rp_t p) * word_of_int (rp_index p) + c"

record alloc =
  peerStore :: "addr \<Rightarrow> requestsPeer"
  wrappers :: "peersForPieceRequests list"
  peersForPiece :: "nat list"
  preallocated :: "nat list list"
  pendingChunksRemaining :: int

text \<open>The peer a wrapper points to, and \<^verbatim>\<open>peersForPieceRequests.addNextRequest\<close>.\<close>

definition peerOf :: "alloc \<Rightarrow> nat \<Rightarrow> addr" where
  "peerOf s w = pfp_peer (wrappers s ! w)"

definition pfp_addNextRequest :: "nat \<Rightarrow> RequestIndex \<Rightarrow> alloc \<Rightarrow> panic + alloc" where
  "pfp_addNextRequest w r s =
     (case addNextRequest (peerStore s (peerOf s w)) r of
        Inl e \<Rightarrow> Inl e
      | Inr rp \<Rightarrow>
          Inr (s\<lparr>peerStore := (peerStore s)(peerOf s w := rp),
                 wrappers := (wrappers s)
                   [w := (wrappers s ! w)\<lparr>requestsInPiece :=
                                              requestsInPiece (wrappers s ! w) + 1\<rparr>]\<rparr>))"

text \<open>
  \<^verbatim>\<open>peersForPieceSorter.Less\<close>, on two wrappers rather than on their positions in the
  slice.  \<open>req\<close> is the sorter's \<^verbatim>\<open>req\<close>, \<open>None\<close> for \<^verbatim>\<open>nil\<close>.
\<close>

definition peersForPieceSorter_Less ::
  "requestablePiece \<Rightarrow> RequestIndex option \<Rightarrow> alloc \<Rightarrow> nat \<Rightarrow> nat \<Rightarrow> panic + bool" where
  "peersForPieceSorter_Less p req s wi wj =
     (let i = peerStore s (peerOf s wi);
          j = peerStore s (peerOf s wj);
          byHasRequest =
            (case req of
               None \<Rightarrow> ml_New
             | Some r \<Rightarrow> ml_Bool ml_New (r \<in> nextState_Requests j) (r \<in> nextState_Requests i));
          ml = ml_New;
          ml = (if \<not> alwaysReallocate p
                then ml_Bool ml (requestablePiecesRemaining j = 1)
                                (requestablePiecesRemaining i = 1)
                else ml);
          ml = (if alwaysReallocate p \<or> requestablePiecesRemaining j = 1
                then ml_Int ml (requestsInPiece (wrappers s ! wi))
                               (requestsInPiece (wrappers s ! wj))
                else ml_AndThen ml byHasRequest);
          ml = ml_Float64
                 (ml_Int ml (requestablePiecesRemaining i) (requestablePiecesRemaining j))
                 (DownloadRate j) (DownloadRate i)
      in if ml_Ok ml then Inr (ml_Less ml)
         else MustLess
                (ml_Uintptr (ml_Int64 (ml_AndThen ml byHasRequest) (Age j) (Age i))
                   (peer_Id i) (peer_Id j)))"

text \<open>The closure \<^verbatim>\<open>sortPeersForPiece\<close>.\<close>

definition sortPeersForPiece ::
  "requestablePiece \<Rightarrow> RequestIndex option \<Rightarrow> alloc \<Rightarrow> panic + alloc" where
  "sortPeersForPiece p req s =
     (case sort_by (peersForPieceSorter_Less p req s) (peersForPiece s) of
        Inl e \<Rightarrow> Inl e
      | Inr ws \<Rightarrow> Inr (s\<lparr>peersForPiece := ws\<rparr>))"

text \<open>
  The first loop (lines 312 to 324): a peer that can request the piece but is at its
  cap loses one of its remaining pieces at once; one that can fit a request gets a
  wrapper.  \<^verbatim>\<open>makePeersForPiece\<close> only reuses the memory of an earlier slice.
\<close>

fun filterPeers :: "requestablePiece \<Rightarrow> addr list \<Rightarrow> alloc \<Rightarrow> alloc" where
  "filterPeers p [] s = s"
| "filterPeers p (a # as) s =
     (let peer = peerStore s a in
      if \<not> canRequestPiece peer (rp_index p) then filterPeers p as s
      else if \<not> canFitRequest peer
      then filterPeers p as
             (s\<lparr>peerStore := (peerStore s)
                   (a := peer\<lparr>requestablePiecesRemaining :=
                                  requestablePiecesRemaining peer - 1\<rparr>)\<rparr>)
      else filterPeers p as
             (s\<lparr>wrappers := wrappers s @ [\<lparr>requestsInPiece = 0, pfp_peer = a\<rparr>],
                peersForPiece := peersForPiece s @ [length (wrappers s)]\<rparr>))"

text \<open>
  The pre-allocation pass (lines 343 to 355): the inner loop over the candidates for
  one chunk, and the loop over the pending chunks.
\<close>

fun preallocPeers :: "ChunkIndex \<Rightarrow> RequestIndex \<Rightarrow> nat list \<Rightarrow> alloc \<Rightarrow> panic + alloc" where
  "preallocPeers spec req [] s = Inr s"
| "preallocPeers spec req (w # ws) s =
     (let peer = peerStore s (peerOf s w) in
      if req \<notin> ExistingRequests peer then preallocPeers spec req ws s
      else if \<not> canFitRequest peer then preallocPeers spec req ws s
      else if \<not> unat spec < length (preallocated s) then Inl IndexOutOfRange
      else
        (case pfp_addNextRequest w req
                (s\<lparr>preallocated := (preallocated s)
                      [unat spec := preallocated s ! unat spec @ [w]]\<rparr>) of
           Inl e \<Rightarrow> Inl e
         | Inr s' \<Rightarrow> preallocPeers spec req ws s'))"

fun preallocChunks :: "requestablePiece \<Rightarrow> ChunkIndex list \<Rightarrow> alloc \<Rightarrow> panic + alloc" where
  "preallocChunks p [] s = Inr s"
| "preallocChunks p (spec # specs) s =
     (case preallocPeers spec (chunkIndexToRequestIndex p spec) (peersForPiece s) s of
        Inl e \<Rightarrow> Inl e
      | Inr s' \<Rightarrow> preallocChunks p specs s')"

text \<open>
  The walk over the sorted candidates that both later passes make for a chunk (lines 364
  to 377 and 393 to 406).  The result says whether a candidate received the request.
\<close>

fun assignWalk ::
  "requestablePiece \<Rightarrow> RequestIndex \<Rightarrow> nat list \<Rightarrow> alloc \<Rightarrow> panic + (bool \<times> alloc)" where
  "assignWalk p req [] s = Inr (False, s)"
| "assignWalk p req (w # ws) s =
     (let peer = peerStore s (peerOf s w) in
      if \<not> canFitRequest peer then assignWalk p req ws s
      else if word_of_int (rp_index p) \<notin> PieceAllowedFast peer
      then
        let s1 = s\<lparr>peerStore := (peerStore s)
                      (peerOf s w := peer\<lparr>nextState_Interested := True\<rparr>)\<rparr> in
        if Choking peer then assignWalk p req ws s1
        else (case pfp_addNextRequest w req s1 of
                Inl e \<Rightarrow> Inl e
              | Inr s2 \<Rightarrow> Inr (True, s2))
      else (case pfp_addNextRequest w req s of
              Inl e \<Rightarrow> Inl e
            | Inr s2 \<Rightarrow> Inr (True, s2)))"

text \<open>The fresh assignment pass (lines 357 to 378).\<close>

definition freshChunk :: "requestablePiece \<Rightarrow> ChunkIndex \<Rightarrow> alloc \<Rightarrow> panic + alloc" where
  "freshChunk p chunk s =
     (if \<not> unat chunk < length (preallocated s) then Inl IndexOutOfRange
      else if length (preallocated s ! unat chunk) \<noteq> 0 then Inr s
      else
        (case sortPeersForPiece p None s of
           Inl e \<Rightarrow> Inl e
         | Inr s1 \<Rightarrow>
             (case assignWalk p (chunkIndexToRequestIndex p chunk) (peersForPiece s1) s1 of
                Inl e \<Rightarrow> Inl e
              | Inr (assigned, s2) \<Rightarrow>
                  Inr (s2\<lparr>pendingChunksRemaining := pendingChunksRemaining s2 - 1\<rparr>))))"

fun freshChunks :: "requestablePiece \<Rightarrow> ChunkIndex list \<Rightarrow> alloc \<Rightarrow> panic + alloc" where
  "freshChunks p [] s = Inr s"
| "freshChunks p (chunk # chunks) s =
     (case freshChunk p chunk s of
        Inl e \<Rightarrow> Inl e
      | Inr s' \<Rightarrow> freshChunks p chunks s')"

text \<open>The re-balance pass (lines 380 to 407), over the positions of \<^verbatim>\<open>preallocated\<close>.\<close>

definition decRequestsInPiece :: "alloc \<Rightarrow> nat \<Rightarrow> alloc" where
  "decRequestsInPiece s w =
     s\<lparr>wrappers := (wrappers s)
          [w := (wrappers s ! w)\<lparr>requestsInPiece := requestsInPiece (wrappers s ! w) - 1\<rparr>]\<rparr>"

definition removeNextRequest :: "RequestIndex \<Rightarrow> alloc \<Rightarrow> nat \<Rightarrow> alloc" where
  "removeNextRequest req s w =
     s\<lparr>peerStore := (peerStore s)
          (peerOf s w := (peerStore s (peerOf s w))
             \<lparr>nextState_Requests := nextState_Requests (peerStore s (peerOf s w)) - {req}\<rparr>)\<rparr>"

definition rebalanceChunk :: "requestablePiece \<Rightarrow> nat \<Rightarrow> alloc \<Rightarrow> panic + alloc" where
  "rebalanceChunk p chunk s =
     (let prePeers = preallocated s ! chunk in
      if length prePeers = 0 then Inr s
      else
        let s1 = s\<lparr>pendingChunksRemaining := pendingChunksRemaining s - 1\<rparr>;
            req = chunkIndexToRequestIndex p (word_of_nat chunk);
            s2 = foldl decRequestsInPiece s1 prePeers
        in
        (case sortPeersForPiece p (Some req) s2 of
           Inl e \<Rightarrow> Inl e
         | Inr s3 \<Rightarrow>
             let s4 = foldl (removeNextRequest req) s3 prePeers in
             (case assignWalk p req (peersForPiece s4) s4 of
                Inl e \<Rightarrow> Inl e
              | Inr (assigned, s5) \<Rightarrow> Inr s5)))"

fun rebalanceChunks :: "requestablePiece \<Rightarrow> nat list \<Rightarrow> alloc \<Rightarrow> panic + alloc" where
  "rebalanceChunks p [] s = Inr s"
| "rebalanceChunks p (chunk # chunks) s =
     (case rebalanceChunk p chunk s of
        Inl e \<Rightarrow> Inl e
      | Inr s' \<Rightarrow> rebalanceChunks p chunks s')"

text \<open>The deferred function (lines 325 to 330), run when the allocator returns.\<close>

definition decRemaining :: "alloc \<Rightarrow> nat \<Rightarrow> alloc" where
  "decRemaining s w =
     s\<lparr>peerStore := (peerStore s)
          (peerOf s w := (peerStore s (peerOf s w))
             \<lparr>requestablePiecesRemaining :=
                 requestablePiecesRemaining (peerStore s (peerOf s w)) - 1\<rparr>)\<rparr>"

text \<open>
  \<^verbatim>\<open>allocatePendingChunks\<close> up to its last check: the three passes, the counter set to
  \<^verbatim>\<open>NumPendingChunks\<close> between the first and the second.
\<close>

definition allocatePasses ::
  "requestablePiece \<Rightarrow> addr list \<Rightarrow> (addr \<Rightarrow> requestsPeer) \<Rightarrow> panic + alloc" where
  "allocatePasses p peers store =
     (let s0 = filterPeers p peers
                 \<lparr>peerStore = store, wrappers = [], peersForPiece = [],
                  preallocated = [], pendingChunksRemaining = 0\<rparr>;
          s1 = s0\<lparr>preallocated := replicate (unat (ChunksPerPiece (rp_t p))) []\<rparr>
      in
      (case preallocChunks p (IterPendingChunks p) s1 of
         Inl e \<Rightarrow> Inl e
       | Inr s2 \<Rightarrow>
           (case freshChunks p (IterPendingChunks p)
                   (s2\<lparr>pendingChunksRemaining := NumPendingChunks p\<rparr>) of
              Inl e \<Rightarrow> Inl e
            | Inr s3 \<Rightarrow> rebalanceChunks p [0 ..< length (preallocated s3)] s3)))"

text \<open>
  \<^verbatim>\<open>allocatePendingChunks\<close>: the last check, then the deferred function.  The result is
  the peers as the call leaves them.
\<close>

definition allocatePendingChunks ::
  "requestablePiece \<Rightarrow> addr list \<Rightarrow> (addr \<Rightarrow> requestsPeer) \<Rightarrow>
   panic + (addr \<Rightarrow> requestsPeer)" where
  "allocatePendingChunks p peers store =
     (case allocatePasses p peers store of
        Inl e \<Rightarrow> Inl e
      | Inr s \<Rightarrow>
          if pendingChunksRemaining s \<noteq> 0
          then Inl (PendingChunksRemaining (pendingChunksRemaining s))
          else Inr (peerStore (foldl decRemaining s (peersForPiece s))))"

text \<open>Successive allocations of the pieces of a pass, on the same peers.\<close>

fun allocatePieces ::
  "requestablePiece list \<Rightarrow> addr list \<Rightarrow> (addr \<Rightarrow> requestsPeer) \<Rightarrow>
   panic + (addr \<Rightarrow> requestsPeer)" where
  "allocatePieces [] peers store = Inr store"
| "allocatePieces (p # ps) peers store =
     (case allocatePendingChunks p peers store of
        Inl e \<Rightarrow> Inl e
      | Inr store' \<Rightarrow> allocatePieces ps peers store')"

subsection \<open>The piece order as the spec words it\<close>

text \<open>
  The five rules of the spec's piece-order comparator, leftmost first: priority
  descending, partial first, availability ascending (a signed 64-bit value), piece
  index ascending, info hash ascending bytewise.
\<close>

definition specPieceOrder :: "filterPiece \<Rightarrow> filterPiece \<Rightarrow> bool" where
  "specPieceOrder i j \<longleftrightarrow>
     Priority (fp_Piece j) < Priority (fp_Piece i) \<or>
     Priority (fp_Piece i) = Priority (fp_Piece j) \<and>
     (Partial (fp_Piece i) \<and> \<not> Partial (fp_Piece j) \<or>
      Partial (fp_Piece i) = Partial (fp_Piece j) \<and>
      (Availability (fp_Piece i) <s Availability (fp_Piece j) \<or>
       Availability (fp_Piece i) = Availability (fp_Piece j) \<and>
       (fp_index i < fp_index j \<or>
        fp_index i = fp_index j \<and>
        (InfoHash (fp_t i), InfoHash (fp_t j)) \<in> lexord {(x, y). x < y})))"

text \<open>
  Scenario A of the spec: piece 0 of \<open>T1\<close> is Normal, partial, availability 5; piece 1
  of \<open>T1\<close> is Normal, not partial, availability 1; piece 0 of \<open>T2\<close> is High, not partial,
  availability 10.  The other fields of the pieces are those of \<open>p\<close>.
\<close>

definition scenarioA_T1_0 :: "Torrent \<Rightarrow> piecePriority \<Rightarrow> Piece \<Rightarrow> filterPiece" where
  "scenarioA_T1_0 T1 normal p =
     \<lparr>fp_t = T1, fp_index = 0,
      fp_Piece = p\<lparr>Priority := normal, Partial := True, Availability := 5\<rparr>\<rparr>"

definition scenarioA_T1_1 :: "Torrent \<Rightarrow> piecePriority \<Rightarrow> Piece \<Rightarrow> filterPiece" where
  "scenarioA_T1_1 T1 normal p =
     \<lparr>fp_t = T1, fp_index = 1,
      fp_Piece = p\<lparr>Priority := normal, Partial := False, Availability := 1\<rparr>\<rparr>"

definition scenarioA_T2_0 :: "Torrent \<Rightarrow> piecePriority \<Rightarrow> Piece \<Rightarrow> filterPiece" where
  "scenarioA_T2_0 T2 high p =
     \<lparr>fp_t = T2, fp_index = 0,
      fp_Piece = p\<lparr>Priority := high, Partial := False, Availability := 10\<rparr>\<rparr>"

text \<open>An input on which a piece that is not requested uses up storage.\<close>

definition starvedInput :: Input where
  "starvedInput =
     \<lparr>Torrents =
        [\<lparr>Pieces =
            [\<lparr>Request = False, Priority = 1, Partial = False, Availability = 1,
              Length = 60, NumPendingChunks = 4, IterPendingChunks = [0, 1, 2, 3]\<rparr>,
             \<lparr>Request = True, Priority = 1, Partial = False, Availability = 2,
              Length = 50, NumPendingChunks = 4, IterPendingChunks = [0, 1, 2, 3]\<rparr>],
          InfoHash = [1], ChunksPerPiece = 4, MaxUnverifiedBytes = 0\<rparr>],
      Capacity = Some 100, MaxUnverifiedBytes = 0\<rparr>"

subsection \<open>Auxiliary notions for the piece request order\<close>

text \<open>
  The five compared fields of an item and the lexicographic order on them that the
  spec words; \<open>poiOne\<close> is the index after adding \<open>poiKey\<close> with \<open>poiState\<close>.
\<close>

definition itemOrderKey ::
  "pieceRequestOrderItem \<Rightarrow> nat \<times> bool \<times> 64 word \<times> int \<times> Hash" where
  "itemOrderKey i =
     (PieceRequestOrderState.Priority (item_state i),
      PieceRequestOrderState.Partial (item_state i),
      PieceRequestOrderState.Availability (item_state i),
      Index (item_key i),
      PieceRequestOrderKey.InfoHash (item_key i))"

definition itemOrderRel :: "((nat \<times> bool \<times> 64 word \<times> int \<times> Hash) \<times> (nat \<times> bool \<times> 64 word \<times> int \<times> Hash)) set" where
  "itemOrderRel =
     {(x, y). y < x} <*lex*> {(x, y). x \<and> \<not> y} <*lex*> {(x, y). x <s y} <*lex*>
     {(x, y). x < y} <*lex*> lexord {(x, y). x < y}"

definition poiKey :: PieceRequestOrderKey where
  "poiKey = \<lparr>PieceRequestOrderKey.InfoHash = [1, 2], Index = 3\<rparr>"

definition poiState :: PieceRequestOrderState where
  "poiState = \<lparr>PieceRequestOrderState.Priority = 1, PieceRequestOrderState.Partial = True, PieceRequestOrderState.Availability = 5\<rparr>"

definition poiState' :: PieceRequestOrderState where
  "poiState' = \<lparr>PieceRequestOrderState.Priority = 2, PieceRequestOrderState.Partial = False, PieceRequestOrderState.Availability = 4\<rparr>"

definition poiOne :: PieceRequestOrder where
  "poiOne = \<lparr>tree = [\<lparr>item_key = poiKey, item_state = poiState\<rparr>], keys = [poiKey \<mapsto> poiState]\<rparr>"

subsection \<open>Auxiliary notions for the request heap\<close>

text \<open>
  \<open>lessReads p i j\<close>: none of the reads of \<^verbatim>\<open>peerRequests.Less\<close> panics at \<open>i\<close> and \<open>j\<close>
  (both positions are in the slice, \<^verbatim>\<open>ChunksPerPiece\<close> is not zero, neither pending count
  is negative, both pieces are pieces of the torrent).
\<close>

definition lessReads :: "peerRequests \<Rightarrow> nat \<Rightarrow> nat \<Rightarrow> bool" where
  "lessReads p i j \<longleftrightarrow>
     i < length (requestIndexes p) \<and> j < length (requestIndexes p) \<and>
     ChunksPerPiece (torrentStrategyInput p) \<noteq> 0 \<and>
     0 \<le> pendingRequests (pr_peer p) (requestIndexes p ! i) -
           (if requestIndexes p ! i \<in> actualRequests (pr_peer p) then 1 else 0) \<and>
     0 \<le> pendingRequests (pr_peer p) (requestIndexes p ! j) -
           (if requestIndexes p ! j \<in> actualRequests (pr_peer p) then 1 else 0) \<and>
     unat (requestIndexes p ! i div ChunksPerPiece (torrentStrategyInput p))
       < length (Pieces (torrentStrategyInput p)) \<and>
     unat (requestIndexes p ! j div ChunksPerPiece (torrentStrategyInput p))
       < length (Pieces (torrentStrategyInput p))"

text \<open>
  Scenario D of the spec: the peer chokes, piece 7 is allowed fast and piece 8 is not.
  Request 32 (piece 8) is in flight with no other peer holding it and its piece has
  the higher priority and the lower availability; request 31 (piece 7) has none of this.
\<close>

definition scenarioD :: peerRequests where
  "scenarioD =
     \<lparr>requestIndexes = [32, 31],
      pr_peer = \<lparr>peerChoking = True, peerAllowedFast = {7}, actualRequests = {32},
                 cancelledRequests = {}, pendingRequests = (\<lambda>r. if r = 32 then 1 else 5),
                 nominalMaxRequests = 8, needRequestUpdate = ''x'',
                 updateRequestsTimer = None, emitted = []\<rparr>,
      torrentStrategyInput =
        \<lparr>Pieces = replicate 8 \<lparr>Request = True, Priority = 1, Partial = False, Availability = 9,
                                  Length = 64, NumPendingChunks = 4,
                                  IterPendingChunks = [0, 1, 2, 3]\<rparr> @
                  [\<lparr>Request = True, Priority = 5, Partial = True, Availability = 1,
                    Length = 64, NumPendingChunks = 4, IterPendingChunks = [0, 1, 2, 3]\<rparr>],
         InfoHash = [1], ChunksPerPiece = 4, MaxUnverifiedBytes = 0\<rparr>\<rparr>"

subsection \<open>The outputs of a pass as the spec words them\<close>

text \<open>
  Step 2 of the spec's algorithm: \<^verbatim>\<open>cancel(r)\<close> is emitted for the requests to cancel in
  turn, and the pass aborts on the first failure.  The result is whether no output
  failed, and the cancels emitted.
\<close>

fun specCancels :: "writes \<Rightarrow> RequestIndex list \<Rightarrow> emission list \<Rightarrow> bool \<times> RequestIndex list" where
  "specCancels io [] tr = (True, [])"
| "specCancels io (c # cs) tr =
     (if io tr (EmitCancel c)
      then (case specCancels io cs (tr @ [EmitCancel c]) of (m, out) \<Rightarrow> (m, c # out))
      else (False, [c]))"

text \<open>
  Step 3 of the spec's algorithm, on the slice as the loop leaves it: a request index in
  the peer's cancelled set is skipped; the walk breaks when the actual set is at the
  maximum; otherwise \<^verbatim>\<open>request(r)\<close> is emitted, which aborts the pass when it fails and
  adds \<open>r\<close> to the actual set when it succeeds.  A request index already in the actual
  set is passed over without an output, as Scenario F has it.
\<close>

fun specRequests ::
  "writes \<Rightarrow> int \<Rightarrow> RequestIndex set \<Rightarrow> RequestIndex list \<Rightarrow> RequestIndex set \<Rightarrow> emission list \<Rightarrow>
   bool \<times> RequestIndex list" where
  "specRequests io cap canc [] act tr = (True, [])"
| "specRequests io cap canc (r # rs) act tr =
     (if r \<in> canc then specRequests io cap canc rs act tr
      else if cap \<le> int (card act) then (True, [])
      else if r \<in> act then specRequests io cap canc rs act tr
      else if io tr (EmitRequest r)
      then (case specRequests io cap canc rs (insert r act) (tr @ [EmitRequest r]) of
              (m, out) \<Rightarrow> (m, r # out))
      else (False, [r]))"

text \<open>
  Steps 1 to 3 together: \<^verbatim>\<open>setInterested\<close>, which aborts the pass when it fails, the
  cancels of actual minus desired in ascending order, then the requests.  The result is
  \<^verbatim>\<open>more\<close>, the cancels and the requests emitted.
\<close>

definition specPass ::
  "writes \<Rightarrow> RequestIndex list \<Rightarrow> bool \<Rightarrow> Peer \<Rightarrow> bool \<times> RequestIndex list \<times> RequestIndex list" where
  "specPass io reqs interested p =
     (if \<not> io (emitted p) (EmitInterested interested) then (False, [], [])
      else
        (case specCancels io (sorted_list_of_set (actualRequests p - set reqs))
                (emitted p @ [EmitInterested interested]) of
           (mc, cs) \<Rightarrow>
             if \<not> mc then (False, cs, [])
             else
               (case specRequests io (nominalMaxRequests p) (cancelledRequests p) reqs
                       (actualRequests p \<inter> set reqs)
                       (emitted p @ EmitInterested interested # map EmitCancel cs) of
                  (m, rs) \<Rightarrow> (m, cs, rs))))"

subsection \<open>Auxiliary notions for applying the request state\<close>

text \<open>
  Scenario E of the spec (five desired requests, each held by one other peer, none by
  the peer itself) and Scenario F (the peer holds 10, 11 and 12 and desires 12, 13 and
  14); what a run of the request loop leaves behind (\<open>loopTrace\<close>); and the pending
  counts that agree with the peer's own requests (\<open>pendingOK\<close>).
\<close>

definition scenarioE_peer :: Peer where
  "scenarioE_peer =
     \<lparr>peerChoking = False, peerAllowedFast = {}, actualRequests = {},
      cancelledRequests = {}, pendingRequests = (\<lambda>r. 1),
      nominalMaxRequests = 8, needRequestUpdate = ''x'',
      updateRequestsTimer = None, emitted = []\<rparr>"

definition scenarioE_desired :: desiredRequestState where
  "scenarioE_desired = \<lparr>Requests = [10, 11, 12, 13, 14], Interested = True\<rparr>"

definition loopTrace ::
  "(nat \<Rightarrow> nat) \<Rightarrow> nat \<Rightarrow> bool \<Rightarrow> RequestIndex list \<Rightarrow> Peer \<Rightarrow>
   RequestIndex list \<Rightarrow> Peer \<Rightarrow> RequestIndex list \<Rightarrow> bool" where
  "loopTrace rng i sh reqs p reqs' p' rs \<longleftrightarrow>
     emitted p' = emitted p @ map EmitRequest rs \<and>
     subseq rs (drop i reqs') \<and> distinct rs \<and>
     set rs \<inter> actualRequests p = {} \<and> set rs \<inter> cancelledRequests p = {} \<and>
     length reqs' = length reqs \<and> take i reqs' = take i reqs \<and>
     (reqs' = reqs \<or>
      \<not> sh \<and> (\<exists>k. reqs' = take k reqs @ rand_Shuffle rng (drop k reqs)))"

definition pendingOK :: "Peer \<Rightarrow> bool" where
  "pendingOK p \<longleftrightarrow>
     (\<forall>r. 0 \<le> pendingRequests p r) \<and> (\<forall>r \<in> actualRequests p. 1 \<le> pendingRequests p r)"

definition scenarioF_peer :: Peer where
  "scenarioF_peer =
     \<lparr>peerChoking = False, peerAllowedFast = {}, actualRequests = {10, 11, 12},
      cancelledRequests = {},
      pendingRequests = (\<lambda>r. if r = 10 \<or> r = 11 \<or> r = 12 then 1 else 0),
      nominalMaxRequests = 8, needRequestUpdate = ''x'',
      updateRequestsTimer = None, emitted = []\<rparr>"

definition scenarioF_desired :: desiredRequestState where
  "scenarioF_desired = \<lparr>Requests = [12, 13, 14], Interested = True\<rparr>"

subsection \<open>Auxiliary notions for the allocator\<close>

definition sameShape :: "alloc \<Rightarrow> alloc \<Rightarrow> bool" where
  "sameShape s s' \<longleftrightarrow>
     peerOf s' = peerOf s \<and> length (wrappers s') = length (wrappers s) \<and>
     preallocated s' = preallocated s \<and> mset (peersForPiece s') = mset (peersForPiece s)"

definition closedQ :: "(requestsPeer \<Rightarrow> bool) \<Rightarrow> bool" where
  "closedQ Q \<longleftrightarrow>
     (\<forall>rp r. Q rp \<longrightarrow> canFitRequest rp \<longrightarrow>
        Q (rp\<lparr>nextState_Requests := insert r (nextState_Requests rp)\<rparr>)) \<and>
     (\<forall>rp. Q rp \<longrightarrow> Q (rp\<lparr>nextState_Interested := True\<rparr>)) \<and>
     (\<forall>rp r. Q rp \<longrightarrow> Q (rp\<lparr>nextState_Requests := nextState_Requests rp - {r}\<rparr>))"

definition sameCandidates :: "alloc \<Rightarrow> alloc \<Rightarrow> bool" where
  "sameCandidates s s' \<longleftrightarrow>
     peerOf s' = peerOf s \<and> length (wrappers s') = length (wrappers s) \<and>
     peersForPiece s' = peersForPiece s \<and>
     length (preallocated s') = length (preallocated s) \<and>
     pendingChunksRemaining s' = pendingChunksRemaining s"

definition closedRemaining :: "(requestsPeer \<Rightarrow> bool) \<Rightarrow> bool" where
  "closedRemaining Q \<longleftrightarrow>
     (\<forall>rp. Q rp \<longrightarrow>
        Q (rp\<lparr>requestablePiecesRemaining := requestablePiecesRemaining rp - 1\<rparr>))"

definition withinCap :: "requestsPeer \<Rightarrow> bool" where
  "withinCap rp \<longleftrightarrow> int (card (nextState_Requests rp)) \<le> MaxRequests rp"

definition candidates :: "requestablePiece \<Rightarrow> (addr \<Rightarrow> requestsPeer) \<Rightarrow> addr list \<Rightarrow> addr list" where
  "candidates p st as =
     filter (\<lambda>a. canRequestPiece (st a) (rp_index p) \<and> canFitRequest (st a)) as"

definition passPanic :: "panic \<Rightarrow> bool" where
  "passPanic e \<longleftrightarrow> e = NotDifferentiated \<or> e = ShouldOnlyAddOnce \<or> e = IndexOutOfRange"

definition nextOf :: "alloc \<Rightarrow> addr \<Rightarrow> RequestIndex set" where
  "nextOf s a = nextState_Requests (peerStore s a)"

definition eligible :: "requestablePiece \<Rightarrow> alloc \<Rightarrow> nat \<Rightarrow> bool" where
  "eligible p s w \<longleftrightarrow>
     canFitRequest (peerStore s (peerOf s w)) \<and>
     (word_of_int (rp_index p) \<in> PieceAllowedFast (peerStore s (peerOf s w)) \<or>
      \<not> Choking (peerStore s (peerOf s w)))"

definition rowPeers :: "alloc \<Rightarrow> nat \<Rightarrow> addr set" where
  "rowPeers s k = peerOf s ` set (preallocated s ! k)"

definition heldByRow :: "addr set \<Rightarrow> requestablePiece \<Rightarrow> alloc \<Rightarrow> ChunkIndex \<Rightarrow> bool" where
  "heldByRow A p s c \<longleftrightarrow>
     (\<forall>a \<in> A. chunkIndexToRequestIndex p c \<in> nextOf s a \<longrightarrow>
        unat c < length (preallocated s) \<and> a \<in> rowPeers s (unat c))"

definition atMostOne :: "addr set \<Rightarrow> (addr \<Rightarrow> RequestIndex set) \<Rightarrow> RequestIndex \<Rightarrow> bool" where
  "atMostOne A nx r \<longleftrightarrow> (\<forall>a \<in> A. \<forall>b \<in> A. r \<in> nx a \<longrightarrow> r \<in> nx b \<longrightarrow> a = b)"

definition settled ::
  "addr set \<Rightarrow> requestablePiece \<Rightarrow> ChunkIndex set \<Rightarrow> ChunkIndex set \<Rightarrow> alloc \<Rightarrow> bool" where
  "settled A p C D s \<longleftrightarrow>
     (\<forall>c \<in> C. if c \<in> D then atMostOne A (nextOf s) (chunkIndexToRequestIndex p c)
              else heldByRow A p s c)"

definition staleTorrent :: Torrent where
  "staleTorrent = \<lparr>Pieces = [], InfoHash = [1], ChunksPerPiece = 2, MaxUnverifiedBytes = 0\<rparr>"

definition stalePiece :: requestablePiece where
  "stalePiece = \<lparr>rp_index = 0, rp_t = staleTorrent, alwaysReallocate = False,
                  NumPendingChunks = 2, IterPendingChunks = [0, 1]\<rparr>"

definition stalePeer :: "nat \<Rightarrow> requestsPeer" where
  "stalePeer a =
     \<lparr>canRequestPiece = (\<lambda>i. True), MaxRequests = 1, ExistingRequests = {1},
      Choking = False, PieceAllowedFast = {}, DownloadRate = 0, Age = 0, peer_Id = a,
      nextState_Requests = {}, nextState_Interested = False,
      requestablePiecesRemaining = 5\<rparr>"

text \<open>
  The allocator's state when the first loop is over and \<^verbatim>\<open>preallocated\<close> is made.
\<close>

definition startState :: "requestablePiece \<Rightarrow> addr list \<Rightarrow> (addr \<Rightarrow> requestsPeer) \<Rightarrow> alloc" where
  "startState p peers store =
     (filterPeers p peers
        \<lparr>peerStore = store, wrappers = [], peersForPiece = [],
         preallocated = [], pendingChunksRemaining = 0\<rparr>)
     \<lparr>preallocated := replicate (unat (ChunksPerPiece (rp_t p))) []\<rparr>"

text \<open>
  The state in which the allocator walks the sorted candidates for the pending chunk
  \<open>c\<close>.  When the pre-allocation pass has given \<open>c\<close> to nobody, that is in the fresh pass,
  after the chunks before \<open>c\<close> and the sort.  Otherwise it is in the re-balance pass,
  after the rows before that of \<open>c\<close>, the sort, and the removal of the request from the
  peers it was pre-allocated to.
\<close>

definition walkState ::
  "requestablePiece \<Rightarrow> addr list \<Rightarrow> (addr \<Rightarrow> requestsPeer) \<Rightarrow> ChunkIndex \<Rightarrow> panic + alloc" where
  "walkState p peers store c =
     (case preallocChunks p (IterPendingChunks p) (startState p peers store) of
        Inl e \<Rightarrow> Inl e
      | Inr s2 \<Rightarrow>
          if preallocated s2 ! unat c = []
          then
            (case freshChunks p (takeWhile (\<lambda>x. x \<noteq> c) (IterPendingChunks p))
                    (s2\<lparr>pendingChunksRemaining := NumPendingChunks p\<rparr>) of
               Inl e \<Rightarrow> Inl e
             | Inr s \<Rightarrow> sortPeersForPiece p None s)
          else
            (case freshChunks p (IterPendingChunks p)
                    (s2\<lparr>pendingChunksRemaining := NumPendingChunks p\<rparr>) of
               Inl e \<Rightarrow> Inl e
             | Inr s3 \<Rightarrow>
                 (case rebalanceChunks p [0 ..< unat c] s3 of
                    Inl e \<Rightarrow> Inl e
                  | Inr t \<Rightarrow>
                      (case sortPeersForPiece p (Some (chunkIndexToRequestIndex p c))
                              (foldl decRequestsInPiece
                                 (t\<lparr>pendingChunksRemaining := pendingChunksRemaining t - 1\<rparr>)
                                 (preallocated t ! unat c)) of
                         Inl e \<Rightarrow> Inl e
                       | Inr s1 \<Rightarrow>
                           Inr (foldl (removeNextRequest (chunkIndexToRequestIndex p c)) s1
                                  (preallocated t ! unat c))))))"

text \<open>
  The peer that a walk in state \<open>s\<close> gives the request to: that of the first wrapper, in
  the order of \<open>peersForPiece\<close>, that can fit a request and is not blocked by choking.
\<close>

definition chosenAt :: "requestablePiece \<Rightarrow> alloc \<Rightarrow> addr \<Rightarrow> bool" where
  "chosenAt p s a \<longleftrightarrow>
     (\<exists>w. find (eligible p s) (peersForPiece s) = Some w \<and> peerOf s w = a)"

text \<open>
  What holds of every state of a call after its first loop: the wrappers are those of the
  candidates, the peers keep \<^verbatim>\<open>Choking\<close>, \<^verbatim>\<open>PieceAllowedFast\<close> and \<^verbatim>\<open>MaxRequests\<close>, and the
  next requests have grown by requests of the piece's pending chunks only.
\<close>

definition reached ::
  "requestablePiece \<Rightarrow> addr list \<Rightarrow> (addr \<Rightarrow> requestsPeer) \<Rightarrow> alloc \<Rightarrow> bool" where
  "reached p peers store s \<longleftrightarrow>
     peerOf s ` set (peersForPiece s) = set (candidates p store peers) \<and>
     (\<forall>a. Choking (peerStore s a) = Choking (store a) \<and>
          PieceAllowedFast (peerStore s a) = PieceAllowedFast (store a) \<and>
          MaxRequests (peerStore s a) = MaxRequests (store a)) \<and>
     (\<forall>a r. r \<in> nextOf s a \<longrightarrow>
        r \<in> nextState_Requests (store a) \<or>
        r \<in> chunkIndexToRequestIndex p ` set (IterPendingChunks p))"

definition sameFields :: "requestsPeer \<Rightarrow> requestsPeer \<Rightarrow> bool" where
  "sameFields rp rp' \<longleftrightarrow>
     Choking rp' = Choking rp \<and> PieceAllowedFast rp' = PieceAllowedFast rp \<and>
     MaxRequests rp' = MaxRequests rp"

text \<open>The peers of the example above with room for three requests.\<close>

definition roomyPeer :: "nat \<Rightarrow> requestsPeer" where
  "roomyPeer a = (stalePeer a)\<lparr>MaxRequests := 3\<rparr>"

section \<open>Properties\<close>

subsection \<open>Comparators\<close>

lemmas ml_defs =
  ml_New_def EagerSameLess_def ml_Bool_def ml_Int_def ml_Int64_def ml_Uint32_def
  ml_Uintptr_def ml_Float64_def ml_Cmp_def ml_Lazy_def ml_AndThen_def ml_Less_def
  ml_Ok_def MustLess_def

lemma bytes_Compare_eq_0: "bytes_Compare a b = 0 \<longleftrightarrow> a = b"
  by (induction a b rule: bytes_Compare.induct) auto

lemma bytes_Compare_neg:
  "bytes_Compare a b < 0 \<longleftrightarrow> (a, b) \<in> lexord {(x, y). x < y}"
  by (induction a b rule: bytes_Compare.induct) auto

text \<open>
  C4.  The comparator of the one-shot sort decides two pieces by priority descending,
  then partial first, then availability ascending, then piece index ascending, then
  info hash ascending bytewise (it panics, in \<^verbatim>\<open>MustLess\<close>, on two pieces equal in all
  five); on the three pieces of Scenario A, given in the order (T1,0), (T1,1), (T2,0),
  the sort returns (T2,0), (T1,0), (T1,1), whatever the info hashes are.
\<close>

theorem piece_comparator_order:
  "filterPieceLess i j =
     (if Priority (fp_Piece i) = Priority (fp_Piece j) \<and>
         Partial (fp_Piece i) = Partial (fp_Piece j) \<and>
         Availability (fp_Piece i) = Availability (fp_Piece j) \<and>
         fp_index i = fp_index j \<and> InfoHash (fp_t i) = InfoHash (fp_t j)
      then Inl NotDifferentiated
      else Inr (specPieceOrder i j)) \<and>
   (normal < high \<longrightarrow>
      getSortedFilterPieces []
        [scenarioA_T1_0 T1 normal p, scenarioA_T1_1 T1 normal p, scenarioA_T2_0 T2 high p] =
      Inr ([scenarioA_T2_0 T2 high p, scenarioA_T1_0 T1 normal p, scenarioA_T1_1 T1 normal p],
           [([scenarioA_T1_0 T1 normal p, scenarioA_T1_1 T1 normal p,
              scenarioA_T2_0 T2 high p], [2, 0, 1])]))"
proof (intro conjI impI)
  show "filterPieceLess i j =
     (if Priority (fp_Piece i) = Priority (fp_Piece j) \<and>
         Partial (fp_Piece i) = Partial (fp_Piece j) \<and>
         Availability (fp_Piece i) = Availability (fp_Piece j) \<and>
         fp_index i = fp_index j \<and> InfoHash (fp_t i) = InfoHash (fp_t j)
      then Inl NotDifferentiated
      else Inr (specPieceOrder i j))"
    unfolding filterPieceLess_def specPieceOrder_def
    by (auto simp: ml_defs bytes_Compare_eq_0 bytes_Compare_neg)
next
  assume "normal < high"
  then show "getSortedFilterPieces []
        [scenarioA_T1_0 T1 normal p, scenarioA_T1_1 T1 normal p, scenarioA_T2_0 T2 high p] =
      Inr ([scenarioA_T2_0 T2 high p, scenarioA_T1_0 T1 normal p, scenarioA_T1_1 T1 normal p],
           [([scenarioA_T1_0 T1 normal p, scenarioA_T1_1 T1 normal p,
              scenarioA_T2_0 T2 high p], [2, 0, 1])])"
    by (simp add: getSortedFilterPieces_def sortFilterPieces_def reorderedFilterPieces_def
        upt_rec filterPieceLess_def ml_defs scenarioA_T1_0_def scenarioA_T1_1_def
        scenarioA_T2_0_def)
qed

theorem piece_comparator_order_witness:
  "filterPieceLess (scenarioA_T2_0 \<lparr>Pieces = [], InfoHash = [2], ChunksPerPiece = 4,
                                    MaxUnverifiedBytes = 0\<rparr> 2
                      \<lparr>Request = True, Priority = 0, Partial = False, Availability = 0,
                       Length = 16, NumPendingChunks = 1, IterPendingChunks = [0]\<rparr>)
                   (scenarioA_T1_0 \<lparr>Pieces = [], InfoHash = [1], ChunksPerPiece = 4,
                                    MaxUnverifiedBytes = 0\<rparr> 1
                      \<lparr>Request = True, Priority = 0, Partial = False, Availability = 0,
                       Length = 16, NumPendingChunks = 1, IterPendingChunks = [0]\<rparr>) =
     Inr True \<and>
   (1 :: nat) < 2 \<and>
   (\<exists>sorts. getSortedFilterPieces []
        [scenarioA_T1_0 \<lparr>Pieces = [], InfoHash = [1], ChunksPerPiece = 4,
                         MaxUnverifiedBytes = 0\<rparr> 1
           \<lparr>Request = True, Priority = 0, Partial = False, Availability = 0,
            Length = 16, NumPendingChunks = 1, IterPendingChunks = [0]\<rparr>,
         scenarioA_T1_1 \<lparr>Pieces = [], InfoHash = [1], ChunksPerPiece = 4,
                         MaxUnverifiedBytes = 0\<rparr> 1
           \<lparr>Request = True, Priority = 0, Partial = False, Availability = 0,
            Length = 16, NumPendingChunks = 1, IterPendingChunks = [0]\<rparr>,
         scenarioA_T2_0 \<lparr>Pieces = [], InfoHash = [2], ChunksPerPiece = 4,
                         MaxUnverifiedBytes = 0\<rparr> 2
           \<lparr>Request = True, Priority = 0, Partial = False, Availability = 0,
            Length = 16, NumPendingChunks = 1, IterPendingChunks = [0]\<rparr>] =
      Inr (map (\<lambda>(h, n, i, a).
                  \<lparr>fp_t = \<lparr>Pieces = [], InfoHash = [h], ChunksPerPiece = 4,
                            MaxUnverifiedBytes = 0\<rparr>,
                   fp_index = i,
                   fp_Piece = \<lparr>Request = True, Priority = n, Partial = (a = 5),
                               Availability = a, Length = 16, NumPendingChunks = 1,
                               IterPendingChunks = [0]\<rparr>\<rparr>)
             [(2, 2, 0, 10), (1, 1, 0, 5), (1, 1, 1, 1)], sorts))"
  using piece_comparator_order
    [of "scenarioA_T2_0 \<lparr>Pieces = [], InfoHash = [2], ChunksPerPiece = 4,
                          MaxUnverifiedBytes = 0\<rparr> 2
            \<lparr>Request = True, Priority = 0, Partial = False, Availability = 0,
             Length = 16, NumPendingChunks = 1, IterPendingChunks = [0]\<rparr>"
        "scenarioA_T1_0 \<lparr>Pieces = [], InfoHash = [1], ChunksPerPiece = 4,
                          MaxUnverifiedBytes = 0\<rparr> 1
            \<lparr>Request = True, Priority = 0, Partial = False, Availability = 0,
             Length = 16, NumPendingChunks = 1, IterPendingChunks = [0]\<rparr>"
        1 2
        "\<lparr>Pieces = [], InfoHash = [1], ChunksPerPiece = 4, MaxUnverifiedBytes = 0\<rparr>"
        "\<lparr>Request = True, Priority = 0, Partial = False, Availability = 0,
          Length = 16, NumPendingChunks = 1, IterPendingChunks = [0]\<rparr>"
        "\<lparr>Pieces = [], InfoHash = [2], ChunksPerPiece = 4, MaxUnverifiedBytes = 0\<rparr>"]
  by (simp add: specPieceOrder_def scenarioA_T1_0_def scenarioA_T1_1_def scenarioA_T2_0_def)

subsection \<open>The requestable piece selector\<close>

text \<open>
  C1, as stated, fails: a piece with \<^verbatim>\<open>Request == false\<close> is skipped only after the
  storage debit.  On \<open>starvedInput\<close> (capacity 100) the first piece (length 60, not
  requested) takes the storage counter from 100 to 40, so that the second piece
  (length 50, requestable) no longer fits and nothing is yielded.
\<close>

theorem skipped_piece_debits_storage:
  "\<not> Request (fp_Piece (hd (allFilterPieces starvedInput))) \<and>
   storageLeft (initSelector starvedInput) = Some 100 \<and>
   storageLeft (pieceStep starvedInput (initSelector starvedInput)
                  (hd (allFilterPieces starvedInput))) = Some 40 \<and>
   fst (projr (GetRequestablePieces [] starvedInput)) = []"
  by (simp add: GetRequestablePieces_def getSortedFilterPieces_def allFilterPieces_def
      starvedInput_def upt_rec sortFilterPieces_def filterPieceLess_def ml_defs
      reorderedFilterPieces_def pieceStep_def initSelector_def word_sless_alt)

text \<open>
  C1, amended.  A piece with \<^verbatim>\<open>Request == false\<close> or \<^verbatim>\<open>NumPendingChunks == 0\<close> leaves
  the per-torrent and the global unverified-byte counters as they were and is not passed
  to the callback; the storage counter, when there is one, is left as it was if the
  piece does not fit and is otherwise lowered by the piece's length.
\<close>

theorem skipped_piece_budgets:
  assumes "\<not> Request (fp_Piece piece) \<or> Piece.NumPendingChunks (fp_Piece piece) = 0"
  shows "torrentUnverifiedBytes (pieceStep input s piece) = torrentUnverifiedBytes s \<and>
         allTorrentsUnverifiedBytes (pieceStep input s piece) = allTorrentsUnverifiedBytes s \<and>
         yielded (pieceStep input s piece) = yielded s \<and>
         storageLeft (pieceStep input s piece) =
           (case storageLeft s of
              None \<Rightarrow> None
            | Some left \<Rightarrow>
                if left <s Length (fp_Piece piece) then Some left
                else Some (left - Length (fp_Piece piece)))"
  using assms by (auto simp: pieceStep_def Let_def split: option.splits)

theorem skipped_piece_budgets_witness:
  "\<not> Request (fp_Piece (hd (allFilterPieces starvedInput))) \<and>
   allTorrentsUnverifiedBytes
     (pieceStep starvedInput (initSelector starvedInput)
        (hd (allFilterPieces starvedInput))) = 0 \<and>
   yielded (pieceStep starvedInput (initSelector starvedInput)
              (hd (allFilterPieces starvedInput))) = [] \<and>
   storageLeft (pieceStep starvedInput (initSelector starvedInput)
                  (hd (allFilterPieces starvedInput))) = Some (100 - 60)"
proof -
  have r: "\<not> Request (fp_Piece (hd (allFilterPieces starvedInput)))"
    by (simp add: allFilterPieces_def starvedInput_def upt_rec)
  have l: "Length (fp_Piece (hd (allFilterPieces starvedInput))) = 60"
    by (simp add: allFilterPieces_def starvedInput_def upt_rec)
  have c: "storageLeft (initSelector starvedInput) = Some 100"
    by (simp add: initSelector_def starvedInput_def)
  have a: "allTorrentsUnverifiedBytes (initSelector starvedInput) = 0"
    "yielded (initSelector starvedInput) = []"
    by (simp_all add: initSelector_def)
  from skipped_piece_budgets
    [of "hd (allFilterPieces starvedInput)" starvedInput "initSelector starvedInput"] r
  show ?thesis
    by (simp add: l c a word_sless_alt)
qed

subsection \<open>The piece request order\<close>

lemma lexord_bytes_irrefl: "(a, a) \<notin> lexord {(x, y :: 8 word). x < y}"
  by (rule lexord_irreflexive) simp

lemma item_Less_eq: "item_Less i j \<longleftrightarrow> (itemOrderKey i, itemOrderKey j) \<in> itemOrderRel"
  unfolding item_Less_def pieceOrderLess_def itemOrderKey_def itemOrderRel_def
  by (auto simp: ml_defs bytes_Compare_eq_0 bytes_Compare_neg lexord_bytes_irrefl)

lemma trans_itemOrderRel: "trans itemOrderRel"
  unfolding itemOrderRel_def
  by (intro trans_lex_prod lexord_transI) (auto simp: trans_def)

lemma total_itemOrderRel: "total itemOrderRel"
  unfolding itemOrderRel_def
proof -
  have "total {(x, y :: 64 word). x <s y}"
    unfolding total_on_def using signed.not_less_iff_gr_or_eq by blast
  then show "total ({(x, y :: nat). y < x} <*lex*> {(x, y). x \<and> \<not> y} <*lex*> {(x, y :: 64 word). x <s y} <*lex*>
     {(x, y :: int). x < y} <*lex*> lexord {(x, y :: 8 word). x < y})"
    by (intro total_lex_prod total_lexord) (auto simp: total_on_def)
qed

lemma inj_itemOrderKey: "itemOrderKey a = itemOrderKey b \<Longrightarrow> a = b"
  by (cases a; cases b) (auto simp: itemOrderKey_def)

lemma item_Less_irrefl: "\<not> item_Less a a"
  by (simp add: item_Less_eq itemOrderRel_def itemOrderKey_def lexord_bytes_irrefl)

lemma item_Less_trans: "item_Less a b \<Longrightarrow> item_Less b c \<Longrightarrow> item_Less a c"
  unfolding item_Less_eq using trans_itemOrderRel by (rule transD)

lemma item_Less_total: "\<not> item_Less a b \<Longrightarrow> \<not> item_Less b a \<Longrightarrow> a = b"
proof -
  assume "\<not> item_Less a b" "\<not> item_Less b a"
  then have "itemOrderKey a = itemOrderKey b"
    using total_itemOrderRel unfolding item_Less_eq total_on_def by blast
  then show "a = b" by (rule inj_itemOrderKey)
qed

lemma below_head_notin:
  assumes "item_Less x y" "sorted_wrt item_Less (y # ys)"
  shows "x \<noteq> y" "x \<notin> set ys"
proof -
  show "x \<noteq> y" using assms(1) item_Less_irrefl by blast
  show "x \<notin> set ys"
  proof
    assume "x \<in> set ys"
    then have "item_Less y x" using assms(2) by simp
    then have "item_Less x x" using assms(1) item_Less_trans by blast
    then show False using item_Less_irrefl by blast
  qed
qed

lemma RoI_set:
  "sorted_wrt item_Less t \<Longrightarrow> set (snd (btree_ReplaceOrInsert x t)) = insert x (set t)"
proof (induction t)
  case Nil
  then show ?case by simp
next
  case (Cons y ys)
  then show ?case
    using item_Less_total[of x y] by (auto split: prod.splits)
qed

lemma RoI_sorted:
  "sorted_wrt item_Less t \<Longrightarrow> sorted_wrt item_Less (snd (btree_ReplaceOrInsert x t))"
proof (induction t)
  case Nil
  then show ?case by simp
next
  case (Cons y ys)
  have s: "set (snd (btree_ReplaceOrInsert x ys)) = insert x (set ys)"
    using Cons.prems by (simp add: RoI_set)
  show ?case
  proof (cases "item_Less x y")
    case True
    then show ?thesis using Cons.prems item_Less_trans by auto
  next
    case nxy: False
    show ?thesis
    proof (cases "item_Less y x")
      case True
      then show ?thesis using nxy Cons s by (auto split: prod.splits)
    next
      case False
      then have "x = y" using nxy item_Less_total by blast
      then show ?thesis using Cons.prems by (simp add: item_Less_irrefl)
    qed
  qed
qed

lemma RoI_None:
  "sorted_wrt item_Less t \<Longrightarrow> fst (btree_ReplaceOrInsert x t) = None \<longleftrightarrow> x \<notin> set t"
proof (induction t)
  case Nil
  then show ?case by simp
next
  case (Cons y ys)
  show ?case
  proof (cases "item_Less x y")
    case True
    then show ?thesis using below_head_notin[OF True Cons.prems] by simp
  next
    case nxy: False
    show ?thesis
    proof (cases "item_Less y x")
      case True
      then have "x \<noteq> y" using item_Less_irrefl by blast
      then show ?thesis using nxy True Cons by (auto split: prod.splits)
    next
      case False
      then have "x = y" using nxy item_Less_total by blast
      then show ?thesis by (simp add: item_Less_irrefl)
    qed
  qed
qed

lemma Delete_set:
  "sorted_wrt item_Less t \<Longrightarrow> set (snd (btree_Delete x t)) = set t - {x}"
proof (induction t)
  case Nil
  then show ?case by simp
next
  case (Cons y ys)
  show ?case
  proof (cases "item_Less x y")
    case True
    then show ?thesis using below_head_notin[OF True Cons.prems] by simp
  next
    case nxy: False
    show ?thesis
    proof (cases "item_Less y x")
      case True
      then have "x \<noteq> y" using item_Less_irrefl by blast
      then show ?thesis using nxy True Cons by (auto split: prod.splits)
    next
      case False
      then have "x = y" using nxy item_Less_total by blast
      moreover have "y \<notin> set ys" using Cons.prems item_Less_irrefl by auto
      ultimately show ?thesis by (simp add: item_Less_irrefl)
    qed
  qed
qed

lemma Delete_sorted:
  "sorted_wrt item_Less t \<Longrightarrow> sorted_wrt item_Less (snd (btree_Delete x t))"
proof (induction t)
  case Nil
  then show ?case by simp
next
  case (Cons y ys)
  have s: "set (snd (btree_Delete x ys)) = set ys - {x}"
    using Cons.prems by (simp add: Delete_set)
  show ?case using Cons s by (auto split: prod.splits)
qed

lemma Delete_None:
  "sorted_wrt item_Less t \<Longrightarrow> fst (btree_Delete x t) = None \<longleftrightarrow> x \<notin> set t"
proof (induction t)
  case Nil
  then show ?case by simp
next
  case (Cons y ys)
  show ?case
  proof (cases "item_Less x y")
    case True
    then show ?thesis using below_head_notin[OF True Cons.prems] by simp
  next
    case nxy: False
    show ?thesis
    proof (cases "item_Less y x")
      case True
      then have "x \<noteq> y" using item_Less_irrefl by blast
      then show ?thesis using nxy True Cons by (auto split: prod.splits)
    next
      case False
      then have "x = y" using nxy item_Less_total by blast
      then show ?thesis by (simp add: item_Less_irrefl)
    qed
  qed
qed

lemma consistent_NewPieceOrder: "consistent NewPieceOrder"
  by (simp add: consistent_def NewPieceOrder_def)

lemma item_eq_iff:
  "it = \<lparr>item_key = k, item_state = s\<rparr> \<longleftrightarrow> item_key it = k \<and> item_state it = s"
  "\<lparr>item_key = k, item_state = s\<rparr> = it \<longleftrightarrow> item_key it = k \<and> item_state it = s"
  by (cases it; auto)+

lemma Add_consistent:
  assumes c: "consistent me"
  shows "Add me key st =
           (if keys me key \<noteq> None then Inl KeyPresent
            else Inr (me\<lparr>tree := snd (btree_ReplaceOrInsert \<lparr>item_key = key, item_state = st\<rparr> (tree me)),
                        keys := (keys me)(key \<mapsto> st)\<rparr>))"
    and "keys me key = None \<Longrightarrow>
         consistent (me\<lparr>tree := snd (btree_ReplaceOrInsert \<lparr>item_key = key, item_state = st\<rparr> (tree me)),
                        keys := (keys me)(key \<mapsto> st)\<rparr>)"
proof -
  let ?x = "\<lparr>item_key = key, item_state = st\<rparr>"
  have srt: "sorted_wrt item_Less (tree me)"
    and st: "set (tree me) = {it. keys me (item_key it) = Some (item_state it)}"
    using c by (simp_all add: consistent_def)
  have notin: "keys me key = None \<Longrightarrow> ?x \<notin> set (tree me)"
    by (simp add: st)
  show "Add me key st =
           (if keys me key \<noteq> None then Inl KeyPresent
            else Inr (me\<lparr>tree := snd (btree_ReplaceOrInsert ?x (tree me)),
                        keys := (keys me)(key \<mapsto> st)\<rparr>))"
    using RoI_None[OF srt, of ?x] notin
    by (auto simp: Add_def split: prod.splits option.splits)
  assume k: "keys me key = None"
  show "consistent (me\<lparr>tree := snd (btree_ReplaceOrInsert ?x (tree me)),
                        keys := (keys me)(key \<mapsto> st)\<rparr>)"
    unfolding consistent_def
    using RoI_sorted[OF srt, of ?x] RoI_set[OF srt, of ?x] st k
    by (auto simp: item_eq_iff)
qed

lemma Delete_step:
  assumes c: "consistent me"
  shows "fst (btree_Delete (existingItemForKey me key) (tree me)) = None \<longleftrightarrow> keys me key = None"
    and "sorted_wrt item_Less (snd (btree_Delete (existingItemForKey me key) (tree me)))"
    and "set (snd (btree_Delete (existingItemForKey me key) (tree me))) =
         {it. item_key it \<noteq> key \<and> keys me (item_key it) = Some (item_state it)}"
proof -
  let ?x = "existingItemForKey me key"
  have srt: "sorted_wrt item_Less (tree me)"
    and st: "set (tree me) = {it. keys me (item_key it) = Some (item_state it)}"
    using c by (simp_all add: consistent_def)
  have xk: "item_key ?x = key"
    by (simp add: existingItemForKey_def)
  have xin: "?x \<in> set (tree me) \<longleftrightarrow> keys me key \<noteq> None"
    by (cases "keys me key") (simp_all add: st existingItemForKey_def)
  have same: "it = ?x" if "it \<in> set (tree me)" "item_key it = key" for it
  proof -
    from that have "keys me key = Some (item_state it)" by (simp add: st)
    then have "item_state ?x = item_state it" by (simp add: existingItemForKey_def)
    with that(2) xk show ?thesis by (cases it; cases ?x) simp
  qed
  show "fst (btree_Delete ?x (tree me)) = None \<longleftrightarrow> keys me key = None"
    using Delete_None[OF srt, of ?x] xin by simp
  show "sorted_wrt item_Less (snd (btree_Delete ?x (tree me)))"
    by (rule Delete_sorted[OF srt])
  have "set (tree me) - {?x} =
         {it. item_key it \<noteq> key \<and> keys me (item_key it) = Some (item_state it)}"
  proof (intro set_eqI iffI)
    fix it :: pieceRequestOrderItem assume "it \<in> set (tree me) - {?x}"
    then have i: "it \<in> set (tree me)" and n: "it \<noteq> ?x" by simp_all
    from n same[OF i] have "item_key it \<noteq> key" by blast
    with i show "it \<in> {it. item_key it \<noteq> key \<and> keys me (item_key it) = Some (item_state it)}"
      by (simp add: st)
  next
    fix it :: pieceRequestOrderItem assume "it \<in> {it. item_key it \<noteq> key \<and> keys me (item_key it) = Some (item_state it)}"
    then have "item_key it \<noteq> key" and "it \<in> set (tree me)" by (simp_all add: st)
    with xk show "it \<in> set (tree me) - {?x}" by auto
  qed
  then show "set (snd (btree_Delete ?x (tree me))) =
         {it. item_key it \<noteq> key \<and> keys me (item_key it) = Some (item_state it)}"
    using Delete_set[OF srt, of ?x] by simp
qed

lemma Delete_consistent:
  assumes c: "consistent me"
  shows "Delete me key =
           (if keys me key = None then Inl KeyAbsent
            else Inr (me\<lparr>tree := snd (btree_Delete (existingItemForKey me key) (tree me)),
                        keys := (keys me)(key := None)\<rparr>))"
    and "consistent (me\<lparr>tree := snd (btree_Delete (existingItemForKey me key) (tree me)),
                        keys := (keys me)(key := None)\<rparr>)"
proof -
  show "Delete me key =
           (if keys me key = None then Inl KeyAbsent
            else Inr (me\<lparr>tree := snd (btree_Delete (existingItemForKey me key) (tree me)),
                        keys := (keys me)(key := None)\<rparr>))"
    using Delete_step(1)[OF c, of key]
    by (auto simp: Delete_def split: prod.splits option.splits)
  show "consistent (me\<lparr>tree := snd (btree_Delete (existingItemForKey me key) (tree me)),
                        keys := (keys me)(key := None)\<rparr>)"
    unfolding consistent_def
    using Delete_step(2,3)[OF c, of key] by auto
qed

lemma Update_consistent:
  assumes c: "consistent me"
  shows "Update me key st =
           (if keys me key = None then Inl KeyAbsent
            else Inr (me\<lparr>tree := snd (btree_ReplaceOrInsert \<lparr>item_key = key, item_state = st\<rparr>
                                      (snd (btree_Delete (existingItemForKey me key) (tree me)))),
                        keys := (keys me)(key \<mapsto> st)\<rparr>))"
    and "consistent (me\<lparr>tree := snd (btree_ReplaceOrInsert \<lparr>item_key = key, item_state = st\<rparr>
                                      (snd (btree_Delete (existingItemForKey me key) (tree me)))),
                        keys := (keys me)(key \<mapsto> st)\<rparr>)"
proof -
  let ?x = "\<lparr>item_key = key, item_state = st\<rparr>"
  let ?t = "snd (btree_Delete (existingItemForKey me key) (tree me))"
  note d = Delete_step[OF c, of key]
  have notin: "?x \<notin> set ?t" by (simp add: d(3))
  show "Update me key st =
           (if keys me key = None then Inl KeyAbsent
            else Inr (me\<lparr>tree := snd (btree_ReplaceOrInsert ?x ?t),
                        keys := (keys me)(key \<mapsto> st)\<rparr>))"
    using d(1) RoI_None[OF d(2), of ?x] notin
    by (auto simp: Update_def split: prod.splits option.splits)
  show "consistent (me\<lparr>tree := snd (btree_ReplaceOrInsert ?x ?t),
                        keys := (keys me)(key \<mapsto> st)\<rparr>)"
    unfolding consistent_def
    using RoI_sorted[OF d(2), of ?x] RoI_set[OF d(2), of ?x] d(3)
    by (auto simp: item_eq_iff)
qed

text \<open>
  The item comparator of the index and the closure of the one-shot sort agree: on two
  pieces that differ in one of the five fields both say which comes first.
\<close>

lemma item_Less_filterPieceLess:
  assumes "item_key a = \<lparr>PieceRequestOrderKey.InfoHash = Torrent.InfoHash (fp_t i), Index = fp_index i\<rparr>"
    and "item_state a = \<lparr>PieceRequestOrderState.Priority = Piece.Priority (fp_Piece i),
                          PieceRequestOrderState.Partial = Piece.Partial (fp_Piece i),
                          PieceRequestOrderState.Availability = Piece.Availability (fp_Piece i)\<rparr>"
    and "item_key b = \<lparr>PieceRequestOrderKey.InfoHash = Torrent.InfoHash (fp_t j), Index = fp_index j\<rparr>"
    and "item_state b = \<lparr>PieceRequestOrderState.Priority = Piece.Priority (fp_Piece j),
                          PieceRequestOrderState.Partial = Piece.Partial (fp_Piece j),
                          PieceRequestOrderState.Availability = Piece.Availability (fp_Piece j)\<rparr>"
  shows "item_Less a b \<longleftrightarrow> filterPieceLess i j = Inr True"
  using assms
  unfolding item_Less_def pieceOrderLess_def filterPieceLess_def
  by (auto simp: ml_defs bytes_Compare_eq_0)

text \<open>
  C9.  On an index whose tree and key map agree (as they do from \<open>NewPieceOrder\<close> on),
  \<^verbatim>\<open>Add\<close> panics exactly when the key is present, \<^verbatim>\<open>Update\<close> and \<^verbatim>\<open>Delete\<close> panic exactly
  when it is absent; a successful \<^verbatim>\<open>Add\<close> or \<^verbatim>\<open>Update\<close> leaves the key mapped to the given
  state, in the key map and as an item of the tree, a successful \<^verbatim>\<open>Delete\<close> leaves the
  key in neither, and the tree and the key map agree again.
\<close>

theorem piece_request_order_ops:
  assumes "consistent me"
  shows "((\<exists>e. Add me key st = Inl e) \<longleftrightarrow> keys me key \<noteq> None) \<and>
         ((\<exists>e. Update me key st = Inl e) \<longleftrightarrow> keys me key = None) \<and>
         ((\<exists>e. Delete me key = Inl e) \<longleftrightarrow> keys me key = None) \<and>
         (\<forall>me'. Add me key st = Inr me' \<longrightarrow>
            consistent me' \<and> keys me' = (keys me)(key \<mapsto> st) \<and>
            \<lparr>item_key = key, item_state = st\<rparr> \<in> set (tree me')) \<and>
         (\<forall>me'. Update me key st = Inr me' \<longrightarrow>
            consistent me' \<and> keys me' = (keys me)(key \<mapsto> st) \<and>
            \<lparr>item_key = key, item_state = st\<rparr> \<in> set (tree me')) \<and>
         (\<forall>me'. Delete me key = Inr me' \<longrightarrow>
            consistent me' \<and> keys me' = (keys me)(key := None) \<and>
            (\<forall>it \<in> set (tree me'). item_key it \<noteq> key))"
proof (intro conjI allI impI ballI)
  show "(\<exists>e. Add me key st = Inl e) \<longleftrightarrow> keys me key \<noteq> None"
    by (simp add: Add_consistent(1)[OF assms])
  show "(\<exists>e. Update me key st = Inl e) \<longleftrightarrow> keys me key = None"
    by (simp add: Update_consistent(1)[OF assms])
  show "(\<exists>e. Delete me key = Inl e) \<longleftrightarrow> keys me key = None"
    by (simp add: Delete_consistent(1)[OF assms])
next
  fix me' assume a: "Add me key st = Inr me'"
  then have k: "keys me key = None" and m: "me' = me\<lparr>tree := snd (btree_ReplaceOrInsert \<lparr>item_key = key, item_state = st\<rparr> (tree me)),
                        keys := (keys me)(key \<mapsto> st)\<rparr>"
    by (auto simp: Add_consistent(1)[OF assms] split: if_splits)
  show "consistent me'" unfolding m by (rule Add_consistent(2)[OF assms k])
  then show "\<lparr>item_key = key, item_state = st\<rparr> \<in> set (tree me')"
    by (simp add: consistent_def m)
  show "keys me' = (keys me)(key \<mapsto> st)" by (simp add: m)
next
  fix me' assume a: "Update me key st = Inr me'"
  then have m: "me' = me\<lparr>tree := snd (btree_ReplaceOrInsert \<lparr>item_key = key, item_state = st\<rparr>
                                      (snd (btree_Delete (existingItemForKey me key) (tree me)))),
                        keys := (keys me)(key \<mapsto> st)\<rparr>"
    by (auto simp: Update_consistent(1)[OF assms] split: if_splits)
  show "consistent me'" unfolding m by (rule Update_consistent(2)[OF assms])
  then show "\<lparr>item_key = key, item_state = st\<rparr> \<in> set (tree me')"
    by (simp add: consistent_def m)
  show "keys me' = (keys me)(key \<mapsto> st)" by (simp add: m)
next
  fix me' assume a: "Delete me key = Inr me'"
  then have m: "me' = me\<lparr>tree := snd (btree_Delete (existingItemForKey me key) (tree me)),
                        keys := (keys me)(key := None)\<rparr>"
    by (auto simp: Delete_consistent(1)[OF assms] split: if_splits)
  show c': "consistent me'" unfolding m by (rule Delete_consistent(2)[OF assms])
  show "keys me' = (keys me)(key := None)" by (simp add: m)
  fix it assume "it \<in> set (tree me')"
  then show "item_key it \<noteq> key" using c' by (auto simp: consistent_def m)
qed

theorem piece_request_order_ops_witness:
  "consistent NewPieceOrder \<and> consistent poiOne \<and>
   Add NewPieceOrder poiKey poiState = Inr poiOne \<and>
   Update NewPieceOrder poiKey poiState = Inl KeyAbsent \<and>
   Delete NewPieceOrder poiKey = Inl KeyAbsent \<and>
   Add poiOne poiKey poiState' = Inl KeyPresent \<and>
   Update poiOne poiKey poiState' =
     Inr \<lparr>tree = [\<lparr>item_key = poiKey, item_state = poiState'\<rparr>], keys = [poiKey \<mapsto> poiState']\<rparr> \<and>
   Delete poiOne poiKey = Inr \<lparr>tree = [], keys = [poiKey \<mapsto> poiState](poiKey := None)\<rparr>"
proof -
  have c0: "consistent NewPieceOrder"
    by (simp add: consistent_def NewPieceOrder_def)
  have a: "Add NewPieceOrder poiKey poiState = Inr poiOne"
    by (simp add: Add_def NewPieceOrder_def poiOne_def)
  from piece_request_order_ops[OF c0, of poiKey poiState] a
  have c1: "consistent poiOne" by simp
  have nl: "\<not> item_Less \<lparr>item_key = poiKey, item_state = poiState\<rparr> \<lparr>item_key = poiKey, item_state = poiState\<rparr>"
    "\<not> item_Less \<lparr>item_key = poiKey, item_state = poiState'\<rparr> \<lparr>item_key = poiKey, item_state = poiState'\<rparr>"
    by (rule item_Less_irrefl)+
  have u: "Update poiOne poiKey poiState' =
     Inr \<lparr>tree = [\<lparr>item_key = poiKey, item_state = poiState'\<rparr>], keys = [poiKey \<mapsto> poiState']\<rparr>"
    by (simp add: Update_def poiOne_def existingItemForKey_def nl)
  have d: "Delete poiOne poiKey = Inr \<lparr>tree = [], keys = [poiKey \<mapsto> poiState](poiKey := None)\<rparr>"
    by (simp add: Delete_def poiOne_def existingItemForKey_def nl)
  have e: "Update NewPieceOrder poiKey poiState = Inl KeyAbsent"
    "Delete NewPieceOrder poiKey = Inl KeyAbsent"
    "Add poiOne poiKey poiState' = Inl KeyPresent"
    by (simp_all add: Update_def Delete_def Add_def NewPieceOrder_def poiOne_def
        existingItemForKey_def)
  show ?thesis
    using c0 c1 a u d e by simp
qed

subsection \<open>The request heap\<close>

text \<open>
  C7.  For a choking peer and two positions of the heap, the left request's piece
  allowed fast and the right request's piece not: whenever the reads of the comparator
  succeed, the left request is less than the right one and the right one is not less than
  the left one, whatever the pending counts, the in-flight status, the priorities, the
  availabilities and the indices are; the comparator panics exactly when a read fails.
\<close>

theorem choking_allowed_fast_first:
  assumes "peerChoking (pr_peer p)"
    and "requestIndexes p ! i div ChunksPerPiece (torrentStrategyInput p)
           \<in> peerAllowedFast (pr_peer p)"
    and "requestIndexes p ! j div ChunksPerPiece (torrentStrategyInput p)
           \<notin> peerAllowedFast (pr_peer p)"
  shows "(lessReads p i j \<longrightarrow>
            peerRequests_Less p i j = Inr True \<and> peerRequests_Less p j i = Inr False) \<and>
         (\<not> lessReads p i j \<longrightarrow>
            (\<exists>e. peerRequests_Less p i j = Inl e) \<and> (\<exists>e. peerRequests_Less p j i = Inl e))"
  using assms
  unfolding lessReads_def peerRequests_Less_def pending_def
  by (auto simp: Let_def ml_defs)

theorem choking_allowed_fast_first_witness:
  "peerChoking (pr_peer scenarioD) \<and>
   requestIndexes scenarioD ! 1 div ChunksPerPiece (torrentStrategyInput scenarioD) = 7 \<and>
   requestIndexes scenarioD ! 0 div ChunksPerPiece (torrentStrategyInput scenarioD) = 8 \<and>
   lessReads scenarioD 1 0 \<and>
   peerRequests_Less scenarioD 1 0 = Inr True \<and>
   peerRequests_Less scenarioD 0 1 = Inr False"
proof -
  have c: "peerChoking (pr_peer scenarioD)" by (simp add: scenarioD_def)
  have l: "requestIndexes scenarioD ! 1 div ChunksPerPiece (torrentStrategyInput scenarioD) = 7"
    by (simp add: scenarioD_def)
  have r: "requestIndexes scenarioD ! 0 div ChunksPerPiece (torrentStrategyInput scenarioD) = 8"
    by (simp add: scenarioD_def)
  have f: "requestIndexes scenarioD ! 1 div ChunksPerPiece (torrentStrategyInput scenarioD)
             \<in> peerAllowedFast (pr_peer scenarioD)"
    "requestIndexes scenarioD ! 0 div ChunksPerPiece (torrentStrategyInput scenarioD)
             \<notin> peerAllowedFast (pr_peer scenarioD)"
    unfolding l r by (simp_all add: scenarioD_def)
  have d: "lessReads scenarioD 1 0"
    unfolding lessReads_def l r by (simp add: scenarioD_def)
  from choking_allowed_fast_first[OF c f] d c l r show ?thesis by simp
qed

subsection \<open>Applying the request state\<close>

lemma requestLoop_done:
  "\<not> i < length reqs \<Longrightarrow> requestLoop io rng lp i sh reqs p = Inr (True, reqs, p)"
  by (subst requestLoop.simps) simp

lemma requestLoop_skip:
  "i < length reqs \<Longrightarrow> reqs ! i \<in> cancelledRequests p \<Longrightarrow>
   requestLoop io rng lp i sh reqs p = requestLoop io rng lp (Suc i) sh reqs p"
  by (subst requestLoop.simps) simp

lemma requestLoop_full:
  "i < length reqs \<Longrightarrow> reqs ! i \<notin> cancelledRequests p \<Longrightarrow>
   nominalMaxRequests p \<le> int (card (actualRequests p)) \<Longrightarrow>
   requestLoop io rng lp i sh reqs p = Inr (True, reqs, p)"
  by (subst requestLoop.simps) simp

lemma requestLoop_panic:
  "i < length reqs \<Longrightarrow> reqs ! i \<notin> cancelledRequests p \<Longrightarrow>
   int (card (actualRequests p)) < nominalMaxRequests p \<Longrightarrow>
   otherPending reqs p < lp \<Longrightarrow>
   requestLoop io rng lp i sh reqs p = Inl (LastPending lp)"
  by (subst requestLoop.simps) simp

lemma requestLoop_shuffle:
  "i < length reqs \<Longrightarrow> reqs ! i \<notin> cancelledRequests p \<Longrightarrow>
   int (card (actualRequests p)) < nominalMaxRequests p \<Longrightarrow>
   lp \<le> otherPending reqs p \<Longrightarrow> 0 < otherPending reqs p \<Longrightarrow>
   requestLoop io rng lp i False reqs p =
   requestLoop io rng lp i True (take i reqs @ rand_Shuffle rng (drop i reqs)) p"
  by (subst requestLoop.simps) simp

lemma requestLoop_request:
  "i < length reqs \<Longrightarrow> reqs ! i \<notin> cancelledRequests p \<Longrightarrow>
   int (card (actualRequests p)) < nominalMaxRequests p \<Longrightarrow>
   lp \<le> otherPending reqs p \<Longrightarrow> sh \<or> otherPending reqs p \<le> 0 \<Longrightarrow>
   requestLoop io rng lp i sh reqs p =
     (if fst (mustRequest io (reqs ! i) p)
      then requestLoop io rng lp (Suc i) sh reqs (snd (mustRequest io (reqs ! i) p))
      else Inr (False, reqs, snd (mustRequest io (reqs ! i) p)))"
  by (subst requestLoop.simps) (auto split: prod.splits)

lemmas requestLoop_steps = requestLoop_done requestLoop_skip requestLoop_full requestLoop_panic
  requestLoop_shuffle requestLoop_request

lemma mset_swap_ok: "i < length xs \<Longrightarrow> j < length xs \<Longrightarrow> mset (swap i j xs) = mset xs"
  unfolding swap_def by (simp add: mset_swap)

lemma mset_fisherYates: "n < length xs \<Longrightarrow> mset (fisherYates rng n xs) = mset xs"
proof (induction n arbitrary: xs)
  case 0
  then show ?case by simp
next
  case (Suc n)
  have j: "rng (Suc n) mod (Suc n + 1) < length xs"
  proof -
    have "rng (Suc n) mod (Suc n + 1) < Suc n + 1" by simp
    with Suc.prems show ?thesis by linarith
  qed
  have "mset (swap (Suc n) (rng (Suc n) mod (Suc n + 1)) xs) = mset xs"
    using Suc.prems j by (simp add: mset_swap_ok)
  moreover have "n < length (swap (Suc n) (rng (Suc n) mod (Suc n + 1)) xs)"
    using Suc.prems by (simp add: length_swap)
  ultimately show ?case using Suc.IH by simp
qed

lemma mset_rand_Shuffle: "mset (rand_Shuffle rng xs) = mset xs"
proof (cases xs)
  case Nil
  then show ?thesis by (simp add: rand_Shuffle_def)
next
  case (Cons a as)
  then show ?thesis by (simp add: rand_Shuffle_def mset_fisherYates)
qed

lemma set_rand_Shuffle: "set (rand_Shuffle rng xs) = set xs"
  by (metis mset_rand_Shuffle set_mset_mset)

lemma distinct_rand_Shuffle: "distinct (rand_Shuffle rng xs) = distinct xs"
  by (metis mset_rand_Shuffle mset_eq_imp_distinct_iff)

lemma mustRequest_new:
  assumes "r \<notin> actualRequests q" "io (emitted q) (EmitRequest r)"
  shows "mustRequest io r q =
           (True, q\<lparr>actualRequests := insert r (actualRequests q),
                     pendingRequests := (pendingRequests q)(r := pendingRequests q r + 1),
                     emitted := emitted q @ [EmitRequest r]\<rparr>)"
  using assms by (simp add: mustRequest_def)

lemma otherPending_mustRequest:
  assumes "r \<notin> actualRequests q"
  shows "otherPending reqs
           (q\<lparr>actualRequests := insert r (actualRequests q),
              pendingRequests := (pendingRequests q)(r := pendingRequests q r + 1),
              emitted := e\<rparr>) = otherPending reqs q"
  using assms by (auto simp: otherPending_def Let_def)

lemma requestLoop_shuffled_run:
  assumes io: "\<forall>tr e. io tr e"
    and "distinct reqs" "i \<le> length reqs"
    and "set (drop i reqs) \<inter> actualRequests q = {}"
    and "set (drop i reqs) \<inter> cancelledRequests q = {}"
    and "0 \<le> otherPending reqs q"
  shows "\<exists>q'. requestLoop io rng 0 i True reqs q = Inr (True, reqs, q') \<and>
           emitted q' = emitted q @
             map EmitRequest
               (take (nat (nominalMaxRequests q - int (card (actualRequests q)))) (drop i reqs))"
  using assms(2-)
proof (induction "length reqs - i" arbitrary: i q)
  case 0
  then have "\<not> i < length reqs" by simp
  then show ?case by (simp add: requestLoop_done)
next
  case (Suc n)
  then have i: "i < length reqs" by simp
  have d: "drop i reqs = reqs ! i # drop (Suc i) reqs"
    using i by (simp add: Cons_nth_drop_Suc)
  let ?r = "reqs ! i"
  have rc: "?r \<notin> cancelledRequests q" and ra: "?r \<notin> actualRequests q"
    using Suc.prems(3,4) d by auto
  show ?case
  proof (cases "nominalMaxRequests q \<le> int (card (actualRequests q))")
    case True
    then show ?thesis using i rc by (simp add: requestLoop_full)
  next
    case False
    then have cap: "int (card (actualRequests q)) < nominalMaxRequests q" by simp
    let ?q1 = "q\<lparr>actualRequests := insert ?r (actualRequests q),
                  pendingRequests := (pendingRequests q)(?r := pendingRequests q ?r + 1),
                  emitted := emitted q @ [EmitRequest ?r]\<rparr>"
    have m: "mustRequest io ?r q = (True, ?q1)"
      using ra io by (simp add: mustRequest_new)
    have step: "requestLoop io rng 0 i True reqs q = requestLoop io rng 0 (Suc i) True reqs ?q1"
      using i rc cap Suc.prems(5) by (simp add: requestLoop_request m)
    have nin: "?r \<notin> set (drop (Suc i) reqs)"
      using Suc.prems(1) d by (metis distinct.simps(2) distinct_drop)
    have a1: "set (drop (Suc i) reqs) \<inter> actualRequests ?q1 = {}"
      using Suc.prems(3) d nin by auto
    have c1: "set (drop (Suc i) reqs) \<inter> cancelledRequests ?q1 = {}"
      using Suc.prems(4) d by auto
    have o1: "0 \<le> otherPending reqs ?q1"
      using Suc.prems(5) ra by (simp add: otherPending_mustRequest)
    have n1: "n = length reqs - Suc i" using Suc.hyps(2) by simp
    from Suc.hyps(1)[OF n1 Suc.prems(1) _ a1 c1 o1] i
    obtain q' where q': "requestLoop io rng 0 (Suc i) True reqs ?q1 = Inr (True, reqs, q')"
      "emitted q' = emitted ?q1 @
             map EmitRequest
               (take (nat (nominalMaxRequests ?q1 - int (card (actualRequests ?q1))))
                  (drop (Suc i) reqs))"
      by auto
    have card1: "card (actualRequests ?q1) = Suc (card (actualRequests q))"
      using ra by simp
    have "take (nat (nominalMaxRequests q - int (card (actualRequests q)))) (drop i reqs) =
          ?r # take (nat (nominalMaxRequests ?q1 - int (card (actualRequests ?q1))))
                 (drop (Suc i) reqs)"
    proof -
      obtain k where k: "nat (nominalMaxRequests q - int (card (actualRequests q))) = Suc k"
        using cap by (metis Suc_pred' zero_less_nat_eq diff_gt_0_iff_gt)
      then have "nat (nominalMaxRequests ?q1 - int (card (actualRequests ?q1))) = k"
        using card1 by simp
      then show ?thesis using k d by simp
    qed
    then show ?thesis using step q' by simp
  qed
qed

lemma rand_Shuffle_zero:
  "rand_Shuffle (\<lambda>i. 0) [10, 11, 12, 13, 14 :: 32 word] = [11, 12, 13, 14, 10]"
  by code_simp

text \<open>
  C2, as stated, fails: with five desired requests that other peers hold, the loop
  shuffles at index 0, before any request is emitted, and it shuffles the whole slice.
  With a generator that always draws position 0 the slice 10, 11, 12, 13, 14 becomes
  11, 12, 13, 14, 10: the first request emitted is 11 and request 10 goes out last.
\<close>

theorem shuffle_before_first_request:
  "requestLoop (\<lambda>tr e. True) (\<lambda>i. 0) 0 0 False (Requests scenarioE_desired)
     (scenarioE_peer\<lparr>emitted := [EmitInterested True]\<rparr>) =
   requestLoop (\<lambda>tr e. True) (\<lambda>i. 0) 0 0 True [11, 12, 13, 14, 10]
     (scenarioE_peer\<lparr>emitted := [EmitInterested True]\<rparr>) \<and>
   (case applyRequestState (\<lambda>tr e. True) (\<lambda>i. 0) scenarioE_desired scenarioE_peer of
      Inl e \<Rightarrow> []
    | Inr (m, p) \<Rightarrow> emitted p) =
   [EmitInterested True, EmitRequest 11, EmitRequest 12, EmitRequest 13, EmitRequest 14,
    EmitRequest 10]"
proof
  show "requestLoop (\<lambda>tr e. True) (\<lambda>i. 0) 0 0 False (Requests scenarioE_desired)
     (scenarioE_peer\<lparr>emitted := [EmitInterested True]\<rparr>) =
   requestLoop (\<lambda>tr e. True) (\<lambda>i. 0) 0 0 True [11, 12, 13, 14, 10]
     (scenarioE_peer\<lparr>emitted := [EmitInterested True]\<rparr>)"
    by (subst requestLoop_shuffle)
       (simp_all add: scenarioE_desired_def scenarioE_peer_def rand_Shuffle_zero otherPending_def)
  show "(case applyRequestState (\<lambda>tr e. True) (\<lambda>i. 0) scenarioE_desired scenarioE_peer of
      Inl e \<Rightarrow> []
    | Inr (m, p) \<Rightarrow> emitted p) =
   [EmitInterested True, EmitRequest 11, EmitRequest 12, EmitRequest 13, EmitRequest 14,
    EmitRequest 10]"
    by (simp add: applyRequestState_def scenarioE_desired_def scenarioE_peer_def
        setInterested_def rand_Shuffle_zero requestLoop_steps otherPending_def mustRequest_def)
qed

text \<open>
  C2, amended.  When the request loop starts with a non-empty slice of distinct
  requests (five in the scenario), none of them held or cancelled by the peer, each with
  a positive pending count, room for a request and writes that succeed: the positive
  \<^verbatim>\<open>otherPending\<close> is seen at index 0 before any request is emitted, the whole slice is
  shuffled, the loop repeats index 0, and requests go out for the leading entries of the
  shuffled slice, min(length, \<^verbatim>\<open>nominalMaxRequests\<close> - |actual|) of them.
\<close>

theorem shuffle_trigger:
  assumes "\<forall>tr e. io tr e"
    and "reqs \<noteq> []" and "distinct reqs"
    and "set reqs \<inter> actualRequests q = {}"
    and "set reqs \<inter> cancelledRequests q = {}"
    and "\<forall>r \<in> set reqs. 0 < pendingRequests q r"
    and "int (card (actualRequests q)) < nominalMaxRequests q"
  shows "requestLoop io rng 0 0 False reqs q =
           requestLoop io rng 0 0 True (rand_Shuffle rng reqs) q \<and>
         (\<exists>q'. requestLoop io rng 0 0 False reqs q = Inr (True, rand_Shuffle rng reqs, q') \<and>
            emitted q' = emitted q @
              map EmitRequest
                (take (nat (nominalMaxRequests q - int (card (actualRequests q))))
                   (rand_Shuffle rng reqs))) \<and>
         length (take (nat (nominalMaxRequests q - int (card (actualRequests q))))
                   (rand_Shuffle rng reqs)) =
           min (length reqs) (nat (nominalMaxRequests q - int (card (actualRequests q))))"
proof -
  let ?s = "rand_Shuffle rng reqs"
  have l: "0 < length reqs" using assms(2) by simp
  have h: "reqs ! 0 \<in> set reqs" using l by simp
  have o: "0 < otherPending reqs q"
    using assms(4,6) h by (auto simp: otherPending_def Let_def)
  have c: "reqs ! 0 \<notin> cancelledRequests q" using assms(5) h by auto
  have step: "requestLoop io rng 0 0 False reqs q = requestLoop io rng 0 0 True ?s q"
    using requestLoop_shuffle[of 0 reqs q 0 io rng] l c assms(7) o by simp
  have hs: "?s ! 0 \<in> set reqs"
    using l by (metis length_rand_Shuffle nth_mem set_rand_Shuffle)
  have os: "0 \<le> otherPending ?s q"
    using assms(4,6) hs by (auto simp: otherPending_def Let_def dest: bspec[of _ _ "?s ! 0"])
  from requestLoop_shuffled_run[OF assms(1), of ?s 0 q rng]
  obtain q' where q': "requestLoop io rng 0 0 True ?s q = Inr (True, ?s, q')"
    "emitted q' = emitted q @
       map EmitRequest (take (nat (nominalMaxRequests q - int (card (actualRequests q)))) ?s)"
    using assms(3,4,5) os by (auto simp: distinct_rand_Shuffle set_rand_Shuffle)
  show ?thesis
    using step q' by (simp add: length_rand_Shuffle min.commute)
qed

theorem shuffle_trigger_witness:
  "requestLoop (\<lambda>tr e. True) (\<lambda>i. 0) 0 0 False [10, 11, 12, 13, 14]
     (scenarioE_peer\<lparr>nominalMaxRequests := 3\<rparr>) =
   requestLoop (\<lambda>tr e. True) (\<lambda>i. 0) 0 0 True [11, 12, 13, 14, 10]
     (scenarioE_peer\<lparr>nominalMaxRequests := 3\<rparr>) \<and>
   (\<exists>q'. requestLoop (\<lambda>tr e. True) (\<lambda>i. 0) 0 0 False [10, 11, 12, 13, 14]
           (scenarioE_peer\<lparr>nominalMaxRequests := 3\<rparr>) = Inr (True, [11, 12, 13, 14, 10], q') \<and>
         emitted q' = [EmitRequest 11, EmitRequest 12, EmitRequest 13]) \<and>
   min (length [10, 11, 12, 13, 14 :: 32 word]) (nat (3 - int (card ({} :: 32 word set)))) = 3"
proof -
  let ?q = "scenarioE_peer\<lparr>nominalMaxRequests := 3\<rparr>"
  have a: "\<forall>tr e. (\<lambda>tr e. True) tr e" by simp
  have b: "[10, 11, 12, 13, 14 :: 32 word] \<noteq> []" "distinct [10, 11, 12, 13, 14 :: 32 word]"
    by simp_all
  have c: "set [10, 11, 12, 13, 14] \<inter> actualRequests ?q = {}"
    "set [10, 11, 12, 13, 14] \<inter> cancelledRequests ?q = {}"
    "\<forall>r \<in> set [10, 11, 12, 13, 14]. 0 < pendingRequests ?q r"
    "int (card (actualRequests ?q)) < nominalMaxRequests ?q"
    by (simp_all add: scenarioE_peer_def)
  have t: "take (nat (nominalMaxRequests ?q - int (card (actualRequests ?q))))
             [11, 12, 13, 14, 10 :: 32 word] = [11, 12, 13]"
    by (simp add: scenarioE_peer_def)
  have e: "emitted ?q = []" by (simp add: scenarioE_peer_def)
  note th = shuffle_trigger[OF a b c, of "\<lambda>i. 0", unfolded rand_Shuffle_zero t e]
  show ?thesis
  proof (intro conjI)
    show "requestLoop (\<lambda>tr e. True) (\<lambda>i. 0) 0 0 False [10, 11, 12, 13, 14] ?q =
          requestLoop (\<lambda>tr e. True) (\<lambda>i. 0) 0 0 True [11, 12, 13, 14, 10] ?q"
      by (rule th[THEN conjunct1])
    show "\<exists>q'. requestLoop (\<lambda>tr e. True) (\<lambda>i. 0) 0 0 False [10, 11, 12, 13, 14] ?q =
                 Inr (True, [11, 12, 13, 14, 10], q') \<and>
               emitted q' = [EmitRequest 11, EmitRequest 12, EmitRequest 13]"
      using th[THEN conjunct2, THEN conjunct1] by simp
    show "min (length [10, 11, 12, 13, 14 :: 32 word]) (nat (3 - int (card ({} :: 32 word set)))) = 3"
      by simp
  qed
qed

lemma mustRequest_cases:
  obtains (held) "r \<in> actualRequests p" "mustRequest io r p = (True, p)"
  | (sent) "r \<notin> actualRequests p" "io (emitted p) (EmitRequest r)"
      "mustRequest io r p =
         (True, p\<lparr>actualRequests := insert r (actualRequests p),
                   pendingRequests := (pendingRequests p)(r := pendingRequests p r + 1),
                   emitted := emitted p @ [EmitRequest r]\<rparr>)"
  | (failed) "r \<notin> actualRequests p" "\<not> io (emitted p) (EmitRequest r)"
      "mustRequest io r p = (False, p\<lparr>emitted := emitted p @ [EmitRequest r]\<rparr>)"
  by (cases "r \<in> actualRequests p"; cases "io (emitted p) (EmitRequest r)")
     (auto simp: mustRequest_def)

lemma take_Suc_eq_D:
  assumes "take (Suc i) xs = take (Suc i) ys" "i < length xs" "i < length ys"
  shows "take i xs = take i ys" "xs ! i = ys ! i"
proof -
  have "take i xs @ [xs ! i] = take i ys @ [ys ! i]"
    using assms by (simp add: take_Suc_conv_app_nth)
  then show "take i xs = take i ys" "xs ! i = ys ! i" by simp_all
qed

lemma loopTrace_done: "loopTrace rng i sh reqs p reqs p []"
  by (simp add: loopTrace_def)

lemma loopTrace_skip:
  assumes "loopTrace rng (Suc i) sh reqs p reqs' p' rs" "i < length reqs"
  shows "loopTrace rng i sh reqs p reqs' p' rs"
proof -
  have l: "i < length reqs'" using assms by (simp add: loopTrace_def)
  have t: "take (Suc i) reqs' = take (Suc i) reqs" using assms by (simp add: loopTrace_def)
  have "drop i reqs' = reqs' ! i # drop (Suc i) reqs'"
    using l by (simp add: Cons_nth_drop_Suc)
  moreover have "subseq rs (drop (Suc i) reqs')" using assms by (simp add: loopTrace_def)
  ultimately have "subseq rs (drop i reqs')" by (simp add: list_emb_Cons)
  then show ?thesis
    using assms(1) take_Suc_eq_D(1)[OF t l assms(2)] by (simp add: loopTrace_def)
qed

lemma loopTrace_sent:
  assumes "loopTrace rng (Suc i) sh reqs
             (p\<lparr>actualRequests := insert (reqs ! i) (actualRequests p),
                pendingRequests := f,
                emitted := emitted p @ [EmitRequest (reqs ! i)]\<rparr>) reqs' p' rs"
    and "i < length reqs" "reqs ! i \<notin> actualRequests p" "reqs ! i \<notin> cancelledRequests p"
  shows "loopTrace rng i sh reqs p reqs' p' (reqs ! i # rs)"
proof -
  have l: "i < length reqs'" using assms by (simp add: loopTrace_def)
  have t: "take (Suc i) reqs' = take (Suc i) reqs" using assms by (simp add: loopTrace_def)
  note ti = take_Suc_eq_D[OF t l assms(2)]
  have d: "drop i reqs' = reqs ! i # drop (Suc i) reqs'"
    using Cons_nth_drop_Suc[OF l, symmetric] ti(2) by simp
  have s: "subseq rs (drop (Suc i) reqs')"
    and dr: "distinct rs"
    and a: "set rs \<inter> insert (reqs ! i) (actualRequests p) = {}"
    and c: "set rs \<inter> cancelledRequests p = {}"
    and e: "emitted p' = (emitted p @ [EmitRequest (reqs ! i)]) @ map EmitRequest rs"
    using assms(1) by (simp_all add: loopTrace_def)
  have "subseq (reqs ! i # rs) (drop i reqs')" using s d by simp
  moreover have "distinct (reqs ! i # rs)" using dr a by auto
  moreover have "set (reqs ! i # rs) \<inter> actualRequests p = {}" using a assms(3) by auto
  moreover have "set (reqs ! i # rs) \<inter> cancelledRequests p = {}" using c assms(4) by auto
  moreover have "emitted p' = emitted p @ map EmitRequest (reqs ! i # rs)" using e by simp
  ultimately show ?thesis
    using assms(1) ti(1) unfolding loopTrace_def by blast
qed

lemma loopTrace_failed:
  assumes "i < length reqs" "reqs ! i \<notin> actualRequests p" "reqs ! i \<notin> cancelledRequests p"
  shows "loopTrace rng i sh reqs p reqs (p\<lparr>emitted := emitted p @ [EmitRequest (reqs ! i)]\<rparr>)
           [reqs ! i]"
proof -
  have "drop i reqs = reqs ! i # drop (Suc i) reqs"
    using assms(1) by (simp add: Cons_nth_drop_Suc)
  then show ?thesis using assms by (simp add: loopTrace_def)
qed

lemma loopTrace_shuffled:
  assumes "loopTrace rng i True (take i reqs @ rand_Shuffle rng (drop i reqs)) p reqs' p' rs"
    and "i < length reqs"
  shows "loopTrace rng i False reqs p reqs' p' rs"
proof -
  have e: "reqs' = take i reqs @ rand_Shuffle rng (drop i reqs)"
    using assms(1) by (simp add: loopTrace_def)
  have "length reqs' = length reqs" using assms(2) by (simp add: e length_rand_Shuffle)
  moreover have "take i reqs' = take i reqs" using assms(2) by (simp add: e)
  moreover have "\<exists>k. reqs' = take k reqs @ rand_Shuffle rng (drop k reqs)" using e by blast
  ultimately show ?thesis using assms(1) unfolding loopTrace_def by blast
qed

lemma requestLoop_trace:
  "requestLoop io rng lp i sh reqs p = Inr (m, reqs', p') \<Longrightarrow>
   \<exists>rs. loopTrace rng i sh reqs p reqs' p' rs"
proof (induction "2 * (length reqs - i) + (if sh then 0 else 1 :: nat)"
    arbitrary: i sh reqs p rule: less_induct)
  case less
  note res = less.prems
  show ?case
  proof (cases "i < length reqs")
    case False
    then have "reqs' = reqs" "p' = p" using res by (simp_all add: requestLoop_done)
    then show ?thesis using loopTrace_done by blast
  next
    case i: True
    let ?r = "reqs ! i"
    have dec: "2 * (length reqs - Suc i) + (if sh then 0 else 1 :: nat)
                 < 2 * (length reqs - i) + (if sh then 0 else 1)"
      using i by auto
    show ?thesis
    proof (cases "?r \<in> cancelledRequests p")
      case True
      then have "requestLoop io rng lp (Suc i) sh reqs p = Inr (m, reqs', p')"
        using res i by (simp add: requestLoop_skip)
      from less.hyps[OF dec this]
      obtain rs where "loopTrace rng (Suc i) sh reqs p reqs' p' rs" by blast
      then show ?thesis using loopTrace_skip i by blast
    next
      case nc: False
      show ?thesis
      proof (cases "nominalMaxRequests p \<le> int (card (actualRequests p))")
        case True
        then have "reqs' = reqs" "p' = p"
          using res i nc by (simp_all add: requestLoop_full)
        then show ?thesis using loopTrace_done by blast
      next
        case False
        then have cap: "int (card (actualRequests p)) < nominalMaxRequests p" by simp
        show ?thesis
        proof (cases "otherPending reqs p < lp")
          case True
          then show ?thesis using res i nc cap by (simp add: requestLoop_panic)
        next
          case False
          then have lp: "lp \<le> otherPending reqs p" by simp
          show ?thesis
          proof (cases "\<not> sh \<and> 0 < otherPending reqs p")
            case True
            let ?reqs2 = "take i reqs @ rand_Shuffle rng (drop i reqs)"
            have sh: "sh = False" using True by simp
            have l2: "length ?reqs2 = length reqs" using i by (simp add: length_rand_Shuffle)
            have "requestLoop io rng lp i True ?reqs2 p = Inr (m, reqs', p')"
              using res i nc cap lp True by (simp add: requestLoop_shuffle)
            moreover have "2 * (length ?reqs2 - i) + (if True then 0 else 1 :: nat)
                 < 2 * (length reqs - i) + (if sh then 0 else 1)"
              unfolding l2 sh by simp
            ultimately obtain rs where "loopTrace rng i True ?reqs2 p reqs' p' rs"
              using less.hyps by blast
            then show ?thesis unfolding sh using loopTrace_shuffled i by blast
          next
            case False
            then have ns: "sh \<or> otherPending reqs p \<le> 0" by auto
            have step: "requestLoop io rng lp i sh reqs p =
                (if fst (mustRequest io ?r p)
                 then requestLoop io rng lp (Suc i) sh reqs (snd (mustRequest io ?r p))
                 else Inr (False, reqs, snd (mustRequest io ?r p)))"
              using i nc cap lp ns by (rule requestLoop_request)
            show ?thesis
            proof (rule mustRequest_cases[of ?r p io])
              assume held: "?r \<in> actualRequests p" "mustRequest io ?r p = (True, p)"
              then have "requestLoop io rng lp (Suc i) sh reqs p = Inr (m, reqs', p')"
                using res step by simp
              from less.hyps[OF dec this]
              obtain rs where "loopTrace rng (Suc i) sh reqs p reqs' p' rs" by blast
              then show ?thesis using loopTrace_skip i by blast
            next
              let ?p1 = "p\<lparr>actualRequests := insert ?r (actualRequests p),
                   pendingRequests := (pendingRequests p)(?r := pendingRequests p ?r + 1),
                   emitted := emitted p @ [EmitRequest ?r]\<rparr>"
              assume sent: "?r \<notin> actualRequests p" "io (emitted p) (EmitRequest ?r)"
                "mustRequest io ?r p = (True, ?p1)"
              have "requestLoop io rng lp (Suc i) sh reqs ?p1 = Inr (m, reqs', p')"
                using res step sent by simp
              from less.hyps[OF dec this]
              obtain rs where "loopTrace rng (Suc i) sh reqs ?p1 reqs' p' rs" by blast
              from loopTrace_sent[OF this i sent(1) nc] show ?thesis by blast
            next
              assume failed: "?r \<notin> actualRequests p" "\<not> io (emitted p) (EmitRequest ?r)"
                "mustRequest io ?r p = (False, p\<lparr>emitted := emitted p @ [EmitRequest ?r]\<rparr>)"
              have "Inr (False, reqs, p\<lparr>emitted := emitted p @ [EmitRequest ?r]\<rparr>) =
                      (Inr (m, reqs', p') :: panic + bool \<times> RequestIndex list \<times> Peer)"
                using res step failed(3) by auto
              then have "reqs' = reqs" "p' = p\<lparr>emitted := emitted p @ [EmitRequest ?r]\<rparr>"
                by auto
              then show ?thesis using loopTrace_failed[OF i failed(1) nc] by blast
            qed
          qed
        qed
      qed
    qed
  qed
qed

lemma pendingOK_otherPending: "pendingOK p \<Longrightarrow> 0 \<le> otherPending reqs p"
  unfolding pendingOK_def otherPending_def Let_def by auto

lemma pendingOK_mustRequest: "pendingOK p \<Longrightarrow> pendingOK (snd (mustRequest io r p))"
  unfolding pendingOK_def mustRequest_def
  by (auto simp: add_increasing2)

lemma pendingOK_emitted: "pendingOK (p\<lparr>emitted := e\<rparr>) = pendingOK p"
  by (simp add: pendingOK_def)

lemma pendingOK_cancel:
  "pendingOK p \<Longrightarrow> r \<in> actualRequests p \<Longrightarrow> pendingOK (snd (cancel io r p))"
  unfolding pendingOK_def cancel_def
  by auto

lemma requestLoop_returns:
  "pendingOK p \<Longrightarrow> \<exists>m reqs' p'. requestLoop io rng 0 i sh reqs p = Inr (m, reqs', p')"
proof (induction "2 * (length reqs - i) + (if sh then 0 else 1 :: nat)"
    arbitrary: i sh reqs p rule: less_induct)
  case less
  note ok = less.prems
  note lp = pendingOK_otherPending[OF ok, of reqs]
  show ?case
  proof (cases "i < length reqs")
    case False
    then show ?thesis by (auto simp: requestLoop_done)
  next
    case i: True
    let ?r = "reqs ! i"
    have dec: "2 * (length reqs - Suc i) + (if sh then 0 else 1 :: nat)
                 < 2 * (length reqs - i) + (if sh then 0 else 1)"
      using i by auto
    show ?thesis
    proof (cases "?r \<in> cancelledRequests p")
      case True
      then show ?thesis using less.hyps[OF dec ok] i by (simp add: requestLoop_skip)
    next
      case nc: False
      show ?thesis
      proof (cases "nominalMaxRequests p \<le> int (card (actualRequests p))")
        case True
        then show ?thesis using i nc by (auto simp: requestLoop_full)
      next
        case False
        then have cap: "int (card (actualRequests p)) < nominalMaxRequests p" by simp
        show ?thesis
        proof (cases "\<not> sh \<and> 0 < otherPending reqs p")
          case True
          let ?reqs2 = "take i reqs @ rand_Shuffle rng (drop i reqs)"
          have sh: "sh = False" using True by simp
          have l2: "length ?reqs2 = length reqs" using i by (simp add: length_rand_Shuffle)
          have "2 * (length ?reqs2 - i) + (if True then 0 else 1 :: nat)
                 < 2 * (length reqs - i) + (if sh then 0 else 1)"
            unfolding l2 sh by simp
          from less.hyps[OF this ok]
          show ?thesis using i nc cap lp True by (simp add: requestLoop_shuffle)
        next
          case False
          then have ns: "sh \<or> otherPending reqs p \<le> 0" by auto
          have step: "requestLoop io rng 0 i sh reqs p =
                (if fst (mustRequest io ?r p)
                 then requestLoop io rng 0 (Suc i) sh reqs (snd (mustRequest io ?r p))
                 else Inr (False, reqs, snd (mustRequest io ?r p)))"
            using i nc cap lp ns by (rule requestLoop_request)
          from less.hyps[OF dec pendingOK_mustRequest[OF ok]]
          show ?thesis unfolding step by auto
        qed
      qed
    qed
  qed
qed

lemma cancelIterate_trace:
  assumes "distinct cs" "set cs \<subseteq> actualRequests p"
  shows "\<exists>n \<le> length cs.
           emitted (snd (cancelIterate io cs p)) = emitted p @ map EmitCancel (take n cs) \<and>
           (fst (cancelIterate io cs p) \<longrightarrow>
              n = length cs \<and>
              actualRequests (snd (cancelIterate io cs p)) = actualRequests p - set cs) \<and>
           cancelledRequests (snd (cancelIterate io cs p)) = cancelledRequests p \<and>
           (pendingOK p \<longrightarrow> pendingOK (snd (cancelIterate io cs p)))"
  using assms
proof (induction cs arbitrary: p)
  case Nil
  then show ?case by simp
next
  case (Cons c cs)
  show ?case
  proof (cases "io (emitted p) (EmitCancel c)")
    case False
    then have "cancelIterate io (c # cs) p = (False, p\<lparr>emitted := emitted p @ [EmitCancel c]\<rparr>)"
      by (simp add: cancel_def)
    then show ?thesis
      by (intro exI[of _ 1]) (simp add: pendingOK_emitted)
  next
    case True
    let ?p1 = "p\<lparr>actualRequests := actualRequests p - {c},
                 pendingRequests := (pendingRequests p)(c := pendingRequests p c - 1),
                 emitted := emitted p @ [EmitCancel c]\<rparr>"
    have c1: "cancel io c p = (True, ?p1)" using True by (simp add: cancel_def)
    then have e: "cancelIterate io (c # cs) p = cancelIterate io cs ?p1" by simp
    have "distinct cs" "set cs \<subseteq> actualRequests ?p1"
      using Cons.prems by auto
    from Cons.IH[OF this]
    obtain n where n: "n \<le> length cs"
      "emitted (snd (cancelIterate io cs ?p1)) = emitted ?p1 @ map EmitCancel (take n cs)"
      "fst (cancelIterate io cs ?p1) \<longrightarrow>
              n = length cs \<and>
              actualRequests (snd (cancelIterate io cs ?p1)) = actualRequests ?p1 - set cs"
      "cancelledRequests (snd (cancelIterate io cs ?p1)) = cancelledRequests ?p1"
      "pendingOK ?p1 \<longrightarrow> pendingOK (snd (cancelIterate io cs ?p1))"
      by blast
    have ok1: "pendingOK p \<longrightarrow> pendingOK ?p1"
      using pendingOK_cancel[of p c io] Cons.prems(2) c1 by simp
    show ?thesis
      unfolding e
      using n ok1 by (intro exI[of _ "Suc n"]) auto
  qed
qed

lemma scenarioF_cancels:
  "sorted_list_of_set ({10, 11, 12} - set [12, 13, 14 :: 32 word]) = [10, 11]"
  by code_simp

text \<open>
  C8, as stated, fails on a pass whose first output fails: in Scenario F with
  \<^verbatim>\<open>setInterested\<close> returning false the pass ends there and neither 10 nor 11 is
  cancelled.
\<close>

theorem failed_interest_no_cancel:
  "applyRequestState (\<lambda>tr e. False) (\<lambda>i. 0) scenarioF_desired scenarioF_peer =
     Inr (False, scenarioF_peer\<lparr>emitted := [EmitInterested True]\<rparr>) \<and>
   sorted_list_of_set (actualRequests scenarioF_peer - set (Requests scenarioF_desired)) =
     [10, 11]"
  using scenarioF_cancels
  by (simp add: applyRequestState_def setInterested_def scenarioF_desired_def
      scenarioF_peer_def)

lemma cancelIterate_spec:
  "\<exists>out. specCancels io cs (emitted p) = (fst (cancelIterate io cs p), out) \<and>
         emitted (snd (cancelIterate io cs p)) = emitted p @ map EmitCancel out \<and>
         nominalMaxRequests (snd (cancelIterate io cs p)) = nominalMaxRequests p"
proof (induction cs arbitrary: p)
  case Nil
  then show ?case by simp
next
  case (Cons c cs)
  show ?case
  proof (cases "io (emitted p) (EmitCancel c)")
    case False
    then show ?thesis by (simp add: cancel_def)
  next
    case True
    let ?p1 = "p\<lparr>actualRequests := actualRequests p - {c},
                 pendingRequests := (pendingRequests p)(c := pendingRequests p c - 1),
                 emitted := emitted p @ [EmitCancel c]\<rparr>"
    have c1: "cancel io c p = (True, ?p1)" using True by (simp add: cancel_def)
    then have e: "cancelIterate io (c # cs) p = cancelIterate io cs ?p1" by simp
    from Cons.IH[of ?p1] obtain out where
      out: "specCancels io cs (emitted ?p1) = (fst (cancelIterate io cs ?p1), out)"
        "emitted (snd (cancelIterate io cs ?p1)) = emitted ?p1 @ map EmitCancel out"
        "nominalMaxRequests (snd (cancelIterate io cs ?p1)) = nominalMaxRequests ?p1"
      by blast
    have "specCancels io (c # cs) (emitted p) = (fst (cancelIterate io cs ?p1), c # out)"
      using True out(1) by simp
    then show ?thesis unfolding e using out(2,3) by simp
  qed
qed

lemma requestLoop_prefix:
  assumes "requestLoop io rng lp i sh reqs p = Inr (m, reqs', p')"
  shows "length reqs' = length reqs \<and> take i reqs' = take i reqs"
  using requestLoop_trace[OF assms] by (auto simp: loopTrace_def)

lemma requestLoop_drop:
  assumes "requestLoop io rng lp (Suc i) sh reqs p = Inr (m, reqs', p')" "i < length reqs"
  shows "drop i reqs' = reqs ! i # drop (Suc i) reqs'"
proof -
  from requestLoop_prefix[OF assms(1)]
  have l: "length reqs' = length reqs" and t: "take (Suc i) reqs' = take (Suc i) reqs"
    by simp_all
  have i': "i < length reqs'" using l assms(2) by simp
  from take_Suc_eq_D(2)[OF t i' assms(2)] have "reqs' ! i = reqs ! i" .
  then show ?thesis using Cons_nth_drop_Suc[OF i'] by simp
qed

lemma requestLoop_spec:
  "requestLoop io rng lp i sh reqs p = Inr (m, reqs', p') \<Longrightarrow>
   \<exists>rs. specRequests io (nominalMaxRequests p) (cancelledRequests p) (drop i reqs')
           (actualRequests p) (emitted p) = (m, rs) \<and>
        emitted p' = emitted p @ map EmitRequest rs"
proof (induction "2 * (length reqs - i) + (if sh then 0 else 1 :: nat)"
    arbitrary: i sh reqs p rule: less_induct)
  case less
  note res = less.prems
  let ?cap = "nominalMaxRequests p"
  let ?canc = "cancelledRequests p"
  show ?case
  proof (cases "i < length reqs")
    case False
    then have "reqs' = reqs" "p' = p" "m" using res by (simp_all add: requestLoop_done)
    then show ?thesis using False by simp
  next
    case i: True
    let ?r = "reqs ! i"
    have dec: "2 * (length reqs - Suc i) + (if sh then 0 else 1 :: nat)
                 < 2 * (length reqs - i) + (if sh then 0 else 1)"
      using i by auto
    have d0: "drop i reqs = ?r # drop (Suc i) reqs"
      using i by (simp add: Cons_nth_drop_Suc)
    show ?thesis
    proof (cases "?r \<in> ?canc")
      case True
      then have n: "requestLoop io rng lp (Suc i) sh reqs p = Inr (m, reqs', p')"
        using res i by (simp add: requestLoop_skip)
      from less.hyps[OF dec n] obtain rs where
        "specRequests io ?cap ?canc (drop (Suc i) reqs') (actualRequests p) (emitted p) = (m, rs)"
        "emitted p' = emitted p @ map EmitRequest rs"
        by blast
      then show ?thesis unfolding requestLoop_drop[OF n i] using True by simp
    next
      case nc: False
      show ?thesis
      proof (cases "?cap \<le> int (card (actualRequests p))")
        case True
        then have "reqs' = reqs" "p' = p" "m"
          using res i nc by (simp_all add: requestLoop_full)
        then show ?thesis using True nc d0 by simp
      next
        case False
        then have cap: "int (card (actualRequests p)) < ?cap" by simp
        show ?thesis
        proof (cases "otherPending reqs p < lp")
          case True
          then show ?thesis using res i nc cap by (simp add: requestLoop_panic)
        next
          case False
          then have lp: "lp \<le> otherPending reqs p" by simp
          show ?thesis
          proof (cases "\<not> sh \<and> 0 < otherPending reqs p")
            case True
            let ?reqs2 = "take i reqs @ rand_Shuffle rng (drop i reqs)"
            have sh: "sh = False" using True by simp
            have l2: "length ?reqs2 = length reqs" using i by (simp add: length_rand_Shuffle)
            have "requestLoop io rng lp i True ?reqs2 p = Inr (m, reqs', p')"
              using res i nc cap lp True by (simp add: requestLoop_shuffle)
            moreover have "2 * (length ?reqs2 - i) + (if True then 0 else 1 :: nat)
                 < 2 * (length reqs - i) + (if sh then 0 else 1)"
              unfolding l2 sh by simp
            ultimately show ?thesis using less.hyps by blast
          next
            case False
            then have ns: "sh \<or> otherPending reqs p \<le> 0" by auto
            have step: "requestLoop io rng lp i sh reqs p =
                (if fst (mustRequest io ?r p)
                 then requestLoop io rng lp (Suc i) sh reqs (snd (mustRequest io ?r p))
                 else Inr (False, reqs, snd (mustRequest io ?r p)))"
              using i nc cap lp ns by (rule requestLoop_request)
            show ?thesis
            proof (rule mustRequest_cases[of ?r p io])
              assume held: "?r \<in> actualRequests p" "mustRequest io ?r p = (True, p)"
              then have n: "requestLoop io rng lp (Suc i) sh reqs p = Inr (m, reqs', p')"
                using res step by simp
              from less.hyps[OF dec n] obtain rs where
                "specRequests io ?cap ?canc (drop (Suc i) reqs') (actualRequests p) (emitted p)
                   = (m, rs)"
                "emitted p' = emitted p @ map EmitRequest rs"
                by blast
              then show ?thesis
                unfolding requestLoop_drop[OF n i] using nc cap held(1) by simp
            next
              let ?p1 = "p\<lparr>actualRequests := insert ?r (actualRequests p),
                   pendingRequests := (pendingRequests p)(?r := pendingRequests p ?r + 1),
                   emitted := emitted p @ [EmitRequest ?r]\<rparr>"
              assume sent: "?r \<notin> actualRequests p" "io (emitted p) (EmitRequest ?r)"
                "mustRequest io ?r p = (True, ?p1)"
              have n: "requestLoop io rng lp (Suc i) sh reqs ?p1 = Inr (m, reqs', p')"
                using res step sent by simp
              from less.hyps[OF dec n] obtain rs where
                rs: "specRequests io ?cap ?canc (drop (Suc i) reqs')
                       (insert ?r (actualRequests p)) (emitted p @ [EmitRequest ?r]) = (m, rs)"
                  "emitted p' = (emitted p @ [EmitRequest ?r]) @ map EmitRequest rs"
                by auto
              have "specRequests io ?cap ?canc (?r # drop (Suc i) reqs')
                      (actualRequests p) (emitted p) = (m, ?r # rs)"
                using nc cap sent(1,2) rs(1) by simp
              then show ?thesis
                unfolding requestLoop_drop[OF n i] using rs(2) by (intro exI[of _ "?r # rs"]) simp
            next
              assume failed: "?r \<notin> actualRequests p" "\<not> io (emitted p) (EmitRequest ?r)"
                "mustRequest io ?r p = (False, p\<lparr>emitted := emitted p @ [EmitRequest ?r]\<rparr>)"
              have "Inr (False, reqs, p\<lparr>emitted := emitted p @ [EmitRequest ?r]\<rparr>) =
                      (Inr (m, reqs', p') :: panic + bool \<times> RequestIndex list \<times> Peer)"
                using res step failed(3) by auto
              then have "reqs' = reqs" "p' = p\<lparr>emitted := emitted p @ [EmitRequest ?r]\<rparr>" "\<not> m"
                by auto
              then show ?thesis using nc cap failed(1,2) d0 by simp
            qed
          qed
        qed
      qed
    qed
  qed
qed

lemma map_EmitCancel_inj: "map EmitCancel xs = map EmitCancel ys \<Longrightarrow> xs = ys"
  using inj_map_eq_map[of EmitCancel xs ys] by (simp add: inj_on_def)

lemma map_EmitRequest_inj: "map EmitRequest xs = map EmitRequest ys \<Longrightarrow> xs = ys"
  using inj_map_eq_map[of EmitRequest xs ys] by (simp add: inj_on_def)

lemma set_shuffled_tail:
  "reqs' = reqs \<or> (\<exists>k. reqs' = take k reqs @ rand_Shuffle rng (drop k reqs)) \<Longrightarrow>
   set reqs' = set reqs"
proof -
  have "set (take k reqs @ rand_Shuffle rng (drop k reqs)) = set reqs" for k
  proof -
    have "set (take k reqs @ rand_Shuffle rng (drop k reqs)) = set (take k reqs @ drop k reqs)"
      by (simp only: set_append set_rand_Shuffle)
    then show ?thesis by (simp only: append_take_drop_id)
  qed
  then show "reqs' = reqs \<or> (\<exists>k. reqs' = take k reqs @ rand_Shuffle rng (drop k reqs)) \<Longrightarrow>
   set reqs' = set reqs" by auto
qed

lemma specRequests_done:
  "specRequests io cap canc reqs act tr = (True, rs) \<Longrightarrow>
   (\<forall>r \<in> set reqs. r \<in> canc \<or> r \<in> act \<or> r \<in> set rs) \<or>
   cap \<le> int (card act) + int (length rs)"
proof (induction reqs arbitrary: act tr rs)
  case Nil
  then show ?case by simp
next
  case (Cons r reqs)
  show ?case
  proof (cases "r \<in> canc")
    case True
    then have "specRequests io cap canc reqs act tr = (True, rs)" using Cons.prems by simp
    from Cons.IH[OF this] True show ?thesis by auto
  next
    case nc: False
    show ?thesis
    proof (cases "cap \<le> int (card act)")
      case True
      then show ?thesis by simp
    next
      case cap: False
      show ?thesis
      proof (cases "r \<in> act")
        case True
        then have "specRequests io cap canc reqs act tr = (True, rs)"
          using Cons.prems nc cap by simp
        from Cons.IH[OF this] True show ?thesis by auto
      next
        case na: False
        show ?thesis
        proof (cases "io tr (EmitRequest r)")
          case False
          then show ?thesis using Cons.prems nc cap na by simp
        next
          case True
          then obtain out where
            out: "specRequests io cap canc reqs (insert r act) (tr @ [EmitRequest r]) = (True, out)"
            and rs: "rs = r # out"
            using Cons.prems nc cap na by (auto split: prod.splits)
          have c: "card (insert r act) = Suc (card act)" using na by simp
          from Cons.IH[OF out]
          have "(\<forall>x \<in> set reqs. x \<in> canc \<or> x \<in> insert r act \<or> x \<in> set out) \<or>
                cap \<le> int (card (insert r act)) + int (length out)" .
          then show ?thesis
          proof
            assume "\<forall>x \<in> set reqs. x \<in> canc \<or> x \<in> insert r act \<or> x \<in> set out"
            then have "\<forall>x \<in> set (r # reqs). x \<in> canc \<or> x \<in> act \<or> x \<in> set rs"
              unfolding rs by auto
            then show ?thesis ..
          next
            assume "cap \<le> int (card (insert r act)) + int (length out)"
            then have "cap \<le> int (card act) + int (length rs)" unfolding c rs by simp
            then show ?thesis ..
          qed
        qed
      qed
    qed
  qed
qed

lemma specRequests_failed:
  "specRequests io cap canc reqs act tr = (False, rs) \<Longrightarrow>
   rs \<noteq> [] \<and> \<not> io (tr @ map EmitRequest (butlast rs)) (EmitRequest (last rs))"
proof (induction reqs arbitrary: act tr rs)
  case Nil
  then show ?case by simp
next
  case (Cons r reqs)
  show ?case
  proof (cases "r \<in> canc \<or> r \<in> act")
    case True
    then have "cap \<le> int (card act) \<or> specRequests io cap canc reqs act tr = (False, rs)"
      using Cons.prems by (auto split: if_splits)
    then show ?thesis using Cons.IH Cons.prems True by (auto split: if_splits)
  next
    case False
    then have nc: "r \<notin> canc" and na: "r \<notin> act" by simp_all
    show ?thesis
    proof (cases "cap \<le> int (card act)")
      case True
      then show ?thesis using Cons.prems nc by simp
    next
      case cap: False
      show ?thesis
      proof (cases "io tr (EmitRequest r)")
        case False
        then have "rs = [r]" using Cons.prems nc cap na by simp
        then show ?thesis using False by simp
      next
        case True
        then obtain out where
          out: "specRequests io cap canc reqs (insert r act) (tr @ [EmitRequest r]) = (False, out)"
          and rs: "rs = r # out"
          using Cons.prems nc cap na by (auto split: prod.splits)
        from Cons.IH[OF out] have o: "out \<noteq> []"
          "\<not> io ((tr @ [EmitRequest r]) @ map EmitRequest (butlast out)) (EmitRequest (last out))"
          by simp_all
        then show ?thesis unfolding rs by simp
      qed
    qed
  qed
qed

text \<open>
  C8, amended.  A pass that does not panic (none does when the pending counts agree with
  the peer's requests) emits \<^verbatim>\<open>setInterested\<close> first, then cancels, then requests, and
  these are the outputs of steps 1 to 3 of the spec on the slice as the loop leaves it,
  which is the desired slice or the desired slice with its tail shuffled from some index
  on: the cancels are those of actual minus desired in ascending order up to the first
  that fails; the requests are emitted only after all the cancels, in the order of the
  slice, until the cap is reached or a request fails, and none is for a request index
  that the peer already held or had cancelled.  So a pass that returns \<^verbatim>\<open>more\<close> has
  emitted every desired request that the peer neither held nor had cancelled, or has
  filled the peer's requests up to the cap; and the last request of a pass that does not
  return \<^verbatim>\<open>more\<close> is one that failed.
\<close>

theorem emission_order:
  "(pendingOK p \<longrightarrow> (\<exists>m p'. applyRequestState io rng nxt p = Inr (m, p'))) \<and>
   (\<forall>m p'. applyRequestState io rng nxt p = Inr (m, p') \<longrightarrow>
      (\<exists>cs rs reqs'.
         emitted p' =
           emitted p @ EmitInterested (Interested nxt) # map EmitCancel cs @ map EmitRequest rs \<and>
         (reqs' = Requests nxt \<or>
          (\<exists>k. reqs' = take k (Requests nxt) @ rand_Shuffle rng (drop k (Requests nxt)))) \<and>
         (m, cs, rs) = specPass io reqs' (Interested nxt) p \<and>
         prefix cs (sorted_list_of_set (actualRequests p - set (Requests nxt))) \<and>
         (m \<or> rs \<noteq> [] \<longrightarrow>
            cs = sorted_list_of_set (actualRequests p - set (Requests nxt))) \<and>
         subseq rs reqs' \<and>
         distinct rs \<and> set rs \<inter> actualRequests p = {} \<and>
         set rs \<inter> cancelledRequests p = {} \<and>
         (m \<longrightarrow>
            (\<forall>r \<in> set (Requests nxt).
                r \<in> cancelledRequests p \<or> r \<in> actualRequests p \<or> r \<in> set rs) \<or>
            nominalMaxRequests p
              \<le> int (card (actualRequests p \<inter> set (Requests nxt))) + int (length rs)) \<and>
         (\<not> m \<and> rs \<noteq> [] \<longrightarrow>
            \<not> io (emitted p @ EmitInterested (Interested nxt) # map EmitCancel cs @
                    map EmitRequest (butlast rs))
                 (EmitRequest (last rs)))))"
proof (intro conjI allI impI)
  let ?reqs = "Requests nxt"
  let ?C = "sorted_list_of_set (actualRequests p - set ?reqs)"
  let ?b = "Interested nxt"
  let ?p1 = "p\<lparr>emitted := emitted p @ [EmitInterested ?b]\<rparr>"
  have si: "setInterested io ?b p = (io (emitted p) (EmitInterested ?b), ?p1)"
    by (simp add: setInterested_def)
  have dC: "distinct ?C" and sC: "set ?C = actualRequests p - set ?reqs"
    by simp_all
  then have sub: "set ?C \<subseteq> actualRequests ?p1" by auto
  from cancelIterate_trace[OF dC sub, of io]
  obtain n where n: "n \<le> length ?C"
    "emitted (snd (cancelIterate io ?C ?p1)) = emitted ?p1 @ map EmitCancel (take n ?C)"
    "fst (cancelIterate io ?C ?p1) \<longrightarrow>
       n = length ?C \<and>
       actualRequests (snd (cancelIterate io ?C ?p1)) = actualRequests ?p1 - set ?C"
    "cancelledRequests (snd (cancelIterate io ?C ?p1)) = cancelledRequests ?p1"
    "pendingOK ?p1 \<longrightarrow> pendingOK (snd (cancelIterate io ?C ?p1))"
    by blast
  let ?p2 = "snd (cancelIterate io ?C ?p1)"
  from cancelIterate_spec[of io ?C ?p1] n(2)
  have sc: "specCancels io ?C (emitted p @ [EmitInterested ?b]) =
              (fst (cancelIterate io ?C ?p1), take n ?C)"
    and cap2: "nominalMaxRequests ?p2 = nominalMaxRequests p"
    by (auto dest: map_EmitCancel_inj)
  {
    assume ok: "pendingOK p"
    then have "pendingOK ?p2" using n(5) by (simp add: pendingOK_emitted)
    from requestLoop_returns[OF this, of io rng 0 False ?reqs]
    obtain m reqs' p3 where "requestLoop io rng 0 0 False ?reqs ?p2 = Inr (m, reqs', p3)"
      by blast
    then show "\<exists>m p'. applyRequestState io rng nxt p = Inr (m, p')"
      unfolding applyRequestState_def si
      by (auto simp: Let_def split: prod.splits)
  }
  fix m p'
  assume res: "applyRequestState io rng nxt p = Inr (m, p')"
  show "\<exists>cs rs reqs'.
         emitted p' =
           emitted p @ EmitInterested ?b # map EmitCancel cs @ map EmitRequest rs \<and>
         (reqs' = ?reqs \<or> (\<exists>k. reqs' = take k ?reqs @ rand_Shuffle rng (drop k ?reqs))) \<and>
         (m, cs, rs) = specPass io reqs' ?b p \<and>
         prefix cs ?C \<and>
         (m \<or> rs \<noteq> [] \<longrightarrow> cs = ?C) \<and>
         subseq rs reqs' \<and>
         distinct rs \<and> set rs \<inter> actualRequests p = {} \<and>
         set rs \<inter> cancelledRequests p = {} \<and>
         (m \<longrightarrow>
            (\<forall>r \<in> set ?reqs.
                r \<in> cancelledRequests p \<or> r \<in> actualRequests p \<or> r \<in> set rs) \<or>
            nominalMaxRequests p \<le> int (card (actualRequests p \<inter> set ?reqs)) + int (length rs)) \<and>
         (\<not> m \<and> rs \<noteq> [] \<longrightarrow>
            \<not> io (emitted p @ EmitInterested ?b # map EmitCancel cs @
                    map EmitRequest (butlast rs))
                 (EmitRequest (last rs)))"
  proof (cases "io (emitted p) (EmitInterested ?b)")
    case False
    then have "p' = ?p1" "\<not> m"
      using res unfolding applyRequestState_def si by auto
    then show ?thesis
      using False
      by (intro exI[of _ "[]"] exI[of _ ?reqs]) (simp add: specPass_def)
  next
    case io1: True
    show ?thesis
    proof (cases "fst (cancelIterate io ?C ?p1)")
      case False
      then have "p' = ?p2" "\<not> m"
        using res io1 unfolding applyRequestState_def si
        by (auto split: prod.splits)
      moreover have "specPass io ?reqs ?b p = (False, take n ?C, [])"
        using io1 sc False by (simp add: specPass_def)
      ultimately show ?thesis
        using n(2)
        by (intro exI[of _ "take n ?C"] exI[of _ "[]"] exI[of _ ?reqs])
           (simp add: take_is_prefix)
    next
      case c: True
      then have nC: "take n ?C = ?C" and a2: "actualRequests ?p2 = actualRequests p \<inter> set ?reqs"
        using n(3) sC by auto
      obtain m3 reqs' p3 where l: "requestLoop io rng 0 0 False ?reqs ?p2 = Inr (m3, reqs', p3)"
        and e3: "emitted p' = emitted p3" and m3: "m = m3"
        using res io1 c unfolding applyRequestState_def si
        by (auto simp: Let_def split: prod.splits sum.splits if_splits)
      from requestLoop_trace[OF l]
      obtain rs where rs: "loopTrace rng 0 False ?reqs ?p2 reqs' p3 rs" by blast
      then have t: "emitted p3 = emitted ?p2 @ map EmitRequest rs"
        "subseq rs reqs'" "distinct rs"
        "set rs \<inter> actualRequests ?p2 = {}" "set rs \<inter> cancelledRequests ?p2 = {}"
        "reqs' = ?reqs \<or> (\<exists>k. reqs' = take k ?reqs @ rand_Shuffle rng (drop k ?reqs))"
        by (auto simp: loopTrace_def)
      have sr: "set reqs' = set ?reqs" by (rule set_shuffled_tail[OF t(6)])
      have "set rs \<subseteq> set reqs'"
      proof
        fix x assume "x \<in> set rs"
        with t(2) obtain y where "y \<in> set reqs'" "x = y" by (rule list_emb_set)
        then show "x \<in> set reqs'" by simp
      qed
      then have "set rs \<subseteq> set ?reqs" using sr by simp
      then have da: "set rs \<inter> actualRequests p = {}"
        using t(4) a2 by auto
      have e2: "emitted ?p2 = emitted p @ EmitInterested ?b # map EmitCancel ?C"
        using n(2) nC by simp
      from requestLoop_spec[OF l] t(1)
      have "specRequests io (nominalMaxRequests ?p2) (cancelledRequests ?p2) reqs'
              (actualRequests ?p2) (emitted ?p2) = (m3, rs)"
        by (auto dest: map_EmitRequest_inj)
      then have sq: "specRequests io (nominalMaxRequests p) (cancelledRequests p) reqs'
              (actualRequests p \<inter> set reqs')
              (emitted p @ EmitInterested ?b # map EmitCancel ?C) = (m, rs)"
        unfolding cap2 n(4) a2 e2 sr m3 by simp
      have sp: "specPass io reqs' ?b p = (m, ?C, rs)"
        unfolding specPass_def sr using io1 sc c nC sq[unfolded sr] by simp
      have alldone: "m \<longrightarrow>
            (\<forall>r \<in> set ?reqs.
                r \<in> cancelledRequests p \<or> r \<in> actualRequests p \<or> r \<in> set rs) \<or>
            nominalMaxRequests p \<le> int (card (actualRequests p \<inter> set ?reqs)) + int (length rs)"
      proof
        assume m
        with sq have "specRequests io (nominalMaxRequests p) (cancelledRequests p) reqs'
              (actualRequests p \<inter> set reqs')
              (emitted p @ EmitInterested ?b # map EmitCancel ?C) = (True, rs)" by simp
        from specRequests_done[OF this] show
          "(\<forall>r \<in> set ?reqs.
                r \<in> cancelledRequests p \<or> r \<in> actualRequests p \<or> r \<in> set rs) \<or>
            nominalMaxRequests p \<le> int (card (actualRequests p \<inter> set ?reqs)) + int (length rs)"
          unfolding sr by blast
      qed
      have failed: "\<not> m \<and> rs \<noteq> [] \<longrightarrow>
            \<not> io (emitted p @ EmitInterested ?b # map EmitCancel ?C @
                    map EmitRequest (butlast rs))
                 (EmitRequest (last rs))"
      proof
        assume "\<not> m \<and> rs \<noteq> []"
        with sq have "specRequests io (nominalMaxRequests p) (cancelledRequests p) reqs'
              (actualRequests p \<inter> set reqs')
              (emitted p @ EmitInterested ?b # map EmitCancel ?C) = (False, rs)" by simp
        from specRequests_failed[OF this] show
          "\<not> io (emitted p @ EmitInterested ?b # map EmitCancel ?C @
                    map EmitRequest (butlast rs))
                 (EmitRequest (last rs))" by simp
      qed
      show ?thesis
        using t(1,2,3,5,6) da n(2,4) nC e3 sp alldone failed
        by (intro exI[of _ ?C] exI[of _ rs] exI[of _ reqs']) simp
    qed
  qed
qed

theorem emission_order_witness:
  "pendingOK scenarioF_peer \<and>
   (\<exists>m p'. applyRequestState (\<lambda>tr e. True) (\<lambda>i. 0) scenarioF_desired scenarioF_peer =
             Inr (m, p') \<and>
           emitted p' =
             [EmitInterested True, EmitCancel 10, EmitCancel 11, EmitRequest 13,
              EmitRequest 14])"
proof -
  have ok: "pendingOK scenarioF_peer"
    by (auto simp: pendingOK_def scenarioF_peer_def)
  have ev: "(case applyRequestState (\<lambda>tr e. True) (\<lambda>i. 0) scenarioF_desired scenarioF_peer of
               Inl e \<Rightarrow> []
             | Inr (m, p) \<Rightarrow> emitted p) =
            [EmitInterested True, EmitCancel 10, EmitCancel 11, EmitRequest 13, EmitRequest 14]"
    using scenarioF_cancels
    by (simp add: applyRequestState_def scenarioF_desired_def scenarioF_peer_def
        setInterested_def cancel_def requestLoop_steps otherPending_def mustRequest_def)
  from emission_order[of scenarioF_peer "\<lambda>tr e. True" "\<lambda>i. 0" scenarioF_desired] ok
  obtain m p' where
    r: "applyRequestState (\<lambda>tr e. True) (\<lambda>i. 0) scenarioF_desired scenarioF_peer = Inr (m, p')"
    by blast
  with ev have "emitted p' =
      [EmitInterested True, EmitCancel 10, EmitCancel 11, EmitRequest 13, EmitRequest 14]"
    by simp
  with ok r show ?thesis by blast
qed

subsection \<open>The allocator: what each pass keeps\<close>

lemma sameShape_refl: "sameShape s s"
  by (simp add: sameShape_def)

lemma sameShape_trans: "sameShape s s' \<Longrightarrow> sameShape s' s'' \<Longrightarrow> sameShape s s''"
  by (simp add: sameShape_def)

lemma pfp_peer_update:
  "pfp_peer ((ws[k := (ws ! k)\<lparr>requestsInPiece := n\<rparr>]) ! w) = pfp_peer (ws ! w)"
  by (cases "k < length ws"; cases "w = k") (simp_all add: list_update_beyond)

lemma peerOf_wrappers_update:
  "peerOf (s\<lparr>wrappers := (wrappers s)[k := (wrappers s ! k)\<lparr>requestsInPiece := n\<rparr>]\<rparr>) = peerOf s"
  by (rule ext) (simp add: peerOf_def pfp_peer_update)

lemma peerOf_simps [simp]:
  "peerOf (s\<lparr>peerStore := st\<rparr>) = peerOf s"
  "peerOf (s\<lparr>peersForPiece := ws\<rparr>) = peerOf s"
  "peerOf (s\<lparr>preallocated := pre\<rparr>) = peerOf s"
  "peerOf (s\<lparr>pendingChunksRemaining := n\<rparr>) = peerOf s"
  by (rule ext, simp add: peerOf_def)+

lemma pfp_addNextRequest_Inr:
  "pfp_addNextRequest w r s = Inr s' \<longleftrightarrow>
     r \<notin> nextState_Requests (peerStore s (peerOf s w)) \<and>
     s' = s\<lparr>peerStore := (peerStore s)
                (peerOf s w := (peerStore s (peerOf s w))
                   \<lparr>nextState_Requests := insert r (nextState_Requests (peerStore s (peerOf s w)))\<rparr>),
             wrappers := (wrappers s)
               [w := (wrappers s ! w)\<lparr>requestsInPiece := requestsInPiece (wrappers s ! w) + 1\<rparr>]\<rparr>"
  by (auto simp: pfp_addNextRequest_def addNextRequest_def)

lemma pfp_addNextRequest_Inl:
  "pfp_addNextRequest w r s = Inl e \<longleftrightarrow>
     r \<in> nextState_Requests (peerStore s (peerOf s w)) \<and> e = ShouldOnlyAddOnce"
  by (auto simp: pfp_addNextRequest_def addNextRequest_def)

lemma pfp_addNextRequest_shape:
  "pfp_addNextRequest w r s = Inr s' \<Longrightarrow>
   sameShape s s' \<and> peersForPiece s' = peersForPiece s \<and>
   pendingChunksRemaining s' = pendingChunksRemaining s"
  by (auto simp: pfp_addNextRequest_Inr sameShape_def fun_eq_iff peerOf_def pfp_peer_update)

lemma pfp_addNextRequest_Q:
  assumes "closedQ Q" "pfp_addNextRequest w r s = Inr s'"
    "canFitRequest (peerStore s (peerOf s w))" "Q (peerStore s a)"
  shows "Q (peerStore s' a)"
  using assms by (auto simp: pfp_addNextRequest_Inr closedQ_def)

lemma canFitRequest_Interested [simp]:
  "canFitRequest (rp\<lparr>nextState_Interested := b\<rparr>) = canFitRequest rp"
  by (simp add: canFitRequest_def)

lemma canFitRequest_remaining [simp]:
  "canFitRequest (rp\<lparr>requestablePiecesRemaining := n\<rparr>) = canFitRequest rp"
  by (simp add: canFitRequest_def)

lemma assignWalk_shape:
  "assignWalk p req ws s = Inr (b, s') \<Longrightarrow>
   sameShape s s' \<and> peersForPiece s' = peersForPiece s \<and>
   pendingChunksRemaining s' = pendingChunksRemaining s"
proof (induction ws arbitrary: s)
  case Nil
  then show ?case by (simp add: sameShape_refl)
next
  case (Cons w ws)
  let ?peer = "peerStore s (peerOf s w)"
  let ?s1 = "s\<lparr>peerStore := (peerStore s)(peerOf s w := ?peer\<lparr>nextState_Interested := True\<rparr>)\<rparr>"
  have s1: "sameShape s ?s1" by (simp add: sameShape_def)
  consider (skip) "assignWalk p req ws s = Inr (b, s')"
    | (choked) "assignWalk p req ws ?s1 = Inr (b, s')"
    | (add1) "pfp_addNextRequest w req ?s1 = Inr s'"
    | (add) "pfp_addNextRequest w req s = Inr s'"
    using Cons.prems by (auto simp: Let_def split: if_splits sum.splits)
  then show ?case
  proof cases
    case skip
    then show ?thesis using Cons.IH by blast
  next
    case choked
    from Cons.IH[OF this] s1 show ?thesis
      using sameShape_trans by fastforce
  next
    case add1
    from pfp_addNextRequest_shape[OF this] s1 show ?thesis
      using sameShape_trans by fastforce
  next
    case add
    then show ?thesis using pfp_addNextRequest_shape by blast
  qed
qed

lemma assignWalk_Q:
  assumes "closedQ Q"
  shows "assignWalk p req ws s = Inr (b, s') \<Longrightarrow> Q (peerStore s a) \<Longrightarrow> Q (peerStore s' a)"
proof (induction ws arbitrary: s)
  case Nil
  then show ?case by simp
next
  case (Cons w ws)
  let ?peer = "peerStore s (peerOf s w)"
  let ?s1 = "s\<lparr>peerStore := (peerStore s)(peerOf s w := ?peer\<lparr>nextState_Interested := True\<rparr>)\<rparr>"
  have q1: "Q (peerStore ?s1 a)"
    using Cons.prems(2) assms by (auto simp: closedQ_def)
  consider (skip) "assignWalk p req ws s = Inr (b, s')"
    | (choked) "assignWalk p req ws ?s1 = Inr (b, s')"
    | (add1) "canFitRequest ?peer" "pfp_addNextRequest w req ?s1 = Inr s'"
    | (add) "canFitRequest ?peer" "pfp_addNextRequest w req s = Inr s'"
    using Cons.prems(1) by (auto simp: Let_def split: if_splits sum.splits)
  then show ?case
  proof cases
    case skip
    then show ?thesis using Cons.IH Cons.prems(2) by blast
  next
    case choked
    then show ?thesis using Cons.IH q1 by blast
  next
    case add1
    have "canFitRequest (peerStore ?s1 (peerOf ?s1 w))" using add1(1) by simp
    from pfp_addNextRequest_Q[OF assms add1(2) this q1] show ?thesis .
  next
    case add
    from pfp_addNextRequest_Q[OF assms add(2) add(1) Cons.prems(2)] show ?thesis .
  qed
qed

lemma mset_insert_by: "insert_by lt x ys = Inr zs \<Longrightarrow> mset zs = add_mset x (mset ys)"
proof (induction ys arbitrary: zs)
  case Nil
  then show ?case by auto
next
  case (Cons y ys)
  then show ?case
    by (auto split: sum.splits bool.splits)
qed

lemma mset_sort_by: "sort_by lt xs = Inr ys \<Longrightarrow> mset ys = mset xs"
proof (induction xs arbitrary: ys)
  case Nil
  then show ?case by auto
next
  case (Cons x xs)
  then show ?case
    by (auto split: sum.splits dest: mset_insert_by)
qed

lemma sortPeersForPiece_Inr:
  "sortPeersForPiece p req s = Inr s' \<Longrightarrow>
   \<exists>ws. s' = s\<lparr>peersForPiece := ws\<rparr> \<and> mset ws = mset (peersForPiece s)"
  by (auto simp: sortPeersForPiece_def split: sum.splits dest: mset_sort_by)

lemma sortPeersForPiece_shape:
  "sortPeersForPiece p req s = Inr s' \<Longrightarrow>
   sameShape s s' \<and> peerStore s' = peerStore s \<and>
   pendingChunksRemaining s' = pendingChunksRemaining s \<and> wrappers s' = wrappers s"
  by (auto simp: sameShape_def dest!: sortPeersForPiece_Inr)

lemma freshChunk_shape:
  "freshChunk p chunk s = Inr s' \<Longrightarrow> sameShape s s'"
  unfolding freshChunk_def
  by (auto simp: sameShape_refl split: if_splits sum.splits
      dest!: sortPeersForPiece_shape assignWalk_shape)
     (auto simp: sameShape_def)

lemma freshChunk_Q:
  assumes "closedQ Q" "freshChunk p chunk s = Inr s'" "Q (peerStore s a)"
  shows "Q (peerStore s' a)"
proof -
  consider (kept) "s' = s"
    | (walk) s1 b s2 where "sortPeersForPiece p None s = Inr s1"
        "assignWalk p (chunkIndexToRequestIndex p chunk) (peersForPiece s1) s1 = Inr (b, s2)"
        "s' = s2\<lparr>pendingChunksRemaining := pendingChunksRemaining s2 - 1\<rparr>"
    using assms(2) unfolding freshChunk_def
    by (auto split: if_splits sum.splits)
  then show ?thesis
  proof cases
    case kept
    then show ?thesis using assms(3) by simp
  next
    case walk
    have "Q (peerStore s1 a)" using sortPeersForPiece_shape[OF walk(1)] assms(3) by simp
    from assignWalk_Q[OF assms(1) walk(2) this] show ?thesis by (simp add: walk(3))
  qed
qed

lemma freshChunks_shape:
  "freshChunks p chunks s = Inr s' \<Longrightarrow> sameShape s s'"
proof (induction chunks arbitrary: s)
  case Nil
  then show ?case by (simp add: sameShape_refl)
next
  case (Cons c cs)
  then show ?case
    by (auto split: sum.splits dest!: freshChunk_shape intro: sameShape_trans)
qed

lemma freshChunks_Q:
  assumes "closedQ Q"
  shows "freshChunks p chunks s = Inr s' \<Longrightarrow> Q (peerStore s a) \<Longrightarrow> Q (peerStore s' a)"
proof (induction chunks arbitrary: s)
  case Nil
  then show ?case by simp
next
  case (Cons c cs)
  then show ?case
    by (auto split: sum.splits dest: freshChunk_Q[OF assms])
qed

lemma foldl_decRequestsInPiece:
  "peerStore (foldl decRequestsInPiece s ws) = peerStore s \<and>
   sameShape s (foldl decRequestsInPiece s ws) \<and>
   peersForPiece (foldl decRequestsInPiece s ws) = peersForPiece s \<and>
   pendingChunksRemaining (foldl decRequestsInPiece s ws) = pendingChunksRemaining s"
proof (induction ws arbitrary: s)
  case Nil
  then show ?case by (simp add: sameShape_refl)
next
  case (Cons w ws)
  have "sameShape s (decRequestsInPiece s w)"
    by (simp add: sameShape_def decRequestsInPiece_def fun_eq_iff peerOf_def pfp_peer_update)
  moreover have "peerStore (decRequestsInPiece s w) = peerStore s"
    "peersForPiece (decRequestsInPiece s w) = peersForPiece s"
    "pendingChunksRemaining (decRequestsInPiece s w) = pendingChunksRemaining s"
    by (simp_all add: decRequestsInPiece_def)
  ultimately show ?case using Cons[of "decRequestsInPiece s w"]
    by (auto intro: sameShape_trans)
qed

lemma removeNextRequest_shape:
  "sameShape s (removeNextRequest req s w) \<and>
   peersForPiece (removeNextRequest req s w) = peersForPiece s \<and>
   pendingChunksRemaining (removeNextRequest req s w) = pendingChunksRemaining s \<and>
   wrappers (removeNextRequest req s w) = wrappers s"
  by (simp add: removeNextRequest_def sameShape_def)

lemma foldl_removeNextRequest_shape:
  "sameShape s (foldl (removeNextRequest req) s ws) \<and>
   peersForPiece (foldl (removeNextRequest req) s ws) = peersForPiece s \<and>
   pendingChunksRemaining (foldl (removeNextRequest req) s ws) = pendingChunksRemaining s \<and>
   wrappers (foldl (removeNextRequest req) s ws) = wrappers s"
proof (induction ws arbitrary: s)
  case Nil
  then show ?case by (simp add: sameShape_refl)
next
  case (Cons w ws)
  show ?case
    using Cons[of "removeNextRequest req s w"] removeNextRequest_shape[of s req w]
    by (auto intro: sameShape_trans)
qed

lemma foldl_removeNextRequest_Q:
  assumes "closedQ Q"
  shows "Q (peerStore s a) \<Longrightarrow> Q (peerStore (foldl (removeNextRequest req) s ws) a)"
proof (induction ws arbitrary: s)
  case Nil
  then show ?case by simp
next
  case (Cons w ws)
  have "Q (peerStore (removeNextRequest req s w) a)"
    using Cons.prems assms by (auto simp: removeNextRequest_def closedQ_def)
  then show ?case using Cons.IH by simp
qed

lemma rebalanceChunk_cases:
  assumes "rebalanceChunk p chunk s = Inr s'"
  obtains (kept) "preallocated s ! chunk = []" "s' = s"
  | (moved) s3 b where "preallocated s ! chunk \<noteq> []"
      "sortPeersForPiece p (Some (chunkIndexToRequestIndex p (word_of_nat chunk)))
         (foldl decRequestsInPiece
            (s\<lparr>pendingChunksRemaining := pendingChunksRemaining s - 1\<rparr>)
            (preallocated s ! chunk)) = Inr s3"
      "assignWalk p (chunkIndexToRequestIndex p (word_of_nat chunk))
         (peersForPiece s3)
         (foldl (removeNextRequest (chunkIndexToRequestIndex p (word_of_nat chunk))) s3
            (preallocated s ! chunk)) = Inr (b, s')"
  using assms unfolding rebalanceChunk_def
  by (auto simp: Let_def foldl_removeNextRequest_shape split: if_splits sum.splits)

lemma rebalanceChunk_shape:
  assumes "rebalanceChunk p chunk s = Inr s'"
  shows "sameShape s s'"
  using assms
proof (cases rule: rebalanceChunk_cases)
  case kept
  then show ?thesis by (simp add: sameShape_refl)
next
  case (moved s3 b)
  let ?s1 = "s\<lparr>pendingChunksRemaining := pendingChunksRemaining s - 1\<rparr>"
  let ?req = "chunkIndexToRequestIndex p (word_of_nat chunk)"
  have "sameShape s ?s1" by (simp add: sameShape_def)
  moreover have "sameShape ?s1 (foldl decRequestsInPiece ?s1 (preallocated s ! chunk))"
    using foldl_decRequestsInPiece by blast
  moreover have "sameShape (foldl decRequestsInPiece ?s1 (preallocated s ! chunk)) s3"
    using sortPeersForPiece_shape[OF moved(2)] by blast
  moreover have "sameShape s3 (foldl (removeNextRequest ?req) s3 (preallocated s ! chunk))"
    using foldl_removeNextRequest_shape by blast
  moreover have "sameShape (foldl (removeNextRequest ?req) s3 (preallocated s ! chunk)) s'"
    using assignWalk_shape[OF moved(3)] by blast
  ultimately show ?thesis using sameShape_trans by blast
qed

lemma rebalanceChunk_Q:
  assumes "closedQ Q" "rebalanceChunk p chunk s = Inr s'" "Q (peerStore s a)"
  shows "Q (peerStore s' a)"
  using assms(2)
proof (cases rule: rebalanceChunk_cases)
  case kept
  then show ?thesis using assms(3) by simp
next
  case (moved s3 b)
  let ?s1 = "s\<lparr>pendingChunksRemaining := pendingChunksRemaining s - 1\<rparr>"
  let ?req = "chunkIndexToRequestIndex p (word_of_nat chunk)"
  have "peerStore s3 = peerStore s"
    using sortPeersForPiece_shape[OF moved(2)] foldl_decRequestsInPiece[of ?s1] by simp
  then have "Q (peerStore (foldl (removeNextRequest ?req) s3 (preallocated s ! chunk)) a)"
    using foldl_removeNextRequest_Q[OF assms(1)] assms(3) by simp
  from assignWalk_Q[OF assms(1) moved(3) this] show ?thesis .
qed

lemma rebalanceChunks_shape:
  "rebalanceChunks p chunks s = Inr s' \<Longrightarrow> sameShape s s'"
proof (induction chunks arbitrary: s)
  case Nil
  then show ?case by (simp add: sameShape_refl)
next
  case (Cons c cs)
  then show ?case
    by (auto split: sum.splits dest!: rebalanceChunk_shape intro: sameShape_trans)
qed

lemma rebalanceChunks_Q:
  assumes "closedQ Q"
  shows "rebalanceChunks p chunks s = Inr s' \<Longrightarrow> Q (peerStore s a) \<Longrightarrow> Q (peerStore s' a)"
proof (induction chunks arbitrary: s)
  case Nil
  then show ?case by simp
next
  case (Cons c cs)
  then show ?case
    by (auto split: sum.splits dest: rebalanceChunk_Q[OF assms])
qed

lemma sameCandidates_refl: "sameCandidates s s"
  by (simp add: sameCandidates_def)

lemma sameCandidates_trans:
  "sameCandidates s s' \<Longrightarrow> sameCandidates s' s'' \<Longrightarrow> sameCandidates s s''"
  by (simp add: sameCandidates_def)

lemma preallocPeers_step:
  assumes "preallocPeers spec req (w # ws) s = Inr s'"
  obtains (skip) "preallocPeers spec req ws s = Inr s'"
    "req \<notin> ExistingRequests (peerStore s (peerOf s w)) \<or>
     \<not> canFitRequest (peerStore s (peerOf s w))"
  | (add) s1 where "req \<in> ExistingRequests (peerStore s (peerOf s w))"
      "canFitRequest (peerStore s (peerOf s w))" "unat spec < length (preallocated s)"
      "pfp_addNextRequest w req
         (s\<lparr>preallocated := (preallocated s)
               [unat spec := preallocated s ! unat spec @ [w]]\<rparr>) = Inr s1"
      "preallocPeers spec req ws s1 = Inr s'"
  using assms by (auto simp: Let_def split: if_splits sum.splits)

lemma preallocPeers_shape:
  "preallocPeers spec req ws s = Inr s' \<Longrightarrow> sameCandidates s s'"
proof (induction ws arbitrary: s)
  case Nil
  then show ?case by (simp add: sameCandidates_refl)
next
  case (Cons w ws)
  from Cons.prems show ?case
  proof (cases rule: preallocPeers_step)
    case skip
    then show ?thesis using Cons.IH by blast
  next
    case (add s1)
    let ?s0 = "s\<lparr>preallocated := (preallocated s)
               [unat spec := preallocated s ! unat spec @ [w]]\<rparr>"
    have "sameCandidates s ?s0" by (simp add: sameCandidates_def)
    moreover have "sameCandidates ?s0 s1"
      using pfp_addNextRequest_shape[OF add(4)] by (simp add: sameCandidates_def sameShape_def)
    ultimately show ?thesis using Cons.IH[OF add(5)] sameCandidates_trans by blast
  qed
qed

lemma preallocPeers_Q:
  assumes "closedQ Q"
  shows "preallocPeers spec req ws s = Inr s' \<Longrightarrow> Q (peerStore s a) \<Longrightarrow> Q (peerStore s' a)"
proof (induction ws arbitrary: s)
  case Nil
  then show ?case by simp
next
  case (Cons w ws)
  from Cons.prems(1) show ?case
  proof (cases rule: preallocPeers_step)
    case skip
    then show ?thesis using Cons.IH Cons.prems(2) by blast
  next
    case (add s1)
    let ?s0 = "s\<lparr>preallocated := (preallocated s)
               [unat spec := preallocated s ! unat spec @ [w]]\<rparr>"
    have "canFitRequest (peerStore ?s0 (peerOf ?s0 w))" "Q (peerStore ?s0 a)"
      using add(2) Cons.prems(2) by simp_all
    from pfp_addNextRequest_Q[OF assms add(4) this] have "Q (peerStore s1 a)" .
    then show ?thesis using Cons.IH[OF add(5)] by blast
  qed
qed

lemma preallocChunks_shape:
  "preallocChunks p chunks s = Inr s' \<Longrightarrow> sameCandidates s s'"
proof (induction chunks arbitrary: s)
  case Nil
  then show ?case by (simp add: sameCandidates_refl)
next
  case (Cons c cs)
  then show ?case
    by (auto split: sum.splits dest!: preallocPeers_shape intro: sameCandidates_trans)
qed

lemma preallocChunks_Q:
  assumes "closedQ Q"
  shows "preallocChunks p chunks s = Inr s' \<Longrightarrow> Q (peerStore s a) \<Longrightarrow> Q (peerStore s' a)"
proof (induction chunks arbitrary: s)
  case Nil
  then show ?case by simp
next
  case (Cons c cs)
  then show ?case
    by (auto split: sum.splits dest: preallocPeers_Q[OF assms])
qed

lemma filterPeers_Q:
  assumes "closedRemaining Q"
  shows "Q (peerStore s a) \<Longrightarrow> Q (peerStore (filterPeers p as s) a)"
proof (induction as arbitrary: s)
  case Nil
  then show ?case by simp
next
  case (Cons x xs)
  have "Q (peerStore (s\<lparr>peerStore := (peerStore s)
                   (x := (peerStore s x)\<lparr>requestablePiecesRemaining :=
                                  requestablePiecesRemaining (peerStore s x) - 1\<rparr>)\<rparr>) a)"
    using Cons.prems assms by (auto simp: closedRemaining_def)
  then show ?case using Cons by (auto simp: Let_def)
qed

lemma foldl_decRemaining_Q:
  assumes "closedRemaining Q"
  shows "Q (peerStore s a) \<Longrightarrow> Q (peerStore (foldl decRemaining s ws) a)"
proof (induction ws arbitrary: s)
  case Nil
  then show ?case by simp
next
  case (Cons w ws)
  have "Q (peerStore (decRemaining s w) a)"
    using Cons.prems assms by (auto simp: decRemaining_def closedRemaining_def)
  then show ?case using Cons.IH by simp
qed

lemma allocatePasses_Q:
  assumes "closedQ Q" "closedRemaining Q" "allocatePasses p peers store = Inr s"
    "Q (store a)"
  shows "Q (peerStore s a)"
proof -
  let ?i = "\<lparr>peerStore = store, wrappers = [], peersForPiece = [],
                  preallocated = [], pendingChunksRemaining = 0\<rparr>"
  let ?s0 = "filterPeers p peers ?i"
  let ?s1 = "?s0\<lparr>preallocated := replicate (unat (ChunksPerPiece (rp_t p))) []\<rparr>"
  obtain s2 s3 where 2: "preallocChunks p (IterPendingChunks p) ?s1 = Inr s2"
    and 3: "freshChunks p (IterPendingChunks p)
              (s2\<lparr>pendingChunksRemaining := NumPendingChunks p\<rparr>) = Inr s3"
    and 4: "rebalanceChunks p [0 ..< length (preallocated s3)] s3 = Inr s"
    using assms(3) unfolding allocatePasses_def
    by (auto simp: Let_def split: sum.splits)
  have "Q (peerStore ?s0 a)" using filterPeers_Q[OF assms(2)] assms(4) by simp
  then have "Q (peerStore ?s1 a)" by simp
  from preallocChunks_Q[OF assms(1) 2 this] have "Q (peerStore s2 a)" .
  then have "Q (peerStore (s2\<lparr>pendingChunksRemaining := NumPendingChunks p\<rparr>) a)" by simp
  from freshChunks_Q[OF assms(1) 3 this] have "Q (peerStore s3 a)" .
  from rebalanceChunks_Q[OF assms(1) 4 this] show ?thesis .
qed

lemma allocatePendingChunks_Q:
  assumes "closedQ Q" "closedRemaining Q" "allocatePendingChunks p peers store = Inr store'"
    "Q (store a)"
  shows "Q (store' a)"
proof -
  obtain s where s: "allocatePasses p peers store = Inr s"
    and e: "store' = peerStore (foldl decRemaining s (peersForPiece s))"
    using assms(3) unfolding allocatePendingChunks_def
    by (auto split: sum.splits if_splits)
  from allocatePasses_Q[OF assms(1,2) s assms(4)] have "Q (peerStore s a)" .
  then show ?thesis unfolding e by (rule foldl_decRemaining_Q[OF assms(2)])
qed

subsection \<open>The allocator: the request cap\<close>

lemma closedQ_withinCap: "closedQ withinCap"
  unfolding closedQ_def withinCap_def canFitRequest_def
proof (intro conjI allI impI)
  fix rp :: requestsPeer and r
  assume "int (card (nextState_Requests rp)) < MaxRequests rp"
  moreover have "card (insert r (nextState_Requests rp)) \<le> Suc (card (nextState_Requests rp))"
    by (simp add: card_insert_le_m1)
  ultimately show "int (card (nextState_Requests
      (rp\<lparr>nextState_Requests := insert r (nextState_Requests rp)\<rparr>)))
      \<le> MaxRequests (rp\<lparr>nextState_Requests := insert r (nextState_Requests rp)\<rparr>)"
    by simp
next
  fix rp :: requestsPeer
  assume "int (card (nextState_Requests rp)) \<le> MaxRequests rp"
  then show "int (card (nextState_Requests (rp\<lparr>nextState_Interested := True\<rparr>)))
      \<le> MaxRequests (rp\<lparr>nextState_Interested := True\<rparr>)"
    by simp
next
  fix rp :: requestsPeer and r
  assume a: "int (card (nextState_Requests rp)) \<le> MaxRequests rp"
  have "card (nextState_Requests rp - {r}) \<le> card (nextState_Requests rp)"
    by (simp add: card_Diff1_le)
  with a show "int (card (nextState_Requests
      (rp\<lparr>nextState_Requests := nextState_Requests rp - {r}\<rparr>)))
      \<le> MaxRequests (rp\<lparr>nextState_Requests := nextState_Requests rp - {r}\<rparr>)"
    by simp
qed

lemma closedRemaining_withinCap: "closedRemaining withinCap"
  by (simp add: closedRemaining_def withinCap_def)

lemma closedQ_MaxRequests: "closedQ (\<lambda>rp. MaxRequests rp = m)"
  by (simp add: closedQ_def)

lemma closedRemaining_MaxRequests: "closedRemaining (\<lambda>rp. MaxRequests rp = m)"
  by (simp add: closedRemaining_def)

lemma allocatePieces_Q:
  assumes "closedQ Q" "closedRemaining Q"
  shows "allocatePieces ps peers store = Inr store' \<Longrightarrow> Q (store a) \<Longrightarrow> Q (store' a)"
proof (induction ps arbitrary: store)
  case Nil
  then show ?case by simp
next
  case (Cons p ps)
  then show ?case
    by (auto split: sum.splits dest: allocatePendingChunks_Q[OF assms])
qed

subsection \<open>The allocator: the remaining pieces of a peer\<close>

lemma candidates_upd_remaining:
  "candidates p (st(x := (st x)\<lparr>requestablePiecesRemaining := n\<rparr>)) as = candidates p st as"
  unfolding candidates_def by (rule filter_cong) auto

lemma upt_add_Suc: "[n ..< n + Suc k] = n # [Suc n ..< Suc n + k]"
proof -
  have "n < n + Suc k" by simp
  then have "[n ..< n + Suc k] = n # [Suc n ..< n + Suc k]" by (rule upt_conv_Cons)
  then show ?thesis by (simp only: add_Suc_right add_Suc)
qed

lemma filterPeers_wrappers:
  "wrappers (filterPeers p as s) =
     wrappers s @ map (\<lambda>a. \<lparr>requestsInPiece = 0, pfp_peer = a\<rparr>) (candidates p (peerStore s) as) \<and>
   peersForPiece (filterPeers p as s) =
     peersForPiece s @
       [length (wrappers s) ..< length (wrappers s) + length (candidates p (peerStore s) as)] \<and>
   preallocated (filterPeers p as s) = preallocated s \<and>
   pendingChunksRemaining (filterPeers p as s) = pendingChunksRemaining s"
proof (induction as arbitrary: s)
  case Nil
  then show ?case by (simp add: candidates_def)
next
  case (Cons x xs)
  let ?peer = "peerStore s x"
  show ?case
  proof (cases "canRequestPiece ?peer (rp_index p)")
    case False
    then show ?thesis using Cons[of s] by (simp add: candidates_def)
  next
    case c: True
    show ?thesis
    proof (cases "canFitRequest ?peer")
      case False
      let ?s' = "s\<lparr>peerStore := (peerStore s)
                   (x := ?peer\<lparr>requestablePiecesRemaining :=
                                  requestablePiecesRemaining ?peer - 1\<rparr>)\<rparr>"
      have e: "candidates p (peerStore ?s') xs = candidates p (peerStore s) xs"
        by (simp add: candidates_upd_remaining)
      have "candidates p (peerStore s) (x # xs) = candidates p (peerStore s) xs"
        using False by (simp add: candidates_def)
      then show ?thesis using Cons[of ?s', unfolded e] c False by (simp add: Let_def)
    next
      case True
      let ?s' = "s\<lparr>wrappers := wrappers s @ [\<lparr>requestsInPiece = 0, pfp_peer = x\<rparr>],
                peersForPiece := peersForPiece s @ [length (wrappers s)]\<rparr>"
      have e: "candidates p (peerStore s) (x # xs) = x # candidates p (peerStore s) xs"
        using c True by (simp add: candidates_def)
      have u: "[length (wrappers s) ..<
                 length (wrappers s) + length (x # candidates p (peerStore s) xs)] =
               length (wrappers s) #
                 [Suc (length (wrappers s)) ..<
                    Suc (length (wrappers s)) + length (candidates p (peerStore s) xs)]"
        using upt_add_Suc[of "length (wrappers s)" "length (candidates p (peerStore s) xs)"]
        by (simp only: length_Cons)
      show ?thesis unfolding e u using Cons[of ?s'] c True
        by (simp add: Let_def)
    qed
  qed
qed

lemma filterPeers_store:
  assumes "distinct as"
  shows "peerStore (filterPeers p as s) a =
           (if a \<in> set as \<and> canRequestPiece (peerStore s a) (rp_index p) \<and>
               \<not> canFitRequest (peerStore s a)
            then (peerStore s a)\<lparr>requestablePiecesRemaining :=
                                    requestablePiecesRemaining (peerStore s a) - 1\<rparr>
            else peerStore s a)"
  using assms
proof (induction as arbitrary: s)
  case Nil
  then show ?case by simp
next
  case (Cons x xs)
  then have d: "distinct xs" and nx: "x \<notin> set xs" by simp_all
  let ?peer = "peerStore s x"
  let ?s1 = "s\<lparr>peerStore := (peerStore s)
                   (x := ?peer\<lparr>requestablePiecesRemaining :=
                                  requestablePiecesRemaining ?peer - 1\<rparr>)\<rparr>"
  let ?s2 = "s\<lparr>wrappers := wrappers s @ [\<lparr>requestsInPiece = 0, pfp_peer = x\<rparr>],
                peersForPiece := peersForPiece s @ [length (wrappers s)]\<rparr>"
  show ?case
  proof (cases "canRequestPiece ?peer (rp_index p)")
    case False
    then show ?thesis using Cons.IH[OF d, of s] by auto
  next
    case c: True
    show ?thesis
    proof (cases "canFitRequest ?peer")
      case False
      then show ?thesis using Cons.IH[OF d, of ?s1] c nx by (auto simp: Let_def)
    next
      case True
      then show ?thesis using Cons.IH[OF d, of ?s2] c nx by (auto simp: Let_def)
    qed
  qed
qed

lemma foldl_decRemaining_store:
  "peerStore (foldl decRemaining s ws) a =
     (peerStore s a)\<lparr>requestablePiecesRemaining :=
        requestablePiecesRemaining (peerStore s a) -
          int (length (filter (\<lambda>w. peerOf s w = a) ws))\<rparr>"
proof (induction ws arbitrary: s)
  case Nil
  then show ?case by simp
next
  case (Cons w ws)
  have po: "peerOf (decRemaining s w) = peerOf s" by (simp add: decRemaining_def)
  show ?case
    using Cons[of "decRemaining s w"] unfolding po
    by (auto simp: decRemaining_def)
qed

lemma closedQ_remaining: "closedQ (\<lambda>rp. requestablePiecesRemaining rp = n)"
  by (simp add: closedQ_def)

lemma closedQ_canRequestPiece: "closedQ (\<lambda>rp. canRequestPiece rp = f)"
  by (simp add: closedQ_def)

lemma allocatePasses_split:
  assumes "allocatePasses p peers store = Inr s"
  obtains s2 s3 where
    "preallocChunks p (IterPendingChunks p)
       ((filterPeers p peers
           \<lparr>peerStore = store, wrappers = [], peersForPiece = [],
            preallocated = [], pendingChunksRemaining = 0\<rparr>)
        \<lparr>preallocated := replicate (unat (ChunksPerPiece (rp_t p))) []\<rparr>) = Inr s2"
    "freshChunks p (IterPendingChunks p)
       (s2\<lparr>pendingChunksRemaining := NumPendingChunks p\<rparr>) = Inr s3"
    "rebalanceChunks p [0 ..< length (preallocated s3)] s3 = Inr s"
  using assms unfolding allocatePasses_def
  by (auto simp: Let_def split: sum.splits)

lemma passes_Q:
  assumes "closedQ Q" "allocatePasses p peers store = Inr s"
    "Q (peerStore (filterPeers p peers
           \<lparr>peerStore = store, wrappers = [], peersForPiece = [],
            preallocated = [], pendingChunksRemaining = 0\<rparr>) a)"
  shows "Q (peerStore s a)"
  using assms(2)
proof (cases rule: allocatePasses_split)
  case (1 s2 s3)
  let ?s0 = "filterPeers p peers
           \<lparr>peerStore = store, wrappers = [], peersForPiece = [],
            preallocated = [], pendingChunksRemaining = 0\<rparr>"
  have "Q (peerStore (?s0\<lparr>preallocated := replicate (unat (ChunksPerPiece (rp_t p))) []\<rparr>) a)"
    using assms(3) by simp
  from preallocChunks_Q[OF assms(1) 1(1) this] have "Q (peerStore s2 a)" .
  then have "Q (peerStore (s2\<lparr>pendingChunksRemaining := NumPendingChunks p\<rparr>) a)" by simp
  from freshChunks_Q[OF assms(1) 1(2) this] have "Q (peerStore s3 a)" .
  from rebalanceChunks_Q[OF assms(1) 1(3) this] show ?thesis .
qed

lemma passes_candidates:
  assumes "allocatePasses p peers store = Inr s"
  shows "mset (peersForPiece s) = mset [0 ..< length (candidates p store peers)] \<and>
         (\<forall>w < length (candidates p store peers). peerOf s w = candidates p store peers ! w)"
  using assms
proof (cases rule: allocatePasses_split)
  case (1 s2 s3)
  let ?i = "\<lparr>peerStore = store, wrappers = [], peersForPiece = [],
            preallocated = [], pendingChunksRemaining = 0\<rparr>"
  let ?s0 = "filterPeers p peers ?i"
  let ?s1 = "?s0\<lparr>preallocated := replicate (unat (ChunksPerPiece (rp_t p))) []\<rparr>"
  let ?c = "candidates p store peers"
  note f = filterPeers_wrappers[of p peers ?i]
  have w0: "wrappers ?s0 = map (\<lambda>a. \<lparr>requestsInPiece = 0, pfp_peer = a\<rparr>) ?c"
    and p0: "peersForPiece ?s0 = [0 ..< length ?c]"
    using f by simp_all
  have po0: "\<forall>w < length ?c. peerOf ?s1 w = ?c ! w"
    by (simp add: peerOf_def w0)
  have a: "sameCandidates ?s1 s2" using preallocChunks_shape[OF 1(1)] .
  have b: "sameShape (s2\<lparr>pendingChunksRemaining := NumPendingChunks p\<rparr>) s3"
    using freshChunks_shape[OF 1(2)] .
  have c: "sameShape s3 s" using rebalanceChunks_shape[OF 1(3)] .
  have "peerOf s = peerOf ?s1"
    using a b c by (simp add: sameCandidates_def sameShape_def)
  moreover have "mset (peersForPiece s) = mset (peersForPiece ?s1)"
    using a b c by (simp add: sameCandidates_def sameShape_def)
  ultimately show ?thesis using po0 p0 by simp
qed

lemma length_filter_mset_eq:
  "mset xs = mset ys \<Longrightarrow> length (filter P xs) = length (filter P ys)"
  by (metis mset_filter size_mset)

lemma length_filter_nth:
  "length (filter (\<lambda>w. c ! w = a) [0 ..< length c]) = length (filter (\<lambda>x. x = a) c)"
proof -
  have "filter (\<lambda>x. x = a) (map (\<lambda>w. c ! w) [0 ..< length c]) =
        map (\<lambda>w. c ! w) (filter (\<lambda>w. c ! w = a) [0 ..< length c])"
    by (simp add: filter_map comp_def)
  then have "length (filter (\<lambda>x. x = a) (map (\<lambda>w. c ! w) [0 ..< length c])) =
             length (filter (\<lambda>w. c ! w = a) [0 ..< length c])"
    by simp
  then show ?thesis by (simp add: map_nth)
qed

lemma length_filter_eq_distinct:
  "distinct c \<Longrightarrow> length (filter (\<lambda>x. x = a) c) = (if a \<in> set c then 1 else 0)"
  by (induction c) auto

subsection \<open>The allocator: the counter of pending chunks\<close>

lemma freshChunk_counter:
  assumes "freshChunk p c s = Inr s'"
  shows "unat c < length (preallocated s) \<and>
         pendingChunksRemaining s' =
           pendingChunksRemaining s - (if preallocated s ! unat c = [] then 1 else 0)"
  using assms unfolding freshChunk_def
  by (auto split: if_splits sum.splits
      dest!: sortPeersForPiece_shape assignWalk_shape)

lemma freshChunks_counter:
  "freshChunks p cs s = Inr s' \<Longrightarrow>
   (\<forall>c \<in> set cs. unat c < length (preallocated s)) \<and>
   pendingChunksRemaining s' =
     pendingChunksRemaining s -
       int (length (filter (\<lambda>c. preallocated s ! unat c = []) cs))"
proof (induction cs arbitrary: s)
  case Nil
  then show ?case by simp
next
  case (Cons c cs)
  then obtain s1 where 1: "freshChunk p c s = Inr s1" and 2: "freshChunks p cs s1 = Inr s'"
    by (auto split: sum.splits)
  have pre: "preallocated s1 = preallocated s"
    using freshChunk_shape[OF 1] by (simp add: sameShape_def)
  show ?case
    using freshChunk_counter[OF 1] Cons.IH[OF 2] unfolding pre by auto
qed

lemma rebalanceChunk_counter:
  assumes "rebalanceChunk p k s = Inr s'"
  shows "pendingChunksRemaining s' =
           pendingChunksRemaining s - (if preallocated s ! k = [] then 0 else 1)"
  using assms
proof (cases rule: rebalanceChunk_cases)
  case kept
  then show ?thesis by simp
next
  case (moved s3 b)
  let ?s1 = "s\<lparr>pendingChunksRemaining := pendingChunksRemaining s - 1\<rparr>"
  have "pendingChunksRemaining s3 = pendingChunksRemaining s - 1"
    using sortPeersForPiece_shape[OF moved(2)] foldl_decRequestsInPiece[of ?s1] by simp
  then show ?thesis
    using assignWalk_shape[OF moved(3)] foldl_removeNextRequest_shape[of s3] moved(1)
    by simp
qed

lemma rebalanceChunks_counter:
  "rebalanceChunks p ks s = Inr s' \<Longrightarrow>
   pendingChunksRemaining s' =
     pendingChunksRemaining s -
       int (length (filter (\<lambda>k. preallocated s ! k \<noteq> []) ks))"
proof (induction ks arbitrary: s)
  case Nil
  then show ?case by simp
next
  case (Cons k ks)
  then obtain s1 where 1: "rebalanceChunk p k s = Inr s1"
    and 2: "rebalanceChunks p ks s1 = Inr s'"
    by (auto split: sum.splits)
  have pre: "preallocated s1 = preallocated s"
    using rebalanceChunk_shape[OF 1] by (simp add: sameShape_def)
  show ?case
    using rebalanceChunk_counter[OF 1] Cons.IH[OF 2] unfolding pre by auto
qed

lemma pfp_addNextRequest_preallocated:
  "pfp_addNextRequest w r s = Inr s' \<Longrightarrow> preallocated s' = preallocated s"
  by (auto simp: pfp_addNextRequest_Inr)

lemma preallocPeers_rows:
  "preallocPeers spec req ws s = Inr s' \<Longrightarrow> k < length (preallocated s') \<Longrightarrow>
   preallocated s' ! k \<noteq> [] \<Longrightarrow> preallocated s ! k \<noteq> [] \<or> k = unat spec"
proof (induction ws arbitrary: s)
  case Nil
  then show ?case by simp
next
  case (Cons w ws)
  from Cons.prems(1) show ?case
  proof (cases rule: preallocPeers_step)
    case skip
    then show ?thesis using Cons.IH Cons.prems(2,3) by blast
  next
    case (add s1)
    have "preallocated s1 = (preallocated s)[unat spec := preallocated s ! unat spec @ [w]]"
      using pfp_addNextRequest_preallocated[OF add(4)] by simp
    then show ?thesis
      using Cons.IH[OF add(5) Cons.prems(2,3)]
      by (cases "k = unat spec") auto
  qed
qed

lemma preallocChunks_rows:
  "preallocChunks p cs s = Inr s' \<Longrightarrow> k < length (preallocated s') \<Longrightarrow>
   preallocated s' ! k \<noteq> [] \<Longrightarrow> preallocated s ! k \<noteq> [] \<or> k \<in> unat ` set cs"
proof (induction cs arbitrary: s)
  case Nil
  then show ?case by simp
next
  case (Cons c cs)
  then obtain s1 where 1: "preallocPeers c (chunkIndexToRequestIndex p c) (peersForPiece s) s = Inr s1"
    and 2: "preallocChunks p cs s1 = Inr s'"
    by (auto split: sum.splits)
  have l: "length (preallocated s') = length (preallocated s1)"
    using preallocChunks_shape[OF 2] by (simp add: sameCandidates_def)
  from Cons.IH[OF 2 Cons.prems(2,3)]
  show ?case
  proof
    assume "preallocated s1 ! k \<noteq> []"
    from preallocPeers_rows[OF 1 _ this] Cons.prems(2) l show ?thesis by auto
  next
    assume "k \<in> unat ` set cs"
    then show ?thesis by auto
  qed
qed

lemma count_rows:
  fixes cs :: "ChunkIndex list"
  assumes "distinct cs" "\<forall>c \<in> set cs. unat c < L"
    and "\<forall>k < L. P k \<longrightarrow> k \<in> unat ` set cs"
  shows "length (filter P [0 ..< L]) = length (filter (\<lambda>c. P (unat c)) cs)"
proof -
  have "distinct (filter P [0 ..< L])" by simp
  then have "length (filter P [0 ..< L]) = card (set (filter P [0 ..< L]))"
    by (rule distinct_card[symmetric])
  also have "set (filter P [0 ..< L]) = unat ` set (filter (\<lambda>c. P (unat c)) cs)"
    using assms(2,3) by auto
  also have "card (unat ` set (filter (\<lambda>c. P (unat c)) cs)) =
             card (set (filter (\<lambda>c. P (unat c)) cs))"
    by (intro card_image) (simp add: inj_on_def word_unat_eq_iff)
  also have "\<dots> = length (filter (\<lambda>c. P (unat c)) cs)"
    using assms(1) by (intro distinct_card) simp
  finally show ?thesis .
qed

lemma allocatePasses_counter:
  assumes "distinct (IterPendingChunks p)"
    and "allocatePasses p peers store = Inr s"
  shows "pendingChunksRemaining s = NumPendingChunks p - int (length (IterPendingChunks p))"
  using assms(2)
proof (cases rule: allocatePasses_split)
  case (1 s2 s3)
  let ?cs = "IterPendingChunks p"
  let ?L = "unat (ChunksPerPiece (rp_t p))"
  let ?s0 = "filterPeers p peers
           \<lparr>peerStore = store, wrappers = [], peersForPiece = [],
            preallocated = [], pendingChunksRemaining = 0\<rparr>"
  let ?s1 = "?s0\<lparr>preallocated := replicate ?L []\<rparr>"
  let ?s2' = "s2\<lparr>pendingChunksRemaining := NumPendingChunks p\<rparr>"
  let ?pre = "preallocated s2"
  have len: "length ?pre = ?L"
    using preallocChunks_shape[OF 1(1)] by (simp add: sameCandidates_def)
  have rows: "\<forall>k < ?L. ?pre ! k \<noteq> [] \<longrightarrow> k \<in> unat ` set ?cs"
  proof (intro allI impI)
    fix k assume k: "k < ?L" and n: "?pre ! k \<noteq> []"
    from preallocChunks_rows[OF 1(1) _ n] k len show "k \<in> unat ` set ?cs" by auto
  qed
  note f = freshChunks_counter[OF 1(2)]
  have inr: "\<forall>c \<in> set ?cs. unat c < ?L" using f len by simp
  have pre3: "preallocated s3 = ?pre"
    using freshChunks_shape[OF 1(2)] by (simp add: sameShape_def)
  have c3: "pendingChunksRemaining s3 =
      NumPendingChunks p - int (length (filter (\<lambda>c. ?pre ! unat c = []) ?cs))"
    using f by simp
  have "pendingChunksRemaining s =
      pendingChunksRemaining s3 - int (length (filter (\<lambda>k. ?pre ! k \<noteq> []) [0 ..< ?L]))"
    using rebalanceChunks_counter[OF 1(3)] unfolding pre3 len by simp
  also have "length (filter (\<lambda>k. ?pre ! k \<noteq> []) [0 ..< ?L]) =
      length (filter (\<lambda>c. ?pre ! unat c \<noteq> []) ?cs)"
    using count_rows[OF assms(1) inr, of "\<lambda>k. ?pre ! k \<noteq> []"] rows by simp
  finally have "pendingChunksRemaining s =
      NumPendingChunks p -
        int (length (filter (\<lambda>c. ?pre ! unat c = []) ?cs) +
             length (filter (\<lambda>c. \<not> ?pre ! unat c = []) ?cs))"
    using c3 by simp
  then show ?thesis by (simp only: sum_length_filter_compl)
qed

lemma insert_by_Inl: "insert_by lt x ys = Inl e \<Longrightarrow> \<exists>a b. lt a b = Inl e"
  by (induction ys) (auto split: sum.splits bool.splits)

lemma sort_by_Inl: "sort_by lt xs = Inl e \<Longrightarrow> \<exists>a b. lt a b = Inl e"
  by (induction xs) (auto split: sum.splits dest: insert_by_Inl)

lemma peersForPieceSorter_Less_Inl:
  "peersForPieceSorter_Less p req s wi wj = Inl e \<Longrightarrow> e = NotDifferentiated"
  unfolding peersForPieceSorter_Less_def Let_def MustLess_def
  by (auto split: if_splits)

lemma sortPeersForPiece_Inl: "sortPeersForPiece p req s = Inl e \<Longrightarrow> passPanic e"
  unfolding sortPeersForPiece_def passPanic_def
  by (auto split: sum.splits dest!: sort_by_Inl peersForPieceSorter_Less_Inl)

lemma assignWalk_Inl: "assignWalk p req ws s = Inl e \<Longrightarrow> passPanic e"
  by (induction ws arbitrary: s)
     (auto simp: Let_def passPanic_def pfp_addNextRequest_Inl split: if_splits sum.splits)

lemma preallocPeers_Inl: "preallocPeers spec req ws s = Inl e \<Longrightarrow> passPanic e"
  by (induction ws arbitrary: s)
     (auto simp: Let_def passPanic_def pfp_addNextRequest_Inl split: if_splits sum.splits)

lemma preallocChunks_Inl: "preallocChunks p cs s = Inl e \<Longrightarrow> passPanic e"
  by (induction cs arbitrary: s) (auto split: sum.splits dest: preallocPeers_Inl)

lemma freshChunk_Inl: "freshChunk p c s = Inl e \<Longrightarrow> passPanic e"
  unfolding freshChunk_def
  by (auto simp: passPanic_def split: if_splits sum.splits
      dest: sortPeersForPiece_Inl assignWalk_Inl)

lemma freshChunks_Inl: "freshChunks p cs s = Inl e \<Longrightarrow> passPanic e"
  by (induction cs arbitrary: s) (auto split: sum.splits dest: freshChunk_Inl)

lemma rebalanceChunk_Inl: "rebalanceChunk p k s = Inl e \<Longrightarrow> passPanic e"
  unfolding rebalanceChunk_def Let_def
  by (auto split: if_splits sum.splits dest: sortPeersForPiece_Inl assignWalk_Inl)

lemma rebalanceChunks_Inl: "rebalanceChunks p ks s = Inl e \<Longrightarrow> passPanic e"
  by (induction ks arbitrary: s) (auto split: sum.splits dest: rebalanceChunk_Inl)

lemma allocatePasses_Inl: "allocatePasses p peers store = Inl e \<Longrightarrow> passPanic e"
  unfolding allocatePasses_def Let_def
  by (auto split: sum.splits dest: preallocChunks_Inl freshChunks_Inl rebalanceChunks_Inl)

subsection \<open>The allocator: the holders of a request\<close>

lemma eligible_Interested:
  "eligible p (s\<lparr>peerStore := (peerStore s)
                  (x := (peerStore s x)\<lparr>nextState_Interested := True\<rparr>)\<rparr>) = eligible p s"
  by (rule ext) (simp add: eligible_def)

lemma nextOf_Interested:
  "nextOf (s\<lparr>peerStore := (peerStore s)
                  (x := (peerStore s x)\<lparr>nextState_Interested := True\<rparr>)\<rparr>) = nextOf s"
  by (rule ext) (simp add: nextOf_def)

lemma peerOf_Interested:
  "peerOf (s\<lparr>peerStore := (peerStore s)
                  (x := (peerStore s x)\<lparr>nextState_Interested := True\<rparr>)\<rparr>) = peerOf s"
  by simp

lemma pfp_addNextRequest_nextOf:
  "pfp_addNextRequest w r s = Inr s' \<Longrightarrow>
   nextOf s' = (nextOf s)(peerOf s w := insert r (nextOf s (peerOf s w)))"
  by (auto simp: pfp_addNextRequest_Inr nextOf_def fun_eq_iff)

lemma assignWalk_result:
  "(case find (eligible p s) ws of
      None \<Rightarrow> \<exists>s'. assignWalk p req ws s = Inr (False, s') \<and> nextOf s' = nextOf s
    | Some w \<Rightarrow>
        if req \<in> nextOf s (peerOf s w) then assignWalk p req ws s = Inl ShouldOnlyAddOnce
        else \<exists>s'. assignWalk p req ws s = Inr (True, s') \<and>
               nextOf s' = (nextOf s)(peerOf s w := insert req (nextOf s (peerOf s w))))"
proof (induction ws arbitrary: s)
  case Nil
  then show ?case by simp
next
  case (Cons w ws)
  let ?peer = "peerStore s (peerOf s w)"
  let ?s1 = "s\<lparr>peerStore := (peerStore s)(peerOf s w := ?peer\<lparr>nextState_Interested := True\<rparr>)\<rparr>"
  note e1 = eligible_Interested[of p s "peerOf s w"]
  note n1 = nextOf_Interested[of s "peerOf s w"]
  show ?case
  proof (cases "eligible p s w")
    case True
    then have fit: "canFitRequest ?peer" by (simp add: eligible_def)
    have f: "find (eligible p s) (w # ws) = Some w" using True by simp
    show ?thesis
    proof (cases "req \<in> nextOf s (peerOf s w)")
      case held: True
      then have "pfp_addNextRequest w req s = Inl ShouldOnlyAddOnce"
        "pfp_addNextRequest w req ?s1 = Inl ShouldOnlyAddOnce"
        by (simp_all add: pfp_addNextRequest_Inl nextOf_def)
      then show ?thesis using True held fit unfolding f
        by (auto simp: eligible_def Let_def)
    next
      case free: False
      then obtain s2 s3 where a: "pfp_addNextRequest w req s = Inr s2"
        and a1: "pfp_addNextRequest w req ?s1 = Inr s3"
        by (simp add: pfp_addNextRequest_Inr nextOf_def)
      have "nextOf s2 = (nextOf s)(peerOf s w := insert req (nextOf s (peerOf s w)))"
        using pfp_addNextRequest_nextOf[OF a] .
      moreover have "nextOf s3 = (nextOf s)(peerOf s w := insert req (nextOf s (peerOf s w)))"
        using pfp_addNextRequest_nextOf[OF a1] unfolding n1 by simp
      ultimately show ?thesis using True free fit a a1 unfolding f
        by (auto simp: eligible_def Let_def)
    qed
  next
    case False
    then have f: "find (eligible p s) (w # ws) = find (eligible p s) ws" by simp
    show ?thesis
    proof (cases "canFitRequest ?peer")
      case nofit: False
      then have e: "assignWalk p req (w # ws) s = assignWalk p req ws s" by (simp add: Let_def)
      show ?thesis unfolding f e by (rule Cons.IH)
    next
      case fit: True
      then have ch: "Choking ?peer"
        and nf: "word_of_int (rp_index p) \<notin> PieceAllowedFast ?peer"
        using False by (auto simp: eligible_def)
      have st: "assignWalk p req (w # ws) s = assignWalk p req ws ?s1"
        using fit ch nf by (simp add: Let_def)
      have po: "peerOf ?s1 = peerOf s" by simp
      have ih: "case find (eligible p s) ws of
          None \<Rightarrow> \<exists>s'. assignWalk p req ws ?s1 = Inr (False, s') \<and> nextOf s' = nextOf s
        | Some w \<Rightarrow>
            if req \<in> nextOf s (peerOf s w) then assignWalk p req ws ?s1 = Inl ShouldOnlyAddOnce
            else \<exists>s'. assignWalk p req ws ?s1 = Inr (True, s') \<and>
               nextOf s' = (nextOf s)(peerOf s w := insert req (nextOf s (peerOf s w)))"
        using Cons.IH[of ?s1] unfolding e1 n1 po .
      show ?thesis unfolding f st by (rule ih)
    qed
  qed
qed

lemma chunkIndexToRequestIndex_inj [simp]:
  "chunkIndexToRequestIndex p c = chunkIndexToRequestIndex p c' \<longleftrightarrow> c = c'"
  by (simp add: chunkIndexToRequestIndex_def)

lemma assignWalk_other:
  assumes "assignWalk p req ws s = Inr (b, s')" "r \<noteq> req"
  shows "r \<in> nextOf s' a \<longleftrightarrow> r \<in> nextOf s a"
  using assignWalk_result[where p=p and s=s and ws=ws and req=req] assms
  by (auto split: option.splits if_splits)

lemma assignWalk_one:
  assumes "assignWalk p req ws s = Inr (b, s')" "\<forall>a \<in> A. req \<notin> nextOf s a"
  shows "atMostOne A (nextOf s') req"
  using assignWalk_result[where p=p and s=s and ws=ws and req=req] assms
  by (auto simp: atMostOne_def split: option.splits if_splits)

lemma peerOf_removeNextRequest [simp]: "peerOf (removeNextRequest req s w) = peerOf s"
  by (simp add: removeNextRequest_def)

lemma nextOf_foldl_removeNextRequest:
  "nextOf (foldl (removeNextRequest req) s ws) a =
     (if a \<in> peerOf s ` set ws then nextOf s a - {req} else nextOf s a)"
proof (induction ws arbitrary: s)
  case Nil
  then show ?case by simp
next
  case (Cons w ws)
  have "nextOf (removeNextRequest req s w) a =
          (if a = peerOf s w then nextOf s a - {req} else nextOf s a)"
    by (simp add: removeNextRequest_def nextOf_def)
  then show ?case using Cons.IH[of "removeNextRequest req s w"] by auto
qed

lemma settled_frame:
  assumes "settled A p C D s" "nextOf s' = nextOf s" "peerOf s' = peerOf s"
    "preallocated s' = preallocated s"
  shows "settled A p C D s'"
  using assms unfolding settled_def heldByRow_def rowPeers_def by simp

lemma settled_step:
  assumes st: "settled A p C D s" and po: "peerOf s' = peerOf s"
    and pre: "preallocated s' = preallocated s"
    and oth: "\<And>r a. r \<noteq> chunkIndexToRequestIndex p c \<Longrightarrow>
                r \<in> nextOf s' a \<longleftrightarrow> r \<in> nextOf s a"
    and one: "atMostOne A (nextOf s') (chunkIndexToRequestIndex p c)"
  shows "settled A p C (insert c D) s'"
  unfolding settled_def
proof (intro ballI)
  fix c' assume c': "c' \<in> C"
  show "if c' \<in> insert c D
        then atMostOne A (nextOf s') (chunkIndexToRequestIndex p c')
        else heldByRow A p s' c'"
  proof (cases "c' = c")
    case True
    then show ?thesis using one by simp
  next
    case False
    then have ne: "chunkIndexToRequestIndex p c' \<noteq> chunkIndexToRequestIndex p c" by simp
    have m: "\<And>a. chunkIndexToRequestIndex p c' \<in> nextOf s' a \<longleftrightarrow>
                  chunkIndexToRequestIndex p c' \<in> nextOf s a"
      using oth[OF ne] .
    from st c' have "if c' \<in> D then atMostOne A (nextOf s) (chunkIndexToRequestIndex p c')
              else heldByRow A p s c'"
      by (simp add: settled_def)
    then show ?thesis using False po pre unfolding atMostOne_def heldByRow_def rowPeers_def m
      by simp
  qed
qed

lemma preallocPeers_next:
  "preallocPeers spec req ws s = Inr s' \<Longrightarrow>
   (\<forall>k < length (preallocated s). set (preallocated s ! k) \<subseteq> set (preallocated s' ! k)) \<and>
   (\<forall>a r. r \<in> nextOf s' a \<longrightarrow>
      r \<in> nextOf s a \<or>
      (r = req \<and> unat spec < length (preallocated s') \<and> a \<in> rowPeers s' (unat spec)))"
proof (induction ws arbitrary: s)
  case Nil
  then show ?case by simp
next
  case (Cons w ws)
  from Cons.prems show ?case
  proof (cases rule: preallocPeers_step)
    case skip
    then show ?thesis using Cons.IH[of s] by simp
  next
    case (add s1)
    let ?s0 = "s\<lparr>preallocated := (preallocated s)
                   [unat spec := preallocated s ! unat spec @ [w]]\<rparr>"
    have pre1: "preallocated s1 = preallocated ?s0"
      using pfp_addNextRequest_preallocated[OF add(4)] .
    have n1: "nextOf s1 = (nextOf s)(peerOf s w := insert req (nextOf s (peerOf s w)))"
      using pfp_addNextRequest_nextOf[OF add(4)] by (simp add: nextOf_def fun_eq_iff)
    note ih = Cons.IH[OF add(5)]
    have len1: "length (preallocated s1) = length (preallocated s)" using pre1 by simp
    have po: "peerOf s' = peerOf s"
      using preallocPeers_shape[OF Cons.prems] by (simp add: sameCandidates_def)
    have len': "length (preallocated s') = length (preallocated s)"
      using preallocPeers_shape[OF Cons.prems] by (simp add: sameCandidates_def)
    have grow: "\<forall>k < length (preallocated s).
        set (preallocated s ! k) \<subseteq> set (preallocated s' ! k)"
    proof (intro allI impI)
      fix k assume k: "k < length (preallocated s)"
      have "set (preallocated s ! k) \<subseteq> set (preallocated s1 ! k)"
        unfolding pre1 using k by (cases "k = unat spec") auto
      moreover have "set (preallocated s1 ! k) \<subseteq> set (preallocated s' ! k)"
        using ih k len1 by simp
      ultimately show "set (preallocated s ! k) \<subseteq> set (preallocated s' ! k)" by blast
    qed
    have w1: "w \<in> set (preallocated s1 ! unat spec)"
      unfolding pre1 using add(3) by simp
    have w': "w \<in> set (preallocated s' ! unat spec)"
      using ih w1 add(3) len1 by auto
    have "\<forall>a r. r \<in> nextOf s' a \<longrightarrow>
      r \<in> nextOf s a \<or>
      (r = req \<and> unat spec < length (preallocated s') \<and> a \<in> rowPeers s' (unat spec))"
    proof (intro allI impI)
      fix a r assume r: "r \<in> nextOf s' a"
      from ih r have "r \<in> nextOf s1 a \<or>
          (r = req \<and> unat spec < length (preallocated s') \<and> a \<in> rowPeers s' (unat spec))"
        by blast
      then show "r \<in> nextOf s a \<or>
          (r = req \<and> unat spec < length (preallocated s') \<and> a \<in> rowPeers s' (unat spec))"
      proof
        assume "r \<in> nextOf s1 a"
        then have "r \<in> nextOf s a \<or> (a = peerOf s w \<and> r = req)"
          unfolding n1 by (auto split: if_splits)
        then show ?thesis
        proof
          assume "r \<in> nextOf s a" then show ?thesis ..
        next
          assume "a = peerOf s w \<and> r = req"
          then have "a \<in> rowPeers s' (unat spec)" "r = req"
            using w' po by (auto simp: rowPeers_def)
          then show ?thesis using add(3) len' by simp
        qed
      qed simp
    qed
    with grow show ?thesis by blast
  qed
qed

lemma preallocChunks_held:
  "preallocChunks p cs s = Inr s' \<Longrightarrow> \<forall>c \<in> C. heldByRow A p s c \<Longrightarrow>
   \<forall>c \<in> C. heldByRow A p s' c"
proof (induction cs arbitrary: s)
  case Nil
  then show ?case by simp
next
  case (Cons spec cs)
  then obtain s1 where 1: "preallocPeers spec (chunkIndexToRequestIndex p spec)
                               (peersForPiece s) s = Inr s1"
    and 2: "preallocChunks p cs s1 = Inr s'"
    by (auto split: sum.splits)
  note n = preallocPeers_next[OF 1]
  have po: "peerOf s1 = peerOf s" and len: "length (preallocated s1) = length (preallocated s)"
    using preallocPeers_shape[OF 1] by (simp_all add: sameCandidates_def)
  have "\<forall>c \<in> C. heldByRow A p s1 c"
    unfolding heldByRow_def
  proof (intro ballI impI)
    fix c a assume c: "c \<in> C" and a: "a \<in> A"
      and r: "chunkIndexToRequestIndex p c \<in> nextOf s1 a"
    from n r have "chunkIndexToRequestIndex p c \<in> nextOf s a \<or>
        (c = spec \<and> unat spec < length (preallocated s1) \<and> a \<in> rowPeers s1 (unat spec))"
      by fastforce
    then show "unat c < length (preallocated s1) \<and> a \<in> rowPeers s1 (unat c)"
    proof
      assume "chunkIndexToRequestIndex p c \<in> nextOf s a"
      with Cons.prems(2) c a have k: "unat c < length (preallocated s)"
        and h: "a \<in> rowPeers s (unat c)"
        by (auto simp: heldByRow_def)
      from n k have "set (preallocated s ! unat c) \<subseteq> set (preallocated s1 ! unat c)" by simp
      with h po have "a \<in> rowPeers s1 (unat c)" by (auto simp: rowPeers_def)
      with k len show ?thesis by simp
    qed simp
  qed
  from Cons.IH[OF 2 this] show ?case .
qed

lemma freshChunk_settled:
  assumes st: "settled A p C D s" and c: "c \<in> C" "c \<notin> D"
    and f: "freshChunk p c s = Inr s'"
  shows "settled A p C (if preallocated s ! unat c = [] then insert c D else D) s'"
proof (cases "preallocated s ! unat c = []")
  case False
  then have "s' = s" using f by (auto simp: freshChunk_def split: if_splits)
  then show ?thesis using st False by simp
next
  case True
  let ?req = "chunkIndexToRequestIndex p c"
  from f True obtain s1 b s2 where k: "unat c < length (preallocated s)"
    and 1: "sortPeersForPiece p None s = Inr s1"
    and 2: "assignWalk p ?req (peersForPiece s1) s1 = Inr (b, s2)"
    and 3: "s' = s2\<lparr>pendingChunksRemaining := pendingChunksRemaining s2 - 1\<rparr>"
    by (auto simp: freshChunk_def split: if_splits sum.splits)
  have s1: "peerStore s1 = peerStore s" "peerOf s1 = peerOf s" "preallocated s1 = preallocated s"
    using sortPeersForPiece_shape[OF 1] by (simp_all add: sameShape_def)
  have n1: "nextOf s1 = nextOf s" using s1(1) by (simp add: nextOf_def fun_eq_iff)
  have s2: "peerOf s2 = peerOf s1" "preallocated s2 = preallocated s1"
    using assignWalk_shape[OF 2] by (simp_all add: sameShape_def)
  have n3: "nextOf s' = nextOf s2" using 3 by (simp add: nextOf_def fun_eq_iff)
  have none: "\<forall>a \<in> A. ?req \<notin> nextOf s1 a"
    using st c True unfolding n1 by (auto simp: settled_def heldByRow_def rowPeers_def)
  have "settled A p C (insert c D) s'"
  proof (rule settled_step[OF st])
    show "peerOf s' = peerOf s" using 3 s1 s2 by simp
    show "preallocated s' = preallocated s" using 3 s1 s2 by simp
    show "atMostOne A (nextOf s') ?req" unfolding n3 by (rule assignWalk_one[OF 2 none])
    show "\<And>r a. r \<noteq> ?req \<Longrightarrow> r \<in> nextOf s' a \<longleftrightarrow> r \<in> nextOf s a"
      unfolding n3 using assignWalk_other[OF 2] unfolding n1 by simp
  qed
  then show ?thesis using True by simp
qed

lemma freshChunks_settled:
  "distinct cs \<Longrightarrow> set cs \<subseteq> C \<Longrightarrow> set cs \<inter> D = {} \<Longrightarrow> settled A p C D s \<Longrightarrow>
   freshChunks p cs s = Inr s' \<Longrightarrow>
   settled A p C (D \<union> {c \<in> set cs. preallocated s ! unat c = []}) s'"
proof (induction cs arbitrary: s D)
  case Nil
  then show ?case by simp
next
  case (Cons c cs)
  then obtain s1 where 1: "freshChunk p c s = Inr s1" and 2: "freshChunks p cs s1 = Inr s'"
    by (auto split: sum.splits)
  let ?D1 = "if preallocated s ! unat c = [] then insert c D else D"
  have c: "c \<in> C" "c \<notin> D" using Cons.prems by auto
  have st1: "settled A p C ?D1 s1" by (rule freshChunk_settled[OF Cons.prems(4) c 1])
  have pre: "preallocated s1 = preallocated s"
    using freshChunk_shape[OF 1] by (simp add: sameShape_def)
  have d: "distinct cs" "set cs \<subseteq> C" "set cs \<inter> ?D1 = {}" using Cons.prems by auto
  have "settled A p C (?D1 \<union> {c \<in> set cs. preallocated s1 ! unat c = []}) s'"
    by (rule Cons.IH[OF d st1 2])
  moreover have "?D1 \<union> {c \<in> set cs. preallocated s1 ! unat c = []} =
      D \<union> {x \<in> set (c # cs). preallocated s ! unat x = []}"
    unfolding pre by auto
  ultimately show ?case by simp
qed

lemma rebalanceChunk_settled:
  assumes st: "settled A p C D s"
    and c: "preallocated s ! unat c \<noteq> [] \<longrightarrow> c \<in> C \<and> c \<notin> D"
    and r: "rebalanceChunk p (unat c) s = Inr s'"
  shows "settled A p C (if preallocated s ! unat c = [] then D else insert c D) s'"
  using r
proof (cases rule: rebalanceChunk_cases)
  case kept
  then show ?thesis using st by simp
next
  case (moved s3 b)
  let ?row = "preallocated s ! unat c"
  let ?s1 = "s\<lparr>pendingChunksRemaining := pendingChunksRemaining s - 1\<rparr>"
  let ?s2 = "foldl decRequestsInPiece ?s1 ?row"
  let ?req = "chunkIndexToRequestIndex p c"
  let ?s4 = "foldl (removeNextRequest ?req) s3 ?row"
  have w: "word_of_nat (unat c) = c" by simp
  note sort = moved(2)[unfolded w] and walk = moved(3)[unfolded w]
  have s2: "peerStore ?s2 = peerStore s" "peerOf ?s2 = peerOf s"
    "preallocated ?s2 = preallocated s"
    using foldl_decRequestsInPiece[of ?s1 ?row] by (simp_all add: sameShape_def)
  have s3: "peerStore s3 = peerStore s" "peerOf s3 = peerOf s" "preallocated s3 = preallocated s"
    using sortPeersForPiece_shape[OF sort] s2 by (simp_all add: sameShape_def)
  have n3: "nextOf s3 = nextOf s" using s3(1) by (simp add: nextOf_def fun_eq_iff)
  have s4: "peerOf ?s4 = peerOf s" "preallocated ?s4 = preallocated s"
    "peersForPiece ?s4 = peersForPiece s3"
    using foldl_removeNextRequest_shape[of s3 ?req ?row] s3 by (simp_all add: sameShape_def)
  have n4: "\<And>a. nextOf ?s4 a = (if a \<in> rowPeers s (unat c) then nextOf s a - {?req}
                                  else nextOf s a)"
    unfolding nextOf_foldl_removeNextRequest s3 n3 rowPeers_def by simp
  have walk': "assignWalk p ?req (peersForPiece ?s4) ?s4 = Inr (b, s')"
    using walk s4(3) by simp
  have s5: "peerOf s' = peerOf s" "preallocated s' = preallocated s"
    using assignWalk_shape[OF walk'] s4 by (simp_all add: sameShape_def)
  from c moved(1) have cC: "c \<in> C" "c \<notin> D" by simp_all
  have held: "heldByRow A p s c" using st cC by (simp add: settled_def)
  have none: "\<forall>a \<in> A. ?req \<notin> nextOf ?s4 a"
  proof
    fix a assume "a \<in> A"
    with held have "?req \<in> nextOf s a \<longrightarrow> a \<in> rowPeers s (unat c)"
      by (simp add: heldByRow_def)
    then show "?req \<notin> nextOf ?s4 a" unfolding n4 by auto
  qed
  have "settled A p C (insert c D) s'"
  proof (rule settled_step[OF st s5])
    show "atMostOne A (nextOf s') ?req" by (rule assignWalk_one[OF walk' none])
    show "\<And>r a. r \<noteq> ?req \<Longrightarrow> r \<in> nextOf s' a \<longleftrightarrow> r \<in> nextOf s a"
      using assignWalk_other[OF walk'] unfolding n4 by auto
  qed
  then show ?thesis using moved(1) by simp
qed

lemma rebalanceChunks_settled:
  fixes cs :: "ChunkIndex list"
  shows "distinct cs \<Longrightarrow> settled A p C D s \<Longrightarrow>
   \<forall>c \<in> set cs. preallocated s ! unat c \<noteq> [] \<longrightarrow> c \<in> C \<and> c \<notin> D \<Longrightarrow>
   rebalanceChunks p (map unat cs) s = Inr s' \<Longrightarrow>
   settled A p C (D \<union> {c \<in> set cs. preallocated s ! unat c \<noteq> []}) s'"
proof (induction cs arbitrary: s D)
  case Nil
  then show ?case by simp
next
  case (Cons c cs)
  then obtain s1 where 1: "rebalanceChunk p (unat c) s = Inr s1"
    and 2: "rebalanceChunks p (map unat cs) s1 = Inr s'"
    by (auto split: sum.splits)
  let ?D1 = "if preallocated s ! unat c = [] then D else insert c D"
  have c: "preallocated s ! unat c \<noteq> [] \<longrightarrow> c \<in> C \<and> c \<notin> D" using Cons.prems(3) by simp
  have st1: "settled A p C ?D1 s1" by (rule rebalanceChunk_settled[OF Cons.prems(2) c 1])
  have pre: "preallocated s1 = preallocated s"
    using rebalanceChunk_shape[OF 1] by (simp add: sameShape_def)
  have d: "distinct cs" using Cons.prems(1) by simp
  have r: "\<forall>x \<in> set cs. preallocated s1 ! unat x \<noteq> [] \<longrightarrow> x \<in> C \<and> x \<notin> ?D1"
    unfolding pre using Cons.prems(1,3) by auto
  have "settled A p C (?D1 \<union> {c \<in> set cs. preallocated s1 ! unat c \<noteq> []}) s'"
    by (rule Cons.IH[OF d st1 r 2])
  moreover have "?D1 \<union> {c \<in> set cs. preallocated s1 ! unat c \<noteq> []} =
      D \<union> {x \<in> set (c # cs). preallocated s ! unat x \<noteq> []}"
    unfolding pre by auto
  ultimately show ?case by simp
qed

lemma upt_as_words:
  assumes "L \<le> 2 ^ 32"
  shows "[0 ..< L] = map unat (map word_of_nat [0 ..< L] :: 32 word list) \<and>
         distinct (map word_of_nat [0 ..< L] :: 32 word list)"
proof
  have u: "\<And>k. k < L \<Longrightarrow> unat (word_of_nat k :: 32 word) = k"
    using assms by (simp add: unat_of_nat)
  show "[0 ..< L] = map unat (map word_of_nat [0 ..< L] :: 32 word list)"
    by (rule nth_equalityI) (simp_all add: u)
  show "distinct (map word_of_nat [0 ..< L] :: 32 word list)"
    unfolding distinct_map
  proof (intro conjI inj_onI)
    fix x y assume "x \<in> set [0 ..< L]" "y \<in> set [0 ..< L]"
      and e: "(word_of_nat x :: 32 word) = word_of_nat y"
    then have x: "x < L" and y: "y < L" by simp_all
    from e have "unat (word_of_nat x :: 32 word) = unat (word_of_nat y :: 32 word)"
      by (rule arg_cong)
    then show "x = y" unfolding u[OF x] u[OF y] .
  qed simp
qed

lemma filterPeers_next:
  "nextState_Requests (peerStore (filterPeers p as s) a) = nextState_Requests (peerStore s a)"
proof -
  have "closedRemaining (\<lambda>rp. nextState_Requests rp = nextState_Requests (peerStore s a))"
    by (simp add: closedRemaining_def)
  from filterPeers_Q[OF this, of s a p as] show ?thesis by simp
qed

lemma allocatePasses_one:
  assumes d: "distinct (IterPendingChunks p)"
    and free: "\<forall>a \<in> A. \<forall>c \<in> set (IterPendingChunks p).
                 chunkIndexToRequestIndex p c \<notin> nextState_Requests (store a)"
    and run: "allocatePasses p peers store = Inr s"
  shows "\<forall>c \<in> set (IterPendingChunks p).
           atMostOne A (nextOf s) (chunkIndexToRequestIndex p c)"
  using run
proof (cases rule: allocatePasses_split)
  case (1 s2 s3)
  let ?cs = "IterPendingChunks p"
  let ?C = "set ?cs"
  let ?L = "unat (ChunksPerPiece (rp_t p))"
  let ?s0 = "filterPeers p peers
           \<lparr>peerStore = store, wrappers = [], peersForPiece = [],
            preallocated = [], pendingChunksRemaining = 0\<rparr>"
  let ?s1 = "?s0\<lparr>preallocated := replicate ?L []\<rparr>"
  let ?s2' = "s2\<lparr>pendingChunksRemaining := NumPendingChunks p\<rparr>"
  let ?pre = "preallocated s2"
  let ?ws = "map word_of_nat [0 ..< ?L] :: 32 word list"
  let ?D2 = "{c \<in> ?C. ?pre ! unat c = []}"
  have n1: "\<And>a. nextOf ?s1 a = nextState_Requests (store a)"
    by (simp add: nextOf_def filterPeers_next)
  have "\<forall>c \<in> ?C. heldByRow A p ?s1 c"
    unfolding heldByRow_def n1 using free by blast
  from preallocChunks_held[OF 1(1) this] have h2: "\<forall>c \<in> ?C. heldByRow A p s2 c" .
  have st2: "settled A p ?C {} ?s2'"
    using h2 by (simp add: settled_def heldByRow_def rowPeers_def nextOf_def)
  have len: "length ?pre = ?L"
    using preallocChunks_shape[OF 1(1)] by (simp add: sameCandidates_def)
  have rows: "\<forall>k < ?L. ?pre ! k \<noteq> [] \<longrightarrow> k \<in> unat ` ?C"
  proof (intro allI impI)
    fix k assume k: "k < ?L" and n: "?pre ! k \<noteq> []"
    from preallocChunks_rows[OF 1(1) _ n] k len show "k \<in> unat ` ?C" by auto
  qed
  have inr: "\<forall>c \<in> ?C. unat c < ?L" using freshChunks_counter[OF 1(2)] len by simp
  have pre3: "preallocated s3 = ?pre"
    using freshChunks_shape[OF 1(2)] by (simp add: sameShape_def)
  have st3: "settled A p ?C ?D2 s3"
    using freshChunks_settled[OF d subset_refl _ st2 1(2)] by simp
  have "?L < 2 ^ 32" using unsigned_less[of "ChunksPerPiece (rp_t p)"] by simp
  then have L: "?L \<le> 2 ^ 32" by simp
  note w = upt_as_words[OF L]
  have reb: "rebalanceChunks p (map unat ?ws) s3 = Inr s"
    using 1(3) unfolding pre3 len using w by simp
  have u: "\<And>k. k < ?L \<Longrightarrow> unat (word_of_nat k :: 32 word) = k"
    using L by (simp add: unat_of_nat)
  have cond: "\<forall>c \<in> set ?ws. preallocated s3 ! unat c \<noteq> [] \<longrightarrow> c \<in> ?C \<and> c \<notin> ?D2"
  proof (intro ballI impI)
    fix c assume c: "c \<in> set ?ws" and n: "preallocated s3 ! unat c \<noteq> []"
    then obtain k where k: "k < ?L" "c = word_of_nat k" by auto
    then have uc: "unat c = k" using u by simp
    with rows k n pre3 obtain c' where c': "c' \<in> ?C" "unat c' = unat c" by auto
    then have "c' = c" by (simp add: word_unat_eq_iff)
    with c' n pre3 show "c \<in> ?C \<and> c \<notin> ?D2" by simp
  qed
  have st: "settled A p ?C (?D2 \<union> {c \<in> set ?ws. preallocated s3 ! unat c \<noteq> []}) s"
    by (rule rebalanceChunks_settled[OF conjunct2[OF w] st3 cond reb])
  show ?thesis
  proof
    fix c assume c: "c \<in> ?C"
    with inr have k: "unat c < ?L" by simp
    have "c = word_of_nat (unat c)" by simp
    with k have "c \<in> set ?ws" by (metis atLeast0LessThan imageI lessThan_iff set_map set_upt)
    with c have "c \<in> ?D2 \<union> {c \<in> set ?ws. preallocated s3 ! unat c \<noteq> []}"
      unfolding pre3 by auto
    with st c show "atMostOne A (nextOf s) (chunkIndexToRequestIndex p c)"
      unfolding settled_def by (auto split: if_splits)
  qed
qed

lemma allocatePendingChunks_one:
  assumes d: "distinct (IterPendingChunks p)"
    and free: "\<forall>a \<in> A. \<forall>c \<in> set (IterPendingChunks p).
                 chunkIndexToRequestIndex p c \<notin> nextState_Requests (store a)"
    and run: "allocatePendingChunks p peers store = Inr store'"
  shows "\<forall>c \<in> set (IterPendingChunks p).
           atMostOne A (\<lambda>a. nextState_Requests (store' a)) (chunkIndexToRequestIndex p c)"
proof -
  obtain s where s: "allocatePasses p peers store = Inr s"
    and e: "store' = peerStore (foldl decRemaining s (peersForPiece s))"
    using run by (auto simp: allocatePendingChunks_def split: sum.splits if_splits)
  have "(\<lambda>a. nextState_Requests (store' a)) = nextOf s"
    unfolding e by (rule ext) (simp add: foldl_decRemaining_store nextOf_def)
  then show ?thesis using allocatePasses_one[OF d free s] by simp
qed

subsection \<open>The allocator: the walk that settles a chunk\<close>

lemma freshChunk_other:
  assumes f: "freshChunk p c s = Inr s'" and r: "r \<noteq> chunkIndexToRequestIndex p c"
  shows "r \<in> nextOf s' a \<longleftrightarrow> r \<in> nextOf s a"
proof (cases "preallocated s ! unat c = []")
  case False
  then have "s' = s" using f by (auto simp: freshChunk_def split: if_splits)
  then show ?thesis by simp
next
  case True
  from f True obtain s1 b s2 where
        1: "sortPeersForPiece p None s = Inr s1"
    and 2: "assignWalk p (chunkIndexToRequestIndex p c) (peersForPiece s1) s1 = Inr (b, s2)"
    and 3: "s' = s2\<lparr>pendingChunksRemaining := pendingChunksRemaining s2 - 1\<rparr>"
    by (auto simp: freshChunk_def split: if_splits sum.splits)
  have "peerStore s1 = peerStore s" using sortPeersForPiece_shape[OF 1] by simp
  then have n1: "nextOf s1 = nextOf s" by (simp add: nextOf_def fun_eq_iff)
  have n3: "nextOf s' = nextOf s2" using 3 by (simp add: nextOf_def fun_eq_iff)
  show ?thesis unfolding n3 using assignWalk_other[OF 2 r] unfolding n1 .
qed

lemma freshChunks_other:
  "freshChunks p cs s = Inr s' \<Longrightarrow> r \<notin> chunkIndexToRequestIndex p ` set cs \<Longrightarrow>
   r \<in> nextOf s' a \<longleftrightarrow> r \<in> nextOf s a"
proof (induction cs arbitrary: s)
  case Nil
  then show ?case by simp
next
  case (Cons c cs)
  then obtain s1 where 1: "freshChunk p c s = Inr s1" and 2: "freshChunks p cs s1 = Inr s'"
    by (auto split: sum.splits)
  have "r \<noteq> chunkIndexToRequestIndex p c" "r \<notin> chunkIndexToRequestIndex p ` set cs"
    using Cons.prems(2) by auto
  then show ?case using freshChunk_other[OF 1] Cons.IH[OF 2] by simp
qed

lemma rebalanceChunk_other:
  assumes rb: "rebalanceChunk p k s = Inr s'"
    and r: "r \<noteq> chunkIndexToRequestIndex p (word_of_nat k) \<or> preallocated s ! k = []"
  shows "r \<in> nextOf s' a \<longleftrightarrow> r \<in> nextOf s a"
  using rb
proof (cases rule: rebalanceChunk_cases)
  case kept
  then show ?thesis by simp
next
  case (moved s3 b)
  let ?row = "preallocated s ! k"
  let ?s1 = "s\<lparr>pendingChunksRemaining := pendingChunksRemaining s - 1\<rparr>"
  let ?s2 = "foldl decRequestsInPiece ?s1 ?row"
  let ?req = "chunkIndexToRequestIndex p (word_of_nat k)"
  let ?s4 = "foldl (removeNextRequest ?req) s3 ?row"
  from r moved(1) have ne: "r \<noteq> ?req" by simp
  have "peerStore ?s2 = peerStore s" using foldl_decRequestsInPiece[of ?s1 ?row] by simp
  then have "peerStore s3 = peerStore s" using sortPeersForPiece_shape[OF moved(2)] by simp
  then have n3: "nextOf s3 = nextOf s" by (simp add: nextOf_def fun_eq_iff)
  have n4: "r \<in> nextOf ?s4 a \<longleftrightarrow> r \<in> nextOf s a"
    unfolding nextOf_foldl_removeNextRequest n3 using ne by simp
  show ?thesis using assignWalk_other[OF moved(3) ne] n4 by simp
qed

lemma rebalanceChunks_other:
  "rebalanceChunks p ks s = Inr s' \<Longrightarrow>
   \<forall>k \<in> set ks. r \<noteq> chunkIndexToRequestIndex p (word_of_nat k) \<or> preallocated s ! k = [] \<Longrightarrow>
   r \<in> nextOf s' a \<longleftrightarrow> r \<in> nextOf s a"
proof (induction ks arbitrary: s)
  case Nil
  then show ?case by simp
next
  case (Cons k ks)
  then obtain s1 where 1: "rebalanceChunk p k s = Inr s1"
    and 2: "rebalanceChunks p ks s1 = Inr s'"
    by (auto split: sum.splits)
  have pre: "preallocated s1 = preallocated s"
    using rebalanceChunk_shape[OF 1] by (simp add: sameShape_def)
  have k: "r \<noteq> chunkIndexToRequestIndex p (word_of_nat k) \<or> preallocated s ! k = []"
    using Cons.prems(2) by simp
  have ks: "\<forall>k \<in> set ks. r \<noteq> chunkIndexToRequestIndex p (word_of_nat k) \<or>
              preallocated s1 ! k = []"
    unfolding pre using Cons.prems(2) by simp
  show ?case using rebalanceChunk_other[OF 1 k] Cons.IH[OF 2 ks] by simp
qed

lemma freshChunks_append:
  "freshChunks p (xs @ ys) s =
     (case freshChunks p xs s of Inl e \<Rightarrow> Inl e | Inr s1 \<Rightarrow> freshChunks p ys s1)"
  by (induction xs arbitrary: s) (simp_all split: sum.splits)

lemma rebalanceChunks_append:
  "rebalanceChunks p (xs @ ys) s =
     (case rebalanceChunks p xs s of Inl e \<Rightarrow> Inl e | Inr s1 \<Rightarrow> rebalanceChunks p ys s1)"
  by (induction xs arbitrary: s) (simp_all split: sum.splits)

lemma preallocChunks_grown:
  "preallocChunks p cs s = Inr s' \<Longrightarrow> r \<in> nextOf s' a \<Longrightarrow>
   r \<in> nextOf s a \<or> r \<in> chunkIndexToRequestIndex p ` set cs"
proof (induction cs arbitrary: s)
  case Nil
  then show ?case by simp
next
  case (Cons c cs)
  then obtain s1 where 1: "preallocPeers c (chunkIndexToRequestIndex p c)
                               (peersForPiece s) s = Inr s1"
    and 2: "preallocChunks p cs s1 = Inr s'"
    by (auto split: sum.splits)
  from Cons.IH[OF 2 Cons.prems(2)]
  have "r \<in> nextOf s1 a \<or> r \<in> chunkIndexToRequestIndex p ` set cs" .
  then show ?case
  proof
    assume "r \<in> nextOf s1 a"
    with preallocPeers_next[OF 1] have "r \<in> nextOf s a \<or> r = chunkIndexToRequestIndex p c"
      by blast
    then show ?thesis by auto
  qed auto
qed

lemma closedQ_sameFields: "closedQ (sameFields rp)"
  by (simp add: closedQ_def sameFields_def)

lemma closedRemaining_sameFields: "closedRemaining (sameFields rp)"
  by (simp add: closedRemaining_def sameFields_def)

lemma sameFields_refl: "sameFields rp rp"
  by (simp add: sameFields_def)

lemma reached_start: "reached p peers store (startState p peers store)"
proof -
  let ?i = "\<lparr>peerStore = store, wrappers = [], peersForPiece = [],
            preallocated = [], pendingChunksRemaining = 0\<rparr>"
  let ?s0 = "filterPeers p peers ?i"
  let ?s1 = "startState p peers store"
  let ?c = "candidates p store peers"
  note f = filterPeers_wrappers[of p peers ?i]
  have w0: "wrappers ?s0 = map (\<lambda>a. \<lparr>requestsInPiece = 0, pfp_peer = a\<rparr>) ?c"
    and p0: "peersForPiece ?s0 = [0 ..< length ?c]"
    using f by simp_all
  have po: "\<forall>w < length ?c. peerOf ?s1 w = ?c ! w"
    by (simp add: startState_def peerOf_def w0)
  have pp: "peersForPiece ?s1 = [0 ..< length ?c]" using p0 by (simp add: startState_def)
  have "peerOf ?s1 ` set (peersForPiece ?s1) = (\<lambda>w. ?c ! w) ` {0 ..< length ?c}"
    unfolding pp using po by (auto intro!: image_cong)
  also have "\<dots> = set ?c" unfolding set_conv_nth by auto
  finally have 1: "peerOf ?s1 ` set (peersForPiece ?s1) = set ?c" .
  have 2: "sameFields (store a) (peerStore ?s1 a)" for a
    using filterPeers_Q[OF closedRemaining_sameFields, of "store a" ?i a p peers]
    by (simp add: startState_def sameFields_refl)
  have 3: "nextOf ?s1 a = nextState_Requests (store a)" for a
    by (simp add: nextOf_def startState_def filterPeers_next)
  show ?thesis unfolding reached_def using 1 2 3 by (simp add: sameFields_def)
qed

lemma reached_step:
  assumes r: "reached p peers store s"
    and po: "peerOf s' = peerOf s"
    and pp: "set (peersForPiece s') = set (peersForPiece s)"
    and f: "\<And>a rp. sameFields rp (peerStore s a) \<Longrightarrow> sameFields rp (peerStore s' a)"
    and g: "\<And>a r. r \<in> nextOf s' a \<Longrightarrow>
              r \<in> nextOf s a \<or> r \<in> chunkIndexToRequestIndex p ` set (IterPendingChunks p)"
  shows "reached p peers store s'"
proof -
  have "sameFields (store a) (peerStore s a)" for a
    using r by (simp add: reached_def sameFields_def)
  then have "sameFields (store a) (peerStore s' a)" for a by (rule f)
  then have 2: "\<forall>a. Choking (peerStore s' a) = Choking (store a) \<and>
          PieceAllowedFast (peerStore s' a) = PieceAllowedFast (store a) \<and>
          MaxRequests (peerStore s' a) = MaxRequests (store a)"
    by (simp add: sameFields_def)
  have 3: "\<forall>a r. r \<in> nextOf s' a \<longrightarrow>
        r \<in> nextState_Requests (store a) \<or>
        r \<in> chunkIndexToRequestIndex p ` set (IterPendingChunks p)"
  proof (intro allI impI)
    fix a r assume "r \<in> nextOf s' a"
    from g[OF this] r show "r \<in> nextState_Requests (store a) \<or>
        r \<in> chunkIndexToRequestIndex p ` set (IterPendingChunks p)"
      unfolding reached_def by blast
  qed
  have 1: "peerOf s' ` set (peersForPiece s') = set (candidates p store peers)"
    unfolding po pp using r by (simp add: reached_def)
  show ?thesis unfolding reached_def using 1 2 3 by blast
qed

lemma reached_preallocChunks:
  assumes "reached p peers store s" "preallocChunks p cs s = Inr s'"
    "set cs \<subseteq> set (IterPendingChunks p)"
  shows "reached p peers store s'"
proof (rule reached_step[OF assms(1)])
  note sh = preallocChunks_shape[OF assms(2)]
  show "peerOf s' = peerOf s" using sh by (simp add: sameCandidates_def)
  show "set (peersForPiece s') = set (peersForPiece s)" using sh by (simp add: sameCandidates_def)
  show "sameFields rp (peerStore s a) \<Longrightarrow> sameFields rp (peerStore s' a)" for a rp
    by (rule preallocChunks_Q[OF closedQ_sameFields assms(2)])
  show "r \<in> nextOf s' a \<Longrightarrow>
        r \<in> nextOf s a \<or> r \<in> chunkIndexToRequestIndex p ` set (IterPendingChunks p)" for a r
    using preallocChunks_grown[OF assms(2), of r a] assms(3) by blast
qed

lemma reached_freshChunks:
  assumes "reached p peers store s" "freshChunks p cs s = Inr s'"
    "set cs \<subseteq> set (IterPendingChunks p)"
  shows "reached p peers store s'"
proof (rule reached_step[OF assms(1)])
  note sh = freshChunks_shape[OF assms(2)]
  show "peerOf s' = peerOf s" using sh by (simp add: sameShape_def)
  show "set (peersForPiece s') = set (peersForPiece s)"
    using sh by (auto simp: sameShape_def dest: mset_eq_setD)
  show "sameFields rp (peerStore s a) \<Longrightarrow> sameFields rp (peerStore s' a)" for a rp
    by (rule freshChunks_Q[OF closedQ_sameFields assms(2)])
  show "r \<in> nextOf s' a \<Longrightarrow>
        r \<in> nextOf s a \<or> r \<in> chunkIndexToRequestIndex p ` set (IterPendingChunks p)" for a r
    using freshChunks_other[OF assms(2), of r a] assms(3) by blast
qed

lemma reached_rebalanceChunks:
  assumes "reached p peers store s" "rebalanceChunks p ks s = Inr s'"
    "\<forall>k \<in> set ks. preallocated s ! k \<noteq> [] \<longrightarrow> word_of_nat k \<in> set (IterPendingChunks p)"
  shows "reached p peers store s'"
proof (rule reached_step[OF assms(1)])
  note sh = rebalanceChunks_shape[OF assms(2)]
  show "peerOf s' = peerOf s" using sh by (simp add: sameShape_def)
  show "set (peersForPiece s') = set (peersForPiece s)"
    using sh by (auto simp: sameShape_def dest: mset_eq_setD)
  show "sameFields rp (peerStore s a) \<Longrightarrow> sameFields rp (peerStore s' a)" for a rp
    by (rule rebalanceChunks_Q[OF closedQ_sameFields assms(2)])
  show "r \<in> nextOf s' a \<Longrightarrow>
        r \<in> nextOf s a \<or> r \<in> chunkIndexToRequestIndex p ` set (IterPendingChunks p)" for a r
  proof (cases "r \<in> chunkIndexToRequestIndex p ` set (IterPendingChunks p)")
    case False
    then have "\<forall>k \<in> set ks. r \<noteq> chunkIndexToRequestIndex p (word_of_nat k) \<or>
                 preallocated s ! k = []"
      using assms(3) by blast
    from rebalanceChunks_other[OF assms(2) this, of a]
    show "r \<in> nextOf s' a \<Longrightarrow> ?thesis" by simp
  qed simp
qed

lemma reached_frame:
  assumes "reached p peers store s" "peerStore s' = peerStore s" "sameShape s s'"
  shows "reached p peers store s'"
proof (rule reached_step[OF assms(1)])
  show "peerOf s' = peerOf s" using assms(3) by (simp add: sameShape_def)
  show "set (peersForPiece s') = set (peersForPiece s)"
    using assms(3) by (auto simp: sameShape_def dest: mset_eq_setD)
  show "sameFields rp (peerStore s a) \<Longrightarrow> sameFields rp (peerStore s' a)" for a rp
    using assms(2) by simp
  show "r \<in> nextOf s' a \<Longrightarrow>
        r \<in> nextOf s a \<or> r \<in> chunkIndexToRequestIndex p ` set (IterPendingChunks p)" for a r
    using assms(2) by (simp add: nextOf_def)
qed

lemma reached_removeNextRequest:
  assumes "reached p peers store s"
  shows "reached p peers store (foldl (removeNextRequest req) s ws)"
proof (rule reached_step[OF assms(1)])
  note sh = foldl_removeNextRequest_shape[of s req ws]
  show "peerOf (foldl (removeNextRequest req) s ws) = peerOf s"
    using sh by (simp add: sameShape_def)
  show "set (peersForPiece (foldl (removeNextRequest req) s ws)) = set (peersForPiece s)"
    using sh by simp
  show "sameFields rp (peerStore s a) \<Longrightarrow>
        sameFields rp (peerStore (foldl (removeNextRequest req) s ws) a)" for a rp
    by (rule foldl_removeNextRequest_Q[OF closedQ_sameFields])
  show "r \<in> nextOf (foldl (removeNextRequest req) s ws) a \<Longrightarrow>
        r \<in> nextOf s a \<or> r \<in> chunkIndexToRequestIndex p ` set (IterPendingChunks p)" for a r
    unfolding nextOf_foldl_removeNextRequest by (auto split: if_splits)
qed

lemma assignWalk_chosen:
  assumes w: "assignWalk p req (peersForPiece s) s = Inr (b, s')"
  shows "req \<in> nextOf s' a \<longleftrightarrow> req \<in> nextOf s a \<or> chosenAt p s a"
  using assignWalk_result[where p=p and s=s and ws="peersForPiece s" and req=req] w
  by (auto simp: chosenAt_def split: option.splits if_splits)

lemma prealloc_settled:
  assumes free: "\<forall>a \<in> A. \<forall>c \<in> set (IterPendingChunks p).
                 chunkIndexToRequestIndex p c \<notin> nextState_Requests (store a)"
    and pre: "preallocChunks p (IterPendingChunks p) (startState p peers store) = Inr s2"
  shows "settled A p (set (IterPendingChunks p)) {}
           (s2\<lparr>pendingChunksRemaining := NumPendingChunks p\<rparr>) \<and>
         reached p peers store (s2\<lparr>pendingChunksRemaining := NumPendingChunks p\<rparr>) \<and>
         length (preallocated s2) = unat (ChunksPerPiece (rp_t p)) \<and>
         (\<forall>k < unat (ChunksPerPiece (rp_t p)).
            preallocated s2 ! k \<noteq> [] \<longrightarrow> k \<in> unat ` set (IterPendingChunks p))"
proof -
  let ?C = "set (IterPendingChunks p)"
  let ?s1 = "startState p peers store"
  let ?s2' = "s2\<lparr>pendingChunksRemaining := NumPendingChunks p\<rparr>"
  let ?L = "unat (ChunksPerPiece (rp_t p))"
  have n1: "\<And>a. nextOf ?s1 a = nextState_Requests (store a)"
    by (simp add: nextOf_def startState_def filterPeers_next)
  have "\<forall>c \<in> ?C. heldByRow A p ?s1 c"
    unfolding heldByRow_def n1 using free by blast
  from preallocChunks_held[OF pre this] have h2: "\<forall>c \<in> ?C. heldByRow A p s2 c" .
  have st2: "settled A p ?C {} ?s2'"
    using h2 by (simp add: settled_def heldByRow_def rowPeers_def nextOf_def)
  have r2: "reached p peers store s2"
    by (rule reached_preallocChunks[OF reached_start pre subset_refl])
  have r2': "reached p peers store ?s2'"
    by (rule reached_frame[OF r2]) (simp_all add: sameShape_def)
  have pl: "preallocated ?s1 = replicate ?L []" by (simp add: startState_def)
  have len: "length (preallocated s2) = ?L"
    using preallocChunks_shape[OF pre] pl by (simp add: sameCandidates_def)
  have rows: "\<forall>k < ?L. preallocated s2 ! k \<noteq> [] \<longrightarrow> k \<in> unat ` ?C"
  proof (intro allI impI)
    fix k assume k: "k < ?L" and n: "preallocated s2 ! k \<noteq> []"
    from preallocChunks_rows[OF pre _ n] k len pl show "k \<in> unat ` ?C" by auto
  qed
  from st2 r2' len rows show ?thesis by blast
qed

lemma unat_word_of_nat_32: "k < 2 ^ 32 \<Longrightarrow> unat (word_of_nat k :: 32 word) = k"
  by (simp add: unat_of_nat)

lemma word_of_nat_neq:
  fixes c :: "32 word"
  assumes "k < 2 ^ 32" "k \<noteq> unat c"
  shows "word_of_nat k \<noteq> c"
proof
  assume "word_of_nat k = c"
  then have "unat (word_of_nat k :: 32 word) = unat c" by simp
  then show False using assms unat_word_of_nat_32 by simp
qed

lemma rows_other:
  fixes c :: ChunkIndex
  assumes "L \<le> 2 ^ 32" "set ks \<subseteq> {0 ..< L}"
    and "unat c \<notin> set ks \<or> pre ! unat c = []"
  shows "\<forall>k \<in> set ks. chunkIndexToRequestIndex p c \<noteq> chunkIndexToRequestIndex p (word_of_nat k)
           \<or> pre ! k = []"
proof
  fix k assume k: "k \<in> set ks"
  then have "k < 2 ^ 32" using assms(1,2) by auto
  show "chunkIndexToRequestIndex p c \<noteq> chunkIndexToRequestIndex p (word_of_nat k)
           \<or> pre ! k = []"
  proof (cases "k = unat c")
    case True
    then show ?thesis using assms(3) k by auto
  next
    case False
    from word_of_nat_neq[OF \<open>k < 2 ^ 32\<close> False] show ?thesis by auto
  qed
qed

lemma walk_fresh:
  assumes d: "distinct (IterPendingChunks p)"
    and free: "\<forall>a \<in> A. \<forall>c \<in> set (IterPendingChunks p).
                 chunkIndexToRequestIndex p c \<notin> nextState_Requests (store a)"
    and pre: "preallocChunks p (IterPendingChunks p) (startState p peers store) = Inr s2"
    and fr: "freshChunks p (IterPendingChunks p)
               (s2\<lparr>pendingChunksRemaining := NumPendingChunks p\<rparr>) = Inr s3"
    and rb: "rebalanceChunks p [0 ..< length (preallocated s3)] s3 = Inr sfin"
    and c: "c \<in> set (IterPendingChunks p)"
    and row: "preallocated s2 ! unat c = []"
  shows "\<exists>s sw. freshChunks p (takeWhile (\<lambda>x. x \<noteq> c) (IterPendingChunks p))
                   (s2\<lparr>pendingChunksRemaining := NumPendingChunks p\<rparr>) = Inr s \<and>
           sortPeersForPiece p None s = Inr sw \<and>
           reached p peers store sw \<and>
           (\<forall>a \<in> A. chunkIndexToRequestIndex p c \<notin> nextOf sw a) \<and>
           (\<forall>a. chunkIndexToRequestIndex p c \<in> nextOf sfin a \<longleftrightarrow>
                chunkIndexToRequestIndex p c \<in> nextOf sw a \<or> chosenAt p sw a)"
proof -
  let ?cs = "IterPendingChunks p"
  let ?C = "set ?cs"
  let ?s2' = "s2\<lparr>pendingChunksRemaining := NumPendingChunks p\<rparr>"
  let ?L = "unat (ChunksPerPiece (rp_t p))"
  let ?req = "chunkIndexToRequestIndex p c"
  let ?pre = "takeWhile (\<lambda>x. x \<noteq> c) ?cs"
  let ?post = "tl (dropWhile (\<lambda>x. x \<noteq> c) ?cs)"
  note ps = prealloc_settled[OF free pre]
  have dw: "dropWhile (\<lambda>x. x \<noteq> c) ?cs \<noteq> []" using c by (simp add: dropWhile_eq_Nil_conv)
  have hd: "hd (dropWhile (\<lambda>x. x \<noteq> c) ?cs) = c"
    using hd_dropWhile[OF dw] by simp
  have split: "?cs = ?pre @ c # ?post"
    using takeWhile_dropWhile_id[of "\<lambda>x. x \<noteq> c" ?cs] dw hd
    by (metis list.collapse)
  have cpre: "c \<notin> set ?pre" by (auto dest: set_takeWhileD)
  have cpost: "c \<notin> set ?post"
    using d split by (metis distinct.simps(2) distinct_append)
  have subpre: "set ?pre \<subseteq> ?C" by (auto dest: set_takeWhileD)
  have dpre: "distinct ?pre" using d by simp
  from fr obtain s sc where
        f1: "freshChunks p ?pre ?s2' = Inr s"
    and f2: "freshChunk p c s = Inr sc"
    and f3: "freshChunks p ?post sc = Inr s3"
    by (subst (asm) split) (auto simp: freshChunks_append split: sum.splits)
  have pres: "preallocated s = preallocated s2"
    using freshChunks_shape[OF f1] by (simp add: sameShape_def)
  have rows: "preallocated s ! unat c = []" using row pres by simp
  from f2 rows obtain sw b sa where
        1: "sortPeersForPiece p None s = Inr sw"
    and 2: "assignWalk p ?req (peersForPiece sw) sw = Inr (b, sa)"
    and 3: "sc = sa\<lparr>pendingChunksRemaining := pendingChunksRemaining sa - 1\<rparr>"
    by (auto simp: freshChunk_def split: if_splits sum.splits)
  note sh1 = sortPeersForPiece_shape[OF 1]
  have nsw: "nextOf sw = nextOf s" using sh1 by (simp add: nextOf_def fun_eq_iff)
  have rs: "reached p peers store s"
    using reached_freshChunks[OF _ f1 subpre] ps by blast
  have rsw: "reached p peers store sw"
    by (rule reached_frame[OF rs]) (use sh1 in simp_all)
  have st: "settled A p ?C ({} \<union> {x \<in> set ?pre. preallocated ?s2' ! unat x = []}) s"
    using freshChunks_settled[OF dpre subpre _ _ f1, of "{}" A] ps by simp
  have held: "heldByRow A p s c" using st c cpre by (simp add: settled_def)
  have none: "\<forall>a \<in> A. ?req \<notin> nextOf sw a"
    unfolding nsw using held rows by (auto simp: heldByRow_def rowPeers_def)
  have "?L < 2 ^ 32" using unsigned_less[of "ChunksPerPiece (rp_t p)"] by simp
  then have L: "?L \<le> 2 ^ 32" by simp
  have pre3: "preallocated s3 = preallocated s2"
    using freshChunks_shape[OF fr] by (simp add: sameShape_def)
  have len3: "length (preallocated s3) = ?L" using pre3 ps by simp
  have fin: "?req \<in> nextOf sfin a \<longleftrightarrow> ?req \<in> nextOf sw a \<or> chosenAt p sw a" for a
  proof -
    have "?req \<in> nextOf sfin a \<longleftrightarrow> ?req \<in> nextOf s3 a"
    proof (rule rebalanceChunks_other[OF rb])
      show "\<forall>k \<in> set [0 ..< length (preallocated s3)].
              ?req \<noteq> chunkIndexToRequestIndex p (word_of_nat k) \<or> preallocated s3 ! k = []"
        by (rule rows_other[OF L]) (use len3 pre3 row in auto)
    qed
    also have "\<dots> \<longleftrightarrow> ?req \<in> nextOf sc a"
      by (rule freshChunks_other[OF f3]) (use cpost in auto)
    also have "\<dots> \<longleftrightarrow> ?req \<in> nextOf sa a" using 3 by (simp add: nextOf_def)
    also have "\<dots> \<longleftrightarrow> ?req \<in> nextOf sw a \<or> chosenAt p sw a"
      by (rule assignWalk_chosen[OF 2])
    finally show ?thesis .
  qed
  from f1 1 rsw none fin show ?thesis by blast
qed

lemma upt_split_at: "k < (L::nat) \<Longrightarrow> [0 ..< L] = [0 ..< k] @ k # [Suc k ..< L]"
proof -
  assume k: "k < L"
  have "[0 ..< k + (L - k)] = [0 ..< k] @ [k ..< k + (L - k)]"
    by (rule upt_add_eq_append) simp
  then have "[0 ..< L] = [0 ..< k] @ [k ..< L]" using k by simp
  then show ?thesis using k by (simp add: upt_conv_Cons)
qed

lemma walk_rebalance:
  assumes d: "distinct (IterPendingChunks p)"
    and free: "\<forall>a \<in> A. \<forall>c \<in> set (IterPendingChunks p).
                 chunkIndexToRequestIndex p c \<notin> nextState_Requests (store a)"
    and pre: "preallocChunks p (IterPendingChunks p) (startState p peers store) = Inr s2"
    and fr: "freshChunks p (IterPendingChunks p)
               (s2\<lparr>pendingChunksRemaining := NumPendingChunks p\<rparr>) = Inr s3"
    and rb: "rebalanceChunks p [0 ..< length (preallocated s3)] s3 = Inr sfin"
    and c: "c \<in> set (IterPendingChunks p)"
    and row: "preallocated s2 ! unat c \<noteq> []"
  shows "\<exists>t s1 sw. rebalanceChunks p [0 ..< unat c] s3 = Inr t \<and>
           sortPeersForPiece p (Some (chunkIndexToRequestIndex p c))
             (foldl decRequestsInPiece
                (t\<lparr>pendingChunksRemaining := pendingChunksRemaining t - 1\<rparr>)
                (preallocated t ! unat c)) = Inr s1 \<and>
           sw = foldl (removeNextRequest (chunkIndexToRequestIndex p c)) s1
                  (preallocated t ! unat c) \<and>
           reached p peers store sw \<and>
           (\<forall>a \<in> A. chunkIndexToRequestIndex p c \<notin> nextOf sw a) \<and>
           (\<forall>a. chunkIndexToRequestIndex p c \<in> nextOf sfin a \<longleftrightarrow>
                chunkIndexToRequestIndex p c \<in> nextOf sw a \<or> chosenAt p sw a)"
proof -
  let ?cs = "IterPendingChunks p"
  let ?C = "set ?cs"
  let ?s2' = "s2\<lparr>pendingChunksRemaining := NumPendingChunks p\<rparr>"
  let ?L = "unat (ChunksPerPiece (rp_t p))"
  let ?req = "chunkIndexToRequestIndex p c"
  let ?k = "unat c"
  let ?D2 = "{x \<in> ?C. preallocated s2 ! unat x = []}"
  let ?ws = "map word_of_nat [0 ..< ?k] :: 32 word list"
  note ps = prealloc_settled[OF free pre]
  have len: "length (preallocated s2) = ?L" using ps by blast
  have rows: "\<forall>k < ?L. preallocated s2 ! k \<noteq> [] \<longrightarrow> k \<in> unat ` ?C" using ps by blast
  have pre3: "preallocated s3 = preallocated s2"
    using freshChunks_shape[OF fr] by (simp add: sameShape_def)
  have len3: "length (preallocated s3) = ?L" using pre3 len by simp
  have inr: "\<forall>x \<in> ?C. unat x < ?L" using freshChunks_counter[OF fr] len by simp
  then have k: "?k < ?L" using c by blast
  have "?L < 2 ^ 32" using unsigned_less[of "ChunksPerPiece (rp_t p)"] by simp
  then have L: "?L \<le> 2 ^ 32" by simp
  have kL: "?k \<le> 2 ^ 32" using k L by simp
  have st3: "settled A p ?C ?D2 s3"
    using freshChunks_settled[OF d subset_refl _ _ fr, of "{}" A] ps by simp
  have r3: "reached p peers store s3"
    using reached_freshChunks[OF _ fr subset_refl] ps by blast
  from rb obtain t tc where
        b1: "rebalanceChunks p [0 ..< ?k] s3 = Inr t"
    and b2: "rebalanceChunk p ?k t = Inr tc"
    and b3: "rebalanceChunks p [Suc ?k ..< ?L] tc = Inr sfin"
    unfolding len3 by (subst (asm) upt_split_at[OF k])
      (auto simp: rebalanceChunks_append split: sum.splits)
  have pret: "preallocated t = preallocated s2"
    using rebalanceChunks_shape[OF b1] pre3 by (simp add: sameShape_def)
  have pretc: "preallocated tc = preallocated s2"
    using rebalanceChunk_shape[OF b2] pret by (simp add: sameShape_def)
  have rowc: "\<forall>k < ?L. preallocated s2 ! k \<noteq> [] \<longrightarrow> word_of_nat k \<in> ?C"
  proof (intro allI impI)
    fix k assume "k < ?L" "preallocated s2 ! k \<noteq> []"
    with rows obtain x where "x \<in> ?C" "k = unat x" by blast
    then show "word_of_nat k \<in> ?C" by simp
  qed
  note w = upt_as_words[OF kL]
  have b1': "rebalanceChunks p (map unat ?ws) s3 = Inr t" using b1 w by simp
  have cond: "\<forall>x \<in> set ?ws. preallocated s3 ! unat x \<noteq> [] \<longrightarrow> x \<in> ?C \<and> x \<notin> ?D2"
  proof (intro ballI impI)
    fix x assume x: "x \<in> set ?ws" and n: "preallocated s3 ! unat x \<noteq> []"
    then obtain j where j: "j < ?k" "x = word_of_nat j" by auto
    then have ux: "unat x = j" using kL by (simp add: unat_of_nat)
    have "word_of_nat j \<in> ?C" using rowc j(1) k n ux pre3 by simp
    then show "x \<in> ?C \<and> x \<notin> ?D2" using j n pre3 by simp
  qed
  have stt: "settled A p ?C (?D2 \<union> {x \<in> set ?ws. preallocated s3 ! unat x \<noteq> []}) t"
    by (rule rebalanceChunks_settled[OF conjunct2[OF w] st3 cond b1'])
  have cws: "c \<notin> set ?ws"
  proof
    assume "c \<in> set ?ws"
    then obtain j where j: "j < ?k" "c = word_of_nat j" by auto
    then have "unat c = j" using kL by (simp add: unat_of_nat)
    with j(1) show False by simp
  qed
  have held: "heldByRow A p t c"
    using stt c row cws by (simp add: settled_def)
  have rt: "reached p peers store t"
  proof (rule reached_rebalanceChunks[OF r3 b1])
    show "\<forall>j \<in> set [0 ..< ?k]. preallocated s3 ! j \<noteq> [] \<longrightarrow> word_of_nat j \<in> ?C"
      using rowc k pre3 by simp
  qed
  have rowt: "preallocated t ! ?k \<noteq> []" using row pret by simp
  from b2 rowt obtain s1 b where
        m2: "sortPeersForPiece p (Some (chunkIndexToRequestIndex p (word_of_nat ?k)))
         (foldl decRequestsInPiece
            (t\<lparr>pendingChunksRemaining := pendingChunksRemaining t - 1\<rparr>)
            (preallocated t ! ?k)) = Inr s1"
    and m3: "assignWalk p (chunkIndexToRequestIndex p (word_of_nat ?k))
         (peersForPiece s1)
         (foldl (removeNextRequest (chunkIndexToRequestIndex p (word_of_nat ?k))) s1
            (preallocated t ! ?k)) = Inr (b, tc)"
    by (cases rule: rebalanceChunk_cases) auto
  have wk: "word_of_nat ?k = c" by simp
  note sort = m2[unfolded wk] and walk = m3[unfolded wk]
  let ?t1 = "t\<lparr>pendingChunksRemaining := pendingChunksRemaining t - 1\<rparr>"
  let ?t2 = "foldl decRequestsInPiece ?t1 (preallocated t ! ?k)"
  let ?sw = "foldl (removeNextRequest ?req) s1 (preallocated t ! ?k)"
  have t2: "peerStore ?t2 = peerStore t" "sameShape t ?t2"
    using foldl_decRequestsInPiece[of ?t1 "preallocated t ! ?k"]
    by (simp_all add: sameShape_def)
  have r2: "reached p peers store ?t2" by (rule reached_frame[OF rt t2])
  note sh1 = sortPeersForPiece_shape[OF sort]
  have r1: "reached p peers store s1"
    by (rule reached_frame[OF r2]) (use sh1 in simp_all)
  have rsw: "reached p peers store ?sw" by (rule reached_removeNextRequest[OF r1])
  have ps1: "peerStore s1 = peerStore t" "peerOf s1 = peerOf t"
    using sh1 t2 by (simp_all add: sameShape_def)
  have n1: "nextOf s1 = nextOf t" using ps1(1) by (simp add: nextOf_def fun_eq_iff)
  have nsw: "\<And>a. nextOf ?sw a = (if a \<in> rowPeers t ?k then nextOf t a - {?req}
                                  else nextOf t a)"
    unfolding nextOf_foldl_removeNextRequest ps1 n1 rowPeers_def by simp
  have none: "\<forall>a \<in> A. ?req \<notin> nextOf ?sw a"
  proof
    fix a assume "a \<in> A"
    with held have "?req \<in> nextOf t a \<longrightarrow> a \<in> rowPeers t ?k"
      by (simp add: heldByRow_def)
    then show "?req \<notin> nextOf ?sw a" unfolding nsw by auto
  qed
  have ppsw: "peersForPiece ?sw = peersForPiece s1"
    using foldl_removeNextRequest_shape[of s1 ?req "preallocated t ! ?k"] by simp
  have walk': "assignWalk p ?req (peersForPiece ?sw) ?sw = Inr (b, tc)"
    using walk ppsw by simp
  have fin: "?req \<in> nextOf sfin a \<longleftrightarrow> ?req \<in> nextOf ?sw a \<or> chosenAt p ?sw a" for a
  proof -
    have "?req \<in> nextOf sfin a \<longleftrightarrow> ?req \<in> nextOf tc a"
    proof (rule rebalanceChunks_other[OF b3])
      show "\<forall>j \<in> set [Suc ?k ..< ?L].
              ?req \<noteq> chunkIndexToRequestIndex p (word_of_nat j) \<or> preallocated tc ! j = []"
        by (rule rows_other[OF L]) auto
    qed
    also have "\<dots> \<longleftrightarrow> ?req \<in> nextOf ?sw a \<or> chosenAt p ?sw a"
      by (rule assignWalk_chosen[OF walk'])
    finally show ?thesis .
  qed
  from b1 sort rsw none fin show ?thesis by blast
qed

lemma walkState_final:
  assumes d: "distinct (IterPendingChunks p)"
    and free: "\<forall>a \<in> A. \<forall>c \<in> set (IterPendingChunks p).
                 chunkIndexToRequestIndex p c \<notin> nextState_Requests (store a)"
    and run: "allocatePasses p peers store = Inr sfin"
    and c: "c \<in> set (IterPendingChunks p)"
  shows "\<exists>sw. walkState p peers store c = Inr sw \<and>
           reached p peers store sw \<and>
           (\<forall>a \<in> A. chunkIndexToRequestIndex p c \<notin> nextOf sw a) \<and>
           (\<forall>a. chunkIndexToRequestIndex p c \<in> nextOf sfin a \<longleftrightarrow>
                chunkIndexToRequestIndex p c \<in> nextOf sw a \<or> chosenAt p sw a)"
  using run
proof (cases rule: allocatePasses_split)
  case (1 s2 s3)
  note pre = 1(1)[folded startState_def]
  show ?thesis
  proof (cases "preallocated s2 ! unat c = []")
    case True
    from walk_fresh[OF d free pre 1(2) 1(3) c True]
    obtain s sw where
      "freshChunks p (takeWhile (\<lambda>x. x \<noteq> c) (IterPendingChunks p))
         (s2\<lparr>pendingChunksRemaining := NumPendingChunks p\<rparr>) = Inr s"
      "sortPeersForPiece p None s = Inr sw"
      and r: "reached p peers store sw"
        "\<forall>a \<in> A. chunkIndexToRequestIndex p c \<notin> nextOf sw a"
        "\<forall>a. chunkIndexToRequestIndex p c \<in> nextOf sfin a \<longleftrightarrow>
             chunkIndexToRequestIndex p c \<in> nextOf sw a \<or> chosenAt p sw a"
      by blast
    then have "walkState p peers store c = Inr sw"
      using pre True by (simp add: walkState_def)
    with r show ?thesis by blast
  next
    case False
    from walk_rebalance[OF d free pre 1(2) 1(3) c False]
    obtain t s1 sw where
      "rebalanceChunks p [0 ..< unat c] s3 = Inr t"
      "sortPeersForPiece p (Some (chunkIndexToRequestIndex p c))
             (foldl decRequestsInPiece
                (t\<lparr>pendingChunksRemaining := pendingChunksRemaining t - 1\<rparr>)
                (preallocated t ! unat c)) = Inr s1"
      "sw = foldl (removeNextRequest (chunkIndexToRequestIndex p c)) s1
                  (preallocated t ! unat c)"
      and r: "reached p peers store sw"
        "\<forall>a \<in> A. chunkIndexToRequestIndex p c \<notin> nextOf sw a"
        "\<forall>a. chunkIndexToRequestIndex p c \<in> nextOf sfin a \<longleftrightarrow>
             chunkIndexToRequestIndex p c \<in> nextOf sw a \<or> chosenAt p sw a"
      by blast
    then have "walkState p peers store c = Inr sw"
      using pre 1(2) False by (simp add: walkState_def)
    with r show ?thesis by blast
  qed
qed

lemma chosenAt_candidate:
  assumes r: "reached p peers store s" and ch: "chosenAt p s a"
  shows "a \<in> set peers \<and> canRequestPiece (store a) (rp_index p) \<and> canFitRequest (store a) \<and>
         (word_of_int (rp_index p) \<in> PieceAllowedFast (store a) \<or> \<not> Choking (store a))"
proof -
  from ch obtain w where f: "find (eligible p s) (peersForPiece s) = Some w"
    and a: "peerOf s w = a"
    by (auto simp: chosenAt_def)
  from f have w: "w \<in> set (peersForPiece s)" and e: "eligible p s w"
    by (auto simp: find_Some_iff)
  from w a have "a \<in> peerOf s ` set (peersForPiece s)" by blast
  then have "a \<in> set (candidates p store peers)" using r by (simp add: reached_def)
  then have 1: "a \<in> set peers \<and> canRequestPiece (store a) (rp_index p) \<and>
                canFitRequest (store a)"
    by (simp add: candidates_def)
  have "word_of_int (rp_index p) \<in> PieceAllowedFast (peerStore s a) \<or>
        \<not> Choking (peerStore s a)"
    using e a by (simp add: eligible_def)
  then have "word_of_int (rp_index p) \<in> PieceAllowedFast (store a) \<or> \<not> Choking (store a)"
    using r by (simp add: reached_def)
  with 1 show ?thesis by blast
qed

lemma roomy_chosen:
  assumes r: "reached p peers store s"
    and none: "chunkIndexToRequestIndex p c \<notin> nextOf s a"
    and c: "c \<in> set (IterPendingChunks p)"
    and a: "a \<in> set peers" "canRequestPiece (store a) (rp_index p)"
      "word_of_int (rp_index p) \<in> PieceAllowedFast (store a) \<or> \<not> Choking (store a)"
      "int (card (nextState_Requests (store a))) + int (length (IterPendingChunks p))
         \<le> MaxRequests (store a)"
  shows "\<exists>b. chosenAt p s b"
proof -
  let ?cs = "IterPendingChunks p"
  let ?R = "chunkIndexToRequestIndex p"
  let ?N = "nextState_Requests (store a)"
  have pos: "0 < length ?cs" using c by (cases ?cs) auto
  have "int (card ?N) < MaxRequests (store a)" using a(4) pos by linarith
  then have fit0: "canFitRequest (store a)" by (simp add: canFitRequest_def)
  then have "a \<in> set (candidates p store peers)" using a by (simp add: candidates_def)
  then have "a \<in> peerOf s ` set (peersForPiece s)" using r by (simp add: reached_def)
  then obtain w where w: "w \<in> set (peersForPiece s)" "peerOf s w = a" by blast
  have sub: "nextOf s a \<subseteq> ?N \<union> ?R ` (set ?cs - {c})"
  proof
    fix x assume x: "x \<in> nextOf s a"
    with r have "x \<in> ?N \<or> x \<in> ?R ` set ?cs" by (simp add: reached_def)
    moreover have "x \<noteq> ?R c" using x none by auto
    ultimately show "x \<in> ?N \<union> ?R ` (set ?cs - {c})" by auto
  qed
  have "card (nextOf s a) \<le> card (?N \<union> ?R ` (set ?cs - {c}))"
    by (rule card_mono[OF _ sub]) simp
  also have "\<dots> \<le> card ?N + card (?R ` (set ?cs - {c}))" by (rule card_Un_le)
  also have "card (?R ` (set ?cs - {c})) \<le> card (set ?cs - {c})"
    by (rule card_image_le) simp
  also have "card (set ?cs - {c}) = card (set ?cs) - 1" using c by simp
  also have "card (set ?cs) \<le> length ?cs" by (rule card_length)
  finally have "card (nextOf s a) \<le> card ?N + (length ?cs - 1)" by simp
  then have "int (card (nextOf s a)) < int (card ?N) + int (length ?cs)"
    using pos by linarith
  then have "int (card (nextOf s a)) < MaxRequests (store a)" using a(4) by simp
  moreover have "MaxRequests (peerStore s a) = MaxRequests (store a)"
    "Choking (peerStore s a) = Choking (store a)"
    "PieceAllowedFast (peerStore s a) = PieceAllowedFast (store a)"
    using r by (simp_all add: reached_def)
  ultimately have "eligible p s w"
    using w(2) a(3) by (simp add: eligible_def canFitRequest_def nextOf_def)
  with w(1) have "find (eligible p s) (peersForPiece s) \<noteq> None"
    by (auto simp: find_None_iff)
  then show ?thesis by (auto simp: chosenAt_def)
qed

subsection \<open>The allocator on two peers with the same outstanding request\<close>

lemmas alloc_defs = allocatePendingChunks_def allocatePasses_def Let_def
  canFitRequest_def addNextRequest_def pfp_addNextRequest_def peerOf_def
  chunkIndexToRequestIndex_def freshChunk_def rebalanceChunk_def sortPeersForPiece_def
  peersForPieceSorter_Less_def decRequestsInPiece_def removeNextRequest_def decRemaining_def
  ml_defs

lemmas stale_defs = stalePiece_def staleTorrent_def stalePeer_def

lemma stale_final:
  "(case allocatePendingChunks stalePiece [0, 1] stalePeer of
      Inl e \<Rightarrow> None
    | Inr st \<Rightarrow> Some (map (\<lambda>a. (nextState_Requests (st a), MaxRequests (st a), Choking (st a),
                               requestablePiecesRemaining (st a))) [0, 1])) =
   Some [({1}, 1, False, 4), ({}, 1, False, 4)]"
  by (simp add: alloc_defs stale_defs upt_rec)

lemma stale_passes:
  "(case allocatePasses stalePiece [0, 1] stalePeer of
      Inl e \<Rightarrow> None
    | Inr s \<Rightarrow> Some (pendingChunksRemaining s)) = Some 0"
  by (simp add: alloc_defs stale_defs upt_rec)

lemma stale_twice:
  "(case allocatePieces [stalePiece, stalePiece] [0, 1] stalePeer of
      Inl e \<Rightarrow> None
    | Inr st \<Rightarrow> Some (map (\<lambda>a. (nextState_Requests (st a), MaxRequests (st a))) [0, 1])) =
   Some [({1}, 1), ({1}, 1)]"
  by (simp add: alloc_defs stale_defs upt_rec)

lemma stale_returns: "\<exists>st. allocatePendingChunks stalePiece [0, 1] stalePeer = Inr st"
  using stale_final by (cases "allocatePendingChunks stalePiece [0, 1] stalePeer") auto

lemma stale_passes_return: "\<exists>s. allocatePasses stalePiece [0, 1] stalePeer = Inr s"
  using stale_passes by (cases "allocatePasses stalePiece [0, 1] stalePeer") auto

lemma stale_twice_returns:
  "\<exists>st. allocatePieces [stalePiece, stalePiece] [0, 1] stalePeer = Inr st"
  using stale_twice
  by (cases "allocatePieces [stalePiece, stalePiece] [0, 1] stalePeer") auto

lemma roomy_final:
  "(case allocatePendingChunks stalePiece [0, 1] roomyPeer of
      Inl e \<Rightarrow> None
    | Inr st \<Rightarrow> Some (map (\<lambda>a. nextState_Requests (st a)) [0, 1])) =
   Some [{0, 1}, {}]"
  by (simp add: alloc_defs stale_defs roomyPeer_def upt_rec insert_commute)

lemma roomy_returns: "\<exists>st. allocatePendingChunks stalePiece [0, 1] roomyPeer = Inr st"
  using roomy_final by (cases "allocatePendingChunks stalePiece [0, 1] roomyPeer") auto

subsection \<open>The per-piece peer allocator\<close>

text \<open>
  C3, as stated, fails.  Two peers, each able to hold one request and each with request 1
  outstanding, and a piece whose chunks 0 and 1 are pending.  Both peers are pre-allocated
  request 1, so the fresh pass finds nobody with room for chunk 0; the re-balance pass
  then takes request 1 back from both and hands it to peer 0.  The call returns with
  chunk 0 held by nobody, although peer 1 is a candidate that can fit a request and is
  not choking, before the call and after it.
\<close>

theorem spare_peer_chunk_unassigned:
  "\<exists>store'. allocatePendingChunks stalePiece [0, 1] stalePeer = Inr store' \<and>
     IterPendingChunks stalePiece = [0, 1] \<and>
     chunkIndexToRequestIndex stalePiece 0 = 0 \<and>
     nextState_Requests (stalePeer 0) = {} \<and> nextState_Requests (stalePeer 1) = {} \<and>
     canRequestPiece (stalePeer 1) (rp_index stalePiece) \<and>
     canFitRequest (stalePeer 1) \<and> \<not> Choking (stalePeer 1) \<and>
     nextState_Requests (store' 0) = {1} \<and> nextState_Requests (store' 1) = {} \<and>
     canFitRequest (store' 1) \<and> \<not> Choking (store' 1) \<and>
     0 \<notin> nextState_Requests (store' 0) \<and> 0 \<notin> nextState_Requests (store' 1)"
proof -
  from stale_returns obtain st where
    st: "allocatePendingChunks stalePiece [0, 1] stalePeer = Inr st" by blast
  with stale_final have
    "nextState_Requests (st 0) = {1}" "nextState_Requests (st 1) = {}"
    "MaxRequests (st 1) = 1" "\<not> Choking (st 1)"
    by simp_all
  then have "nextState_Requests (st 0) = {1} \<and> nextState_Requests (st 1) = {} \<and>
     canFitRequest (st 1) \<and> \<not> Choking (st 1) \<and>
     0 \<notin> nextState_Requests (st 0) \<and> 0 \<notin> nextState_Requests (st 1)"
    by (simp add: canFitRequest_def)
  moreover have "IterPendingChunks stalePiece = [0, 1] \<and>
     chunkIndexToRequestIndex stalePiece 0 = 0 \<and>
     nextState_Requests (stalePeer 0) = {} \<and> nextState_Requests (stalePeer 1) = {} \<and>
     canRequestPiece (stalePeer 1) (rp_index stalePiece) \<and>
     canFitRequest (stalePeer 1) \<and> \<not> Choking (stalePeer 1)"
    by (simp add: stale_defs canFitRequest_def chunkIndexToRequestIndex_def)
  ultimately show ?thesis using st by blast
qed

text \<open>
  C3, amended.  When \<^verbatim>\<open>allocatePendingChunks\<close> returns, on distinct pending chunks none of
  whose requests a peer of the call held before, the request of a pending chunk is in the
  \<^verbatim>\<open>NextRequests\<close> of at most one peer of the call.  The peers that hold it are exactly
  the peer chosen in the state in which the allocator walked the candidates for that
  chunk (\<open>walkState\<close>): the first sorted candidate that could fit a request then and was
  not blocked by choking; nobody holds it if there was none.  So a holder is a candidate
  that is not blocked; and some peer holds the request whenever a peer that can request
  the piece and is not blocked has room, below \<^verbatim>\<open>MaxRequests\<close>, for all the pending chunks
  of the piece on top of its next requests at entry.
\<close>

theorem one_peer_per_chunk:
  assumes "distinct (IterPendingChunks p)"
    and "\<forall>a \<in> set peers. \<forall>c \<in> set (IterPendingChunks p).
           chunkIndexToRequestIndex p c \<notin> nextState_Requests (store a)"
    and "allocatePendingChunks p peers store = Inr store'"
    and "c \<in> set (IterPendingChunks p)"
  shows "(\<forall>a \<in> set peers. \<forall>b \<in> set peers.
            chunkIndexToRequestIndex p c \<in> nextState_Requests (store' a) \<longrightarrow>
            chunkIndexToRequestIndex p c \<in> nextState_Requests (store' b) \<longrightarrow> a = b) \<and>
         (\<exists>s. walkState p peers store c = Inr s \<and>
            (\<forall>a \<in> set peers.
               chunkIndexToRequestIndex p c \<in> nextState_Requests (store' a) \<longleftrightarrow>
               chosenAt p s a)) \<and>
         (\<forall>a \<in> set peers.
            chunkIndexToRequestIndex p c \<in> nextState_Requests (store' a) \<longrightarrow>
            canRequestPiece (store a) (rp_index p) \<and> canFitRequest (store a) \<and>
            (word_of_int (rp_index p) \<in> PieceAllowedFast (store a) \<or> \<not> Choking (store a))) \<and>
         ((\<exists>a \<in> set peers.
             canRequestPiece (store a) (rp_index p) \<and>
             (word_of_int (rp_index p) \<in> PieceAllowedFast (store a) \<or> \<not> Choking (store a)) \<and>
             int (card (nextState_Requests (store a))) + int (length (IterPendingChunks p))
               \<le> MaxRequests (store a)) \<longrightarrow>
          (\<exists>a \<in> set peers. chunkIndexToRequestIndex p c \<in> nextState_Requests (store' a)))"
proof -
  let ?req = "chunkIndexToRequestIndex p c"
  obtain sfin where run: "allocatePasses p peers store = Inr sfin"
    and e: "store' = peerStore (foldl decRemaining sfin (peersForPiece sfin))"
    using assms(3) by (auto simp: allocatePendingChunks_def split: sum.splits if_splits)
  have nf: "nextState_Requests (store' a) = nextOf sfin a" for a
    unfolding e by (simp add: foldl_decRemaining_store nextOf_def)
  from walkState_final[OF assms(1,2) run assms(4)]
  obtain sw where sw: "walkState p peers store c = Inr sw"
    and r: "reached p peers store sw"
    and none: "\<forall>a \<in> set peers. ?req \<notin> nextOf sw a"
    and fin: "\<forall>a. ?req \<in> nextOf sfin a \<longleftrightarrow> ?req \<in> nextOf sw a \<or> chosenAt p sw a"
    by blast
  have iff: "\<forall>a \<in> set peers. ?req \<in> nextState_Requests (store' a) \<longleftrightarrow> chosenAt p sw a"
    unfolding nf using fin none by blast
  have 1: "\<forall>a \<in> set peers. \<forall>b \<in> set peers.
            ?req \<in> nextState_Requests (store' a) \<longrightarrow>
            ?req \<in> nextState_Requests (store' b) \<longrightarrow> a = b"
    using iff by (auto simp: chosenAt_def)
  have 2: "\<exists>s. walkState p peers store c = Inr s \<and>
            (\<forall>a \<in> set peers. ?req \<in> nextState_Requests (store' a) \<longleftrightarrow> chosenAt p s a)"
    using sw iff by blast
  have 3: "\<forall>a \<in> set peers.
            ?req \<in> nextState_Requests (store' a) \<longrightarrow>
            canRequestPiece (store a) (rp_index p) \<and> canFitRequest (store a) \<and>
            (word_of_int (rp_index p) \<in> PieceAllowedFast (store a) \<or> \<not> Choking (store a))"
    using iff chosenAt_candidate[OF r] by blast
  have 4: "(\<exists>a \<in> set peers.
             canRequestPiece (store a) (rp_index p) \<and>
             (word_of_int (rp_index p) \<in> PieceAllowedFast (store a) \<or> \<not> Choking (store a)) \<and>
             int (card (nextState_Requests (store a))) + int (length (IterPendingChunks p))
               \<le> MaxRequests (store a)) \<longrightarrow>
          (\<exists>a \<in> set peers. ?req \<in> nextState_Requests (store' a))"
  proof
    assume "\<exists>a \<in> set peers.
             canRequestPiece (store a) (rp_index p) \<and>
             (word_of_int (rp_index p) \<in> PieceAllowedFast (store a) \<or> \<not> Choking (store a)) \<and>
             int (card (nextState_Requests (store a))) + int (length (IterPendingChunks p))
               \<le> MaxRequests (store a)"
    then obtain a where a: "a \<in> set peers" "canRequestPiece (store a) (rp_index p)"
      "word_of_int (rp_index p) \<in> PieceAllowedFast (store a) \<or> \<not> Choking (store a)"
      "int (card (nextState_Requests (store a))) + int (length (IterPendingChunks p))
         \<le> MaxRequests (store a)"
      by blast
    from none a(1) have "?req \<notin> nextOf sw a" by blast
    from roomy_chosen[OF r this assms(4) a] obtain b where b: "chosenAt p sw b" by blast
    with chosenAt_candidate[OF r b] iff show
      "\<exists>a \<in> set peers. ?req \<in> nextState_Requests (store' a)" by blast
  qed
  from 1 2 3 4 show ?thesis by blast
qed

theorem one_peer_per_chunk_witness:
  "distinct (IterPendingChunks stalePiece) \<and>
   1 \<in> set (IterPendingChunks stalePiece) \<and>
   chunkIndexToRequestIndex stalePiece 1 = 1 \<and>
   nextState_Requests (roomyPeer 0) = {} \<and> nextState_Requests (roomyPeer 1) = {} \<and>
   canRequestPiece (roomyPeer 1) (rp_index stalePiece) \<and> \<not> Choking (roomyPeer 1) \<and>
   int (card (nextState_Requests (roomyPeer 1))) + int (length (IterPendingChunks stalePiece))
     \<le> MaxRequests (roomyPeer 1) \<and>
   (\<exists>store'. allocatePendingChunks stalePiece [0, 1] roomyPeer = Inr store' \<and>
      \<not> (1 \<in> nextState_Requests (store' 0) \<and> 1 \<in> nextState_Requests (store' 1)) \<and>
      (1 \<in> nextState_Requests (store' 0) \<or> 1 \<in> nextState_Requests (store' 1)) \<and>
      (\<exists>s. walkState stalePiece [0, 1] roomyPeer 1 = Inr s \<and>
         (1 \<in> nextState_Requests (store' 0) \<longleftrightarrow> chosenAt stalePiece s 0) \<and>
         (1 \<in> nextState_Requests (store' 1) \<longleftrightarrow> chosenAt stalePiece s 1)))"
proof -
  from roomy_returns obtain st where
    st: "allocatePendingChunks stalePiece [0, 1] roomyPeer = Inr st" by blast
  have d: "distinct (IterPendingChunks stalePiece)" by (simp add: stale_defs)
  have free: "\<forall>a \<in> set [0, 1 :: nat]. \<forall>c \<in> set (IterPendingChunks stalePiece).
        chunkIndexToRequestIndex stalePiece c \<notin> nextState_Requests (roomyPeer a)"
    by (simp add: stale_defs roomyPeer_def)
  have mem: "1 \<in> set (IterPendingChunks stalePiece)" by (simp add: stale_defs)
  have req1: "chunkIndexToRequestIndex stalePiece 1 = 1"
    by (simp add: stale_defs chunkIndexToRequestIndex_def)
  have n: "nextState_Requests (roomyPeer 0) = {}" "nextState_Requests (roomyPeer 1) = {}"
    by (simp_all add: stale_defs roomyPeer_def)
  have roomy: "canRequestPiece (roomyPeer 1) (rp_index stalePiece)" "\<not> Choking (roomyPeer 1)"
    "int (card (nextState_Requests (roomyPeer 1))) + int (length (IterPendingChunks stalePiece))
       \<le> MaxRequests (roomyPeer 1)"
    by (simp_all add: stale_defs roomyPeer_def)
  note th = one_peer_per_chunk[OF d free st mem, unfolded req1]
  from th have one: "\<not> (1 \<in> nextState_Requests (st 0) \<and> 1 \<in> nextState_Requests (st 1))"
    by auto
  from th obtain s where s: "walkState stalePiece [0, 1] roomyPeer 1 = Inr s"
    "1 \<in> nextState_Requests (st 0) \<longleftrightarrow> chosenAt stalePiece s 0"
    "1 \<in> nextState_Requests (st 1) \<longleftrightarrow> chosenAt stalePiece s 1"
    by auto
  have "\<exists>a \<in> set [0, 1 :: nat].
          canRequestPiece (roomyPeer a) (rp_index stalePiece) \<and>
          (word_of_int (rp_index stalePiece) \<in> PieceAllowedFast (roomyPeer a) \<or>
           \<not> Choking (roomyPeer a)) \<and>
          int (card (nextState_Requests (roomyPeer a))) +
            int (length (IterPendingChunks stalePiece)) \<le> MaxRequests (roomyPeer a)"
    using roomy by auto
  with th have "\<exists>a \<in> set [0, 1 :: nat]. 1 \<in> nextState_Requests (st a)" by blast
  then have some: "1 \<in> nextState_Requests (st 0) \<or> 1 \<in> nextState_Requests (st 1)" by auto
  from d mem req1 n roomy st one some s show ?thesis by blast
qed

text \<open>
  C5.  For a piece whose pending chunks are distinct and as many as \<^verbatim>\<open>NumPendingChunks\<close>
  says, the counter is 0 whenever the three passes return, and the panic that carries the
  counter is never the outcome of \<^verbatim>\<open>allocatePendingChunks\<close>.
\<close>

theorem counter_reaches_zero:
  assumes "distinct (IterPendingChunks p)"
    and "int (length (IterPendingChunks p)) = NumPendingChunks p"
  shows "(\<forall>s. allocatePasses p peers store = Inr s \<longrightarrow> pendingChunksRemaining s = 0) \<and>
         (\<forall>n. allocatePendingChunks p peers store \<noteq> Inl (PendingChunksRemaining n))"
proof (intro conjI allI impI)
  fix s assume "allocatePasses p peers store = Inr s"
  from allocatePasses_counter[OF assms(1) this] assms(2)
  show "pendingChunksRemaining s = 0" by simp
next
  fix n
  show "allocatePendingChunks p peers store \<noteq> Inl (PendingChunksRemaining n)"
  proof (cases "allocatePasses p peers store")
    case (Inl e)
    then have "passPanic e" by (rule allocatePasses_Inl)
    then have "e \<noteq> PendingChunksRemaining n" by (auto simp: passPanic_def)
    then show ?thesis using Inl by (simp add: allocatePendingChunks_def)
  next
    case (Inr s)
    from allocatePasses_counter[OF assms(1) this] assms(2)
    have "pendingChunksRemaining s = 0" by simp
    then show ?thesis using Inr by (simp add: allocatePendingChunks_def)
  qed
qed

theorem counter_reaches_zero_witness:
  "distinct (IterPendingChunks stalePiece) \<and>
   int (length (IterPendingChunks stalePiece)) = NumPendingChunks stalePiece \<and>
   (\<exists>s. allocatePasses stalePiece [0, 1] stalePeer = Inr s \<and> pendingChunksRemaining s = 0) \<and>
   (\<exists>st. allocatePendingChunks stalePiece [0, 1] stalePeer = Inr st)"
proof -
  have d: "distinct (IterPendingChunks stalePiece)"
    and n: "int (length (IterPendingChunks stalePiece)) = NumPendingChunks stalePiece"
    by (simp_all add: stale_defs)
  from stale_passes_return obtain s where
    s: "allocatePasses stalePiece [0, 1] stalePeer = Inr s" by blast
  from counter_reaches_zero[OF d n, of "[0, 1]" stalePeer, THEN conjunct1] s
  have "pendingChunksRemaining s = 0" by blast
  with d n s stale_returns show ?thesis by blast
qed

text \<open>
  C6.  A call of \<^verbatim>\<open>allocatePendingChunks\<close> that returns leaves \<^verbatim>\<open>MaxRequests\<close> of every
  peer as it was, and a peer that held at most \<^verbatim>\<open>MaxRequests\<close> next requests at entry holds
  at most that many when the call returns; so does any sequence of allocations, piece
  after piece, on the same peers.
\<close>

theorem next_requests_within_cap:
  "(allocatePendingChunks p peers store = Inr store' \<longrightarrow>
      MaxRequests (store' a) = MaxRequests (store a) \<and>
      (int (card (nextState_Requests (store a))) \<le> MaxRequests (store a) \<longrightarrow>
       int (card (nextState_Requests (store' a))) \<le> MaxRequests (store' a))) \<and>
   (allocatePieces ps peers store = Inr store'' \<longrightarrow>
      MaxRequests (store'' a) = MaxRequests (store a) \<and>
      (int (card (nextState_Requests (store a))) \<le> MaxRequests (store a) \<longrightarrow>
       int (card (nextState_Requests (store'' a))) \<le> MaxRequests (store'' a)))"
proof (intro conjI impI)
  assume r: "allocatePendingChunks p peers store = Inr store'"
  show "MaxRequests (store' a) = MaxRequests (store a)"
    using allocatePendingChunks_Q[OF closedQ_MaxRequests[of "MaxRequests (store a)"]
        closedRemaining_MaxRequests r, of a] by simp
  assume "int (card (nextState_Requests (store a))) \<le> MaxRequests (store a)"
  then show "int (card (nextState_Requests (store' a))) \<le> MaxRequests (store' a)"
    using allocatePendingChunks_Q[OF closedQ_withinCap closedRemaining_withinCap r, of a]
    by (simp add: withinCap_def)
next
  assume r: "allocatePieces ps peers store = Inr store''"
  show "MaxRequests (store'' a) = MaxRequests (store a)"
    using allocatePieces_Q[OF closedQ_MaxRequests[of "MaxRequests (store a)"]
        closedRemaining_MaxRequests r, of a] by simp
  assume "int (card (nextState_Requests (store a))) \<le> MaxRequests (store a)"
  then show "int (card (nextState_Requests (store'' a))) \<le> MaxRequests (store'' a)"
    using allocatePieces_Q[OF closedQ_withinCap closedRemaining_withinCap r, of a]
    by (simp add: withinCap_def)
qed

theorem next_requests_within_cap_witness:
  "int (card (nextState_Requests (stalePeer 0))) \<le> MaxRequests (stalePeer 0) \<and>
   (\<exists>st. allocatePendingChunks stalePiece [0, 1] stalePeer = Inr st \<and>
      MaxRequests (st 0) = 1 \<and> int (card (nextState_Requests (st 0))) \<le> 1) \<and>
   (\<exists>st. allocatePieces [stalePiece, stalePiece] [0, 1] stalePeer = Inr st \<and>
      MaxRequests (st 0) = 1 \<and> int (card (nextState_Requests (st 0))) \<le> 1)"
proof -
  have c: "int (card (nextState_Requests (stalePeer 0))) \<le> MaxRequests (stalePeer 0)"
    and m: "MaxRequests (stalePeer 0) = 1"
    by (simp_all add: stale_defs)
  from stale_returns obtain st where
    st: "allocatePendingChunks stalePiece [0, 1] stalePeer = Inr st" by blast
  from stale_twice_returns obtain st2 where
    st2: "allocatePieces [stalePiece, stalePiece] [0, 1] stalePeer = Inr st2" by blast
  note th = next_requests_within_cap[of stalePiece "[0, 1]" stalePeer st 0
      "[stalePiece, stalePiece]" st2]
  from th[THEN conjunct1] st c m
  have 1: "MaxRequests (st 0) = 1 \<and> int (card (nextState_Requests (st 0))) \<le> 1" by simp
  from th[THEN conjunct2] st2 c m
  have 2: "MaxRequests (st2 0) = 1 \<and> int (card (nextState_Requests (st2 0))) \<le> 1" by simp
  from c st 1 st2 2 show ?thesis by blast
qed

text \<open>
  C10.  When a call on a slice of distinct peers returns, a peer of the slice that can
  request the piece has \<^verbatim>\<open>requestablePiecesRemaining\<close> one lower than at entry, whether it was
  dropped at its cap or kept as a candidate; every other peer has it unchanged.
\<close>

theorem remaining_decremented:
  assumes "distinct peers" "allocatePendingChunks p peers store = Inr store'"
  shows "requestablePiecesRemaining (store' a) =
           (if a \<in> set peers \<and> canRequestPiece (store a) (rp_index p)
            then requestablePiecesRemaining (store a) - 1
            else requestablePiecesRemaining (store a))"
proof -
  let ?i = "\<lparr>peerStore = store, wrappers = [], peersForPiece = [],
            preallocated = [], pendingChunksRemaining = 0\<rparr>"
  let ?s0 = "filterPeers p peers ?i"
  let ?c = "candidates p store peers"
  obtain s where s: "allocatePasses p peers store = Inr s"
    and e: "store' = peerStore (foldl decRemaining s (peersForPiece s))"
    using assms(2) unfolding allocatePendingChunks_def
    by (auto split: sum.splits if_splits)
  have r1: "requestablePiecesRemaining (store' a) =
        requestablePiecesRemaining (peerStore s a) -
          int (length (filter (\<lambda>w. peerOf s w = a) (peersForPiece s)))"
    unfolding e by (simp add: foldl_decRemaining_store)
  have r2: "requestablePiecesRemaining (peerStore s a) =
        requestablePiecesRemaining (peerStore ?s0 a)"
    using passes_Q[OF closedQ_remaining[of "requestablePiecesRemaining (peerStore ?s0 a)"] s,
        of a]
    by simp
  have r3: "peerStore ?s0 a =
           (if a \<in> set peers \<and> canRequestPiece (store a) (rp_index p) \<and>
               \<not> canFitRequest (store a)
            then (store a)\<lparr>requestablePiecesRemaining :=
                                    requestablePiecesRemaining (store a) - 1\<rparr>
            else store a)"
    using filterPeers_store[OF assms(1), of p ?i a] by simp
  note pc = passes_candidates[OF s]
  have "length (filter (\<lambda>w. peerOf s w = a) (peersForPiece s)) =
        length (filter (\<lambda>w. peerOf s w = a) [0 ..< length ?c])"
    using pc by (intro length_filter_mset_eq) simp
  also have "\<dots> = length (filter (\<lambda>w. ?c ! w = a) [0 ..< length ?c])"
    using pc by (intro arg_cong[where f = length] filter_cong) auto
  also have "\<dots> = length (filter (\<lambda>x. x = a) ?c)"
    by (rule length_filter_nth)
  also have "\<dots> = (if a \<in> set ?c then 1 else 0)"
    using assms(1) by (intro length_filter_eq_distinct) (simp add: candidates_def)
  finally have r4: "length (filter (\<lambda>w. peerOf s w = a) (peersForPiece s)) =
      (if a \<in> set peers \<and> canRequestPiece (store a) (rp_index p) \<and> canFitRequest (store a)
       then 1 else 0)"
    by (simp add: candidates_def)
  show ?thesis
    unfolding r1 r2 r3 r4 by auto
qed

theorem remaining_decremented_witness:
  "distinct [0, 1 :: addr] \<and>
   canRequestPiece (stalePeer 0) (rp_index stalePiece) \<and>
   requestablePiecesRemaining (stalePeer 0) = 5 \<and>
   requestablePiecesRemaining (stalePeer 7) = 5 \<and>
   (\<exists>st. allocatePendingChunks stalePiece [0, 1] stalePeer = Inr st \<and>
      requestablePiecesRemaining (st 0) = 4 \<and> requestablePiecesRemaining (st 7) = 5)"
proof -
  have d: "distinct [0, 1 :: addr]" by simp
  have c: "canRequestPiece (stalePeer 0) (rp_index stalePiece)"
    and r: "requestablePiecesRemaining (stalePeer 0) = 5"
      "requestablePiecesRemaining (stalePeer 7) = 5"
    by (simp_all add: stale_defs)
  from stale_returns obtain st where
    st: "allocatePendingChunks stalePiece [0, 1] stalePeer = Inr st" by blast
  from remaining_decremented[OF d st, of 0] c r
  have 0: "requestablePiecesRemaining (st 0) = 4" by simp
  from remaining_decremented[OF d st, of 7] r
  have 7: "requestablePiecesRemaining (st 7) = 5" by simp
  from d c r st 0 7 show ?thesis by blast
qed

end
